(* ===== verification/Prelude.thy ===== *)
theory Prelude
  imports Main "HOL-Library.Word"
begin

text \<open>
  What every component of the development shares: the integer types of the firmware
  build (\<^verbatim>\<open>ARCH_RAMSTAGE_X86_32\<close>, so \<open>size_t\<close>, \<open>uintptr_t\<close> and \<open>unsigned long\<close> have 32
  bits and \<open>resource_t\<close> has 64), the alignment macros of
  \<^verbatim>\<open>src/coreboot/src/commonlib/include/commonlib/helpers.h\<close>, byte-addressed memory with
  the effect of \<open>memcpy\<close> and \<open>memset\<close>, byte orders, and the lemmas on words, lists and
  memory that the component theories use.
\<close>

unbundle bit_operations_syntax

type_synonym u8 = "8 word"
type_synonym u16 = "16 word"
type_synonym u32 = "32 word"
type_synonym u64 = "64 word"
type_synonym size_t = "32 word"
type_synonym ssize_t = "32 word"
type_synonym uintptr = "32 word"
type_synonym resource_t = "64 word"

named_theorems mem_simps \<open>reads of memory after writes\<close>

section \<open>Words as numbers\<close>

abbreviation negative :: "ssize_t \<Rightarrow> bool" where
  "negative r \<equiv> sint r < 0"

lemma unat_plus_no_wrap:
  fixes a b :: "'a::len word"
  assumes "unat a + unat b < 2 ^ LENGTH('a)"
  shows "unat (a + b) = unat a + unat b"
  using assms by (rule unat_add_lem [THEN iffD1])

lemma unat_plus_wrap:
  fixes a b :: "'a::len word"
  assumes "2 ^ LENGTH('a) \<le> unat a + unat b"
  shows "unat (a + b) = unat a + unat b - 2 ^ LENGTH('a)"
proof -
  have "unat a < 2 ^ LENGTH('a)" "unat b < 2 ^ LENGTH('a)" by simp_all
  then have "unat a + unat b - 2 ^ LENGTH('a) < 2 ^ LENGTH('a)" by linarith
  with assms show ?thesis
    by (simp add: unat_word_ariths le_mod_geq)
qed

lemma unat_minus_no_wrap:
  fixes a b :: "'a::len word"
  assumes "b \<le> a"
  shows "unat (a - b) = unat a - unat b"
  using assms by (rule unat_sub)

lemma unat_minus_wrap:
  fixes a b :: "'a::len word"
  assumes "a < b"
  shows "unat (a - b) = 2 ^ LENGTH('a) + unat a - unat b"
proof -
  have "unat a < unat b" using assms by (simp add: word_less_nat_alt)
  moreover have "unat (a - b + b) = unat a" by simp
  moreover have "unat (a - b) < 2 ^ LENGTH('a)" "unat b < 2 ^ LENGTH('a)" by simp_all
  ultimately show ?thesis
    using unat_plus_no_wrap [of "a - b" b] unat_plus_wrap [of "a - b" b]
    by linarith
qed

lemma unat_lt_2p32 [simp]: "unat (x :: 32 word) < 4294967296"
  using unsigned_less [of x] by simp

lemma unat_lt_2p64 [simp]: "unat (x :: 64 word) < 18446744073709551616"
  using unsigned_less [of x] by simp

lemma unat_lt_2p16 [simp]: "unat (x :: 16 word) < 65536"
  using unsigned_less [of x] by simp

lemma unat_lt_2p8 [simp]: "unat (x :: 8 word) < 256"
  using unsigned_less [of x] by simp

lemma unat_of_nat_u32: "n < 4294967296 \<Longrightarrow> unat (word_of_nat n :: u32) = n"
  by (simp add: unat_of_nat)

lemma unat_ucast_small: "unat x < 2 ^ LENGTH('b) \<Longrightarrow> unat (ucast x :: 'b::len word) = unat x"
  for x :: "'a::len word"
  by (simp add: unsigned_ucast_eq take_bit_eq_mod)

lemma unat_ucast_u64: "unat (ucast x :: u64) = unat x" for x :: u32
  by (rule unat_ucast_small) (use unat_lt_2p32 [of x] in \<open>simp, linarith\<close>)

lemma even_unat_iff: "even (unat w) \<longleftrightarrow> even w" for w :: "'a::len word"
  by (metis even_of_nat mult.right_neutral unsigned_1 word_arith_nat_mult)

lemma negative_iff: "negative r \<longleftrightarrow> 2147483648 \<le> unat r"
proof -
  have "negative r \<longleftrightarrow> bit r 31"
    using bit_last_iff [of r] by simp
  also have "\<dots> \<longleftrightarrow> odd (drop_bit 31 r)"
    by (simp add: bit_iff_odd_drop_bit)
  also have "\<dots> \<longleftrightarrow> odd (unat (drop_bit 31 r))"
    by (simp add: even_unat_iff)
  also have "unat (drop_bit 31 r) = unat r div 2147483648"
    unfolding unat_drop_bit_eq by (simp add: drop_bit_eq_div)
  also have "unat r div 2147483648 = (if 2147483648 \<le> unat r then 1 else 0)"
    by (auto intro: div_nat_eqI)
  finally show ?thesis by simp
qed

section \<open>Alignment macros\<close>

text \<open>
  \<^verbatim>\<open>#define __ALIGN_MASK(x,mask) (((x)+(mask))&~(mask))\<close>, with
  \<open>mask = (typeof(x))(a) - 1\<close>; the addition wraps at the width of \<open>x\<close>.
\<close>

definition ALIGN_MASK :: "'a::len word \<Rightarrow> 'a word \<Rightarrow> 'a word" where
  "ALIGN_MASK x m = (x + m) AND NOT m"

definition ALIGN_UP :: "'a::len word \<Rightarrow> 'a word \<Rightarrow> 'a word" where
  "ALIGN_UP x a = ALIGN_MASK x (a - 1)"

definition ALIGN_DOWN :: "'a::len word \<Rightarrow> 'a word \<Rightarrow> 'a word" where
  "ALIGN_DOWN x a = x AND NOT (a - 1)"

definition IS_ALIGNED :: "'a::len word \<Rightarrow> 'a word \<Rightarrow> bool" where
  "IS_ALIGNED x a \<longleftrightarrow> x AND (a - 1) = 0"

definition IS_POWER_OF_2 :: "'a::len word \<Rightarrow> bool" where
  "IS_POWER_OF_2 x \<longleftrightarrow> x AND (x - 1) = 0"

lemma and_not_mask_eq:
  fixes x :: "'a::len word"
  shows "x AND NOT (mask k) = x - take_bit k x"
proof -
  have "x - take_bit k x = x AND NOT (take_bit k x)"
    by (rule disjunctive_diff) (simp add: bit_take_bit_iff)
  also have "\<dots> = x AND NOT (mask k)"
    by (rule bit_eqI) (auto simp: bit_simps)
  finally show ?thesis ..
qed

lemma unat_take_bit_word:
  fixes x :: "'a::len word"
  shows "unat (take_bit k x) = unat x mod 2 ^ k"
  by (metis take_bit_eq_mod unsigned_take_bit_eq)

lemma unat_and_not_mask:
  fixes x :: "'a::len word"
  shows "unat (x AND NOT (mask k)) = unat x - unat x mod 2 ^ k"
proof -
  have "take_bit k x \<le> x"
    by (simp add: word_le_nat_alt unat_take_bit_word)
  then show ?thesis
    by (simp add: and_not_mask_eq unat_minus_no_wrap unat_take_bit_word)
qed

lemma unat_ALIGN_DOWN:
  "unat (ALIGN_DOWN x (2 ^ k)) = unat x - unat x mod 2 ^ k"
  by (simp add: ALIGN_DOWN_def unat_and_not_mask flip: mask_eq_exp_minus_1)

lemma ALIGN_UP_eq_DOWN: "ALIGN_UP x a = ALIGN_DOWN (x + (a - 1)) a"
  by (simp add: ALIGN_UP_def ALIGN_DOWN_def ALIGN_MASK_def)

lemma unat_exp_word: "k < LENGTH('a) \<Longrightarrow> unat (2 ^ k :: 'a::len word) = 2 ^ k"
proof -
  assume "k < LENGTH('a)"
  then have "(2::nat) ^ k < 2 ^ LENGTH('a)" by simp
  then show ?thesis using unat_of_nat [of "2 ^ k", where 'a = 'a] by simp
qed

lemma unat_mask_word: "k < LENGTH('a) \<Longrightarrow> unat (2 ^ k - 1 :: 'a::len word) = 2 ^ k - 1"
  by (simp add: unat_minus_one unat_exp_word)

lemma unat_ALIGN_UP:
  fixes x :: "'a::len word"
  assumes "k < LENGTH('a)" and "unat x + 2 ^ k - 1 < 2 ^ LENGTH('a)"
  shows "unat (ALIGN_UP x (2 ^ k)) = (unat x + 2 ^ k - 1) div 2 ^ k * 2 ^ k"
proof -
  have "unat (x + (2 ^ k - 1)) = unat x + 2 ^ k - 1"
    using assms by (simp add: unat_plus_no_wrap unat_mask_word)
  then show ?thesis
    by (simp add: ALIGN_UP_eq_DOWN unat_ALIGN_DOWN minus_mod_eq_div_mult)
qed

lemma unat_ALIGN_UP_wrap:
  fixes x :: "'a::len word"
  assumes "k < LENGTH('a)" and "2 ^ LENGTH('a) \<le> unat x + 2 ^ k - 1"
  shows "ALIGN_UP x (2 ^ k) = 0"
proof -
  have "unat (x + (2 ^ k - 1)) = unat x + (2 ^ k - 1) - 2 ^ LENGTH('a)"
    using assms by (simp add: unat_plus_wrap unat_mask_word)
  moreover have "unat x < 2 ^ LENGTH('a)" by simp
  ultimately have "unat (x + (2 ^ k - 1)) < 2 ^ k"
    using assms by linarith
  then have "unat (ALIGN_UP x (2 ^ k)) = 0"
    by (simp add: ALIGN_UP_eq_DOWN unat_ALIGN_DOWN)
  then show ?thesis by (simp add: unat_0_iff)
qed

lemma le_ALIGN_UP_nat: "n \<le> (n + 2 ^ k - 1) div 2 ^ k * 2 ^ k" for n :: nat
proof -
  have "(n + 2 ^ k - 1) mod 2 ^ k < 2 ^ k" by simp
  moreover have "(n + 2 ^ k - 1) div 2 ^ k * 2 ^ k + (n + 2 ^ k - 1) mod 2 ^ k = n + 2 ^ k - 1"
    by (rule div_mult_mod_eq)
  ultimately show ?thesis by linarith
qed

section \<open>Memory\<close>

text \<open>
  Memory is a function from addresses to bytes. Addresses wrap at 32 bits, as pointer
  arithmetic on the target does. \<open>mem_read m a n\<close> is what \<open>memcpy\<close> of \<open>n\<close> bytes from
  \<open>a\<close> yields, \<open>mem_write m a bs\<close> the memory after \<open>memcpy\<close> of \<open>bs\<close> to \<open>a\<close>.
\<close>

type_synonym mem = "uintptr \<Rightarrow> u8"

primrec mem_read :: "mem \<Rightarrow> uintptr \<Rightarrow> nat \<Rightarrow> u8 list" where
  "mem_read m a 0 = []"
| "mem_read m a (Suc n) = m a # mem_read m (a + 1) n"

primrec mem_write :: "mem \<Rightarrow> uintptr \<Rightarrow> u8 list \<Rightarrow> mem" where
  "mem_write m a [] = m"
| "mem_write m a (b # bs) = mem_write (m(a := b)) (a + 1) bs"

definition mem_set :: "mem \<Rightarrow> uintptr \<Rightarrow> u8 \<Rightarrow> nat \<Rightarrow> mem" where
  "mem_set m a b n = mem_write m a (replicate n b)"

lemma length_mem_read [simp]: "length (mem_read m a n) = n"
  by (induction n arbitrary: a) simp_all

lemma nth_mem_read [mem_simps]: "i < n \<Longrightarrow> mem_read m a n ! i = m (a + word_of_nat i)"
proof (induction n arbitrary: a i)
  case (Suc n)
  then show ?case by (cases i) (simp_all add: ac_simps)
qed simp

lemma mem_read_append: "mem_read m a (i + j) = mem_read m a i @ mem_read m (a + word_of_nat i) j"
  by (induction i arbitrary: a) (simp_all add: ac_simps)

lemma unat_diff_Suc: "a \<noteq> b \<Longrightarrow> unat (b - a) = Suc (unat (b - (a + 1)))"
  for a b :: "'a::len word"
proof -
  assume "a \<noteq> b"
  then have "b - a \<noteq> 0" by simp
  then have "unat (b - a - 1) = unat (b - a) - 1" by (rule unat_minus_one)
  moreover have "0 < unat (b - a)" using \<open>b - a \<noteq> 0\<close> by (simp add: unat_gt_0)
  ultimately show ?thesis by (simp add: diff_diff_add)
qed

lemma mem_write_apply [mem_simps]:
  assumes "length bs \<le> 4294967296"
  shows "mem_write m a bs b =
    (if unat (b - a) < length bs then bs ! unat (b - a) else m b)"
  using assms
proof (induction bs arbitrary: m a)
  case (Cons x bs)
  show ?case
  proof (cases "a = b")
    case True
    have "unat (b - (b + 1)) = 4294967295"
      by (simp add: unsigned_minus_1_eq_mask mask_eq_exp_minus_1)
    with True Cons show ?thesis by simp
  next
    case False
    then have "unat (b - a) = Suc (unat (b - (a + 1)))" by (rule unat_diff_Suc)
    with False Cons show ?thesis by simp
  qed
qed simp

lemma mem_write_append:
  "mem_write m a (xs @ ys) = mem_write (mem_write m a xs) (a + word_of_nat (length xs)) ys"
  by (induction xs arbitrary: m a) (simp_all add: ac_simps)

lemma mem_read_cong:
  assumes "\<And>i. i < n \<Longrightarrow> m (a + word_of_nat i) = m' (a' + word_of_nat i)"
  shows "mem_read m a n = mem_read m' a' n"
  using assms by (intro nth_equalityI) (simp_all add: nth_mem_read)

lemma mem_read_write_same:
  assumes "length bs \<le> 4294967296"
  shows "mem_read (mem_write m a bs) a (length bs) = bs"
proof (rule nth_equalityI)
  fix i assume "i < length (mem_read (mem_write m a bs) a (length bs))"
  then have "i < length bs" by simp
  moreover from this assms have "unat (word_of_nat i :: u32) = i"
    by (simp add: unat_of_nat_u32)
  ultimately show "mem_read (mem_write m a bs) a (length bs) ! i = bs ! i"
    using assms by (simp add: mem_simps)
qed simp

end
