(* ===== verification/Mem_Pool.thy ===== *)
theory Mem_Pool
  imports Prelude
begin

text \<open>
  The memory pool of \<^verbatim>\<open>src/coreboot/src/commonlib/mem_pool.c\<close> and its header: a
  bump allocator over a fixed buffer that can give back only its latest allocation.
  Pointers are 32-bit addresses, \<open>NULL\<close> is 0. The history relation \<open>pool_reach\<close>
  adds the list of blocks the clients hold, and the invariant over it shows that held
  blocks never overlap and never leave the buffer.
\<close>

record mem_pool =
  pool_buf :: uintptr
  pool_size :: size_t
  last_alloc :: uintptr
  free_offset :: size_t

definition mem_pool_reset :: "mem_pool \<Rightarrow> mem_pool" where
  "mem_pool_reset mp = mp\<lparr>last_alloc := 0, free_offset := 0\<rparr>"

definition mem_pool_init :: "mem_pool \<Rightarrow> uintptr \<Rightarrow> size_t \<Rightarrow> mem_pool" where
  "mem_pool_init mp b sz = mem_pool_reset (mp\<lparr>pool_buf := b, pool_size := sz\<rparr>)"

definition mem_pool_alloc :: "mem_pool \<Rightarrow> size_t \<Rightarrow> uintptr \<times> mem_pool" where
  "mem_pool_alloc mp sz0 =
     (let sz = ALIGN_UP sz0 8
      in if pool_size mp - free_offset mp < sz then (0, mp)
         else let p = pool_buf mp + free_offset mp
              in (p, mp\<lparr>free_offset := free_offset mp + sz, last_alloc := p\<rparr>))"

definition mem_pool_free :: "mem_pool \<Rightarrow> uintptr \<Rightarrow> mem_pool" where
  "mem_pool_free mp p =
     (if p = 0 \<or> last_alloc mp \<noteq> p then mp
      else mp\<lparr>free_offset := last_alloc mp - pool_buf mp, last_alloc := 0\<rparr>)"

section \<open>Single operations\<close>

definition round8 :: "nat \<Rightarrow> nat" where
  "round8 n = (n + 7) div 8 * 8"

lemma round8_bounds: "n \<le> round8 n" "round8 n < n + 8" "8 dvd round8 n"
  unfolding round8_def by auto

lemma unat_ALIGN_UP_8:
  "unat sz \<le> 4294967288 \<Longrightarrow> unat (ALIGN_UP sz (8 :: size_t)) = round8 (unat sz)"
  using unat_ALIGN_UP [of 3 sz] by (simp add: round8_def)

text \<open>What the pool's users rely on between calls.\<close>

definition pool_ok :: "mem_pool \<Rightarrow> bool" where
  "pool_ok mp \<longleftrightarrow>
     pool_buf mp \<noteq> 0 \<and> unat (pool_buf mp) + unat (pool_size mp) < 4294967296 \<and>
     8 dvd unat (pool_buf mp) \<and>
     free_offset mp \<le> pool_size mp \<and> 8 dvd unat (free_offset mp) \<and>
     (last_alloc mp \<noteq> 0 \<longrightarrow>
        unat (pool_buf mp) \<le> unat (last_alloc mp) \<and> 8 dvd unat (last_alloc mp) \<and>
        unat (last_alloc mp) \<le> unat (pool_buf mp) + unat (free_offset mp))"

definition pool_left :: "mem_pool \<Rightarrow> nat" where
  "pool_left mp = unat (pool_size mp) - unat (free_offset mp)"

definition pool_top :: "mem_pool \<Rightarrow> nat" where
  "pool_top mp = unat (pool_buf mp) + unat (free_offset mp)"

lemma pool_top_unat:
  "pool_ok mp \<Longrightarrow> unat (pool_buf mp + free_offset mp) = pool_top mp"
  by (simp add: pool_ok_def pool_top_def word_le_nat_alt unat_plus_no_wrap)

lemma pool_top_pos: "pool_ok mp \<Longrightarrow> pool_buf mp + free_offset mp \<noteq> 0"
proof
  assume ok: "pool_ok mp" and z: "pool_buf mp + free_offset mp = 0"
  have "0 < unat (pool_buf mp)" using ok by (simp add: pool_ok_def unat_gt_0)
  moreover have "pool_top mp = 0" using pool_top_unat [OF ok] z by simp
  ultimately show False by (simp add: pool_top_def)
qed

lemma mem_pool_alloc_fits:
  assumes ok: "pool_ok mp" and sz: "unat sz \<le> 4294967288"
    and fit: "round8 (unat sz) \<le> pool_left mp"
  obtains mp' where "mem_pool_alloc mp sz = (pool_buf mp + free_offset mp, mp')"
    and "pool_buf mp + free_offset mp \<noteq> 0"
    and "pool_buf mp' = pool_buf mp" and "pool_size mp' = pool_size mp"
    and "last_alloc mp' = pool_buf mp + free_offset mp"
    and "unat (free_offset mp') = unat (free_offset mp) + round8 (unat sz)"
    and "pool_ok mp'"
proof -
  let ?a = "ALIGN_UP sz (8 :: size_t)"
  let ?mp' = "mp\<lparr>free_offset := free_offset mp + ?a, last_alloc := pool_buf mp + free_offset mp\<rparr>"
  note a = unat_ALIGN_UP_8 [OF sz]
  have left: "unat (pool_size mp - free_offset mp) = pool_left mp"
    using ok by (simp add: pool_ok_def pool_left_def unat_minus_no_wrap)
  have alloc: "mem_pool_alloc mp sz = (pool_buf mp + free_offset mp, ?mp')"
    using fit by (simp add: mem_pool_alloc_def Let_def word_less_nat_alt left a)
  have fo: "unat (free_offset mp + ?a) = unat (free_offset mp) + round8 (unat sz)"
  proof -
    have "unat (free_offset mp) + unat ?a \<le> unat (pool_size mp)"
      using fit ok by (auto simp: a pool_left_def pool_ok_def word_le_nat_alt)
    then have "unat (free_offset mp) + unat ?a < 2 ^ LENGTH(32)"
      using unsigned_less [of "pool_size mp"] by (rule le_less_trans)
    then show ?thesis by (simp add: unat_plus_no_wrap a)
  qed
  note nz = pool_top_pos [OF ok]
  have "pool_ok ?mp'"
    using ok fit pool_top_unat [OF ok] round8_bounds
    by (auto simp: pool_ok_def fo word_le_nat_alt pool_left_def pool_top_def)
  with alloc nz fo show ?thesis by (intro that [of ?mp']) simp_all
qed

lemma mem_pool_alloc_refused:
  assumes ok: "pool_ok mp" and sz: "unat sz \<le> 4294967288"
    and full: "pool_left mp < round8 (unat sz)"
  shows "mem_pool_alloc mp sz = (0, mp)"
  using ok full
  by (simp add: mem_pool_alloc_def Let_def word_less_nat_alt unat_ALIGN_UP_8 [OF sz]
      pool_ok_def pool_left_def unat_minus_no_wrap)

lemma pool_ok_init:
  assumes "b \<noteq> 0" "unat b + unat sz < 4294967296" "8 dvd unat b"
  shows "pool_ok (mem_pool_init mp b sz)"
  using assms by (simp add: pool_ok_def mem_pool_init_def mem_pool_reset_def)

lemma mem_pool_free_other: "last_alloc mp \<noteq> p \<Longrightarrow> mem_pool_free mp p = mp"
  by (simp add: mem_pool_free_def)

lemma mem_pool_free_last:
  assumes ok: "pool_ok mp" and p: "p \<noteq> 0" "last_alloc mp = p"
  shows "pool_top (mem_pool_free mp p) = unat p"
    and "pool_ok (mem_pool_free mp p)"
    and "last_alloc (mem_pool_free mp p) = 0"
    and "pool_buf (mem_pool_free mp p) = pool_buf mp"
    and "pool_size (mem_pool_free mp p) = pool_size mp"
proof -
  have fo: "unat (p - pool_buf mp) = unat p - unat (pool_buf mp)"
    using ok p by (simp add: pool_ok_def unat_minus_no_wrap word_le_nat_alt)
  show "pool_top (mem_pool_free mp p) = unat p"
    using ok p by (simp add: pool_top_def mem_pool_free_def fo pool_ok_def)
  show "pool_ok (mem_pool_free mp p)"
    using ok p by (auto simp: mem_pool_free_def pool_ok_def fo word_le_nat_alt)
qed (use p in \<open>simp_all add: mem_pool_free_def\<close>)

text \<open>Releasing the latest allocation undoes it, but for the forgotten \<open>last_alloc\<close>.\<close>

lemma mem_pool_free_alloc:
  assumes "mem_pool_alloc mp sz = (p, mp')" "p \<noteq> 0"
  shows "mem_pool_free mp' p = mp\<lparr>last_alloc := 0\<rparr>"
  using assms
  by (auto simp: mem_pool_alloc_def mem_pool_free_def Let_def split: if_splits)

section \<open>Histories of a pool\<close>

text \<open>
  A step is a call of a client: an allocation of a size that is not rounded past the
  word size, or the release of a block the client holds. The second component lists the
  blocks in hand, the newest first.
\<close>

type_synonym block = "uintptr \<times> size_t"

inductive pool_step :: "mem_pool \<times> block list \<Rightarrow> mem_pool \<times> block list \<Rightarrow> bool" where
  alloc: "0 < unat sz \<Longrightarrow> unat sz \<le> 4294967288 \<Longrightarrow> mem_pool_alloc mp sz = (p, mp') \<Longrightarrow> p \<noteq> 0
    \<Longrightarrow> pool_step (mp, live) (mp', (p, sz) # live)"
| no_room: "0 < unat sz \<Longrightarrow> unat sz \<le> 4294967288 \<Longrightarrow> mem_pool_alloc mp sz = (0, mp')
    \<Longrightarrow> pool_step (mp, live) (mp', live)"
| free: "(p, sz) \<in> set live
    \<Longrightarrow> pool_step (mp, live) (mem_pool_free mp p, filter (\<lambda>b. fst b \<noteq> p) live)"

inductive_cases pool_stepE: "pool_step (mp, live) s"

inductive pool_reach :: "uintptr \<Rightarrow> size_t \<Rightarrow> mem_pool \<times> block list \<Rightarrow> bool"
  for b :: uintptr and n :: size_t where
  start: "pool_reach b n (mem_pool_init mp b n, [])"
| step: "pool_reach b n s \<Longrightarrow> pool_step s t \<Longrightarrow> pool_reach b n t"

definition below :: "block \<Rightarrow> block \<Rightarrow> bool" where
  "below hi lo \<longleftrightarrow> unat (fst lo) + unat (snd lo) \<le> unat (fst hi)"

definition held_ok :: "mem_pool \<Rightarrow> block list \<Rightarrow> bool" where
  "held_ok mp live \<longleftrightarrow>
     (\<forall>(p, sz) \<in> set live. 0 < unat sz \<and> p \<noteq> 0 \<and> 8 dvd unat p \<and>
        unat (pool_buf mp) \<le> unat p \<and> unat p + unat sz \<le> pool_top mp \<and>
        (last_alloc mp \<noteq> 0 \<longrightarrow> p \<noteq> last_alloc mp \<longrightarrow> unat p + unat sz \<le> unat (last_alloc mp))) \<and>
     sorted_wrt below live"

definition pool_inv :: "uintptr \<Rightarrow> size_t \<Rightarrow> mem_pool \<times> block list \<Rightarrow> bool" where
  "pool_inv b n s \<longleftrightarrow>
     (case s of (mp, live) \<Rightarrow> pool_ok mp \<and> pool_buf mp = b \<and> pool_size mp = n \<and> held_ok mp live)"

lemma pool_inv_alloc:
  assumes inv: "pool_inv b n (mp, live)" and sz: "0 < unat sz" "unat sz \<le> 4294967288"
    and al: "mem_pool_alloc mp sz = (p, mp')" "p \<noteq> 0"
  shows "pool_inv b n (mp', (p, sz) # live)"
proof -
  from inv have ok: "pool_ok mp" by (simp add: pool_inv_def)
  have fit: "round8 (unat sz) \<le> pool_left mp"
    using mem_pool_alloc_refused [OF ok sz(2)] al by fastforce
  obtain mp1 where mp1: "mem_pool_alloc mp sz = (pool_buf mp + free_offset mp, mp1)"
    "pool_buf mp1 = pool_buf mp" "pool_size mp1 = pool_size mp"
    "last_alloc mp1 = pool_buf mp + free_offset mp"
    "unat (free_offset mp1) = unat (free_offset mp) + round8 (unat sz)" "pool_ok mp1"
    by (rule mem_pool_alloc_fits [OF ok sz(2) fit])
  with al have p: "p = pool_buf mp + free_offset mp" and mp': "mp' = mp1" by auto
  have up: "unat p = pool_top mp" unfolding p by (rule pool_top_unat [OF ok])
  have top: "pool_top mp' = unat p + round8 (unat sz)"
    by (simp add: mp' mp1 pool_top_def [of mp1] up) (simp add: pool_top_def)
  have "8 dvd unat p" using ok by (simp add: up pool_top_def pool_ok_def)
  moreover have "unat (pool_buf mp) \<le> unat p" by (simp add: up pool_top_def)
  moreover have "sorted_wrt below ((p, sz) # live)"
    using inv by (auto simp: pool_inv_def held_ok_def below_def up)
  moreover have "unat p + unat sz \<le> pool_top mp'"
    using round8_bounds [of "unat sz"] by (simp add: top)
  moreover have "unat q + unat t \<le> unat p \<and> 0 < unat t \<and> q \<noteq> 0 \<and> 8 dvd unat q \<and>
      unat (pool_buf mp) \<le> unat q" if "(q, t) \<in> set live" for q t
    using inv that by (auto simp: pool_inv_def held_ok_def up)
  moreover have "pool_buf mp' = pool_buf mp" "last_alloc mp' = p" by (simp_all add: mp' mp1 p)
  moreover have "unat p \<le> pool_top mp'" by (simp add: top)
  ultimately have "held_ok mp' ((p, sz) # live)"
    using sz(1) al(2) unfolding held_ok_def by fastforce
  with inv show ?thesis by (simp add: pool_inv_def mp' mp1)
qed

lemma pool_inv_free:
  assumes inv: "pool_inv b n (mp, live)" and held: "(p, sz) \<in> set live"
  shows "pool_inv b n (mem_pool_free mp p, filter (\<lambda>b. fst b \<noteq> p) live)"
proof (cases "last_alloc mp = p")
  case False
  with inv show ?thesis
    by (auto simp: mem_pool_free_other pool_inv_def held_ok_def sorted_wrt_filter)
next
  case True
  from inv held have ok: "pool_ok mp" and p: "p \<noteq> 0"
    by (auto simp: pool_inv_def held_ok_def)
  note free = mem_pool_free_last [OF ok p True]
  have "held_ok (mem_pool_free mp p) (filter (\<lambda>b. fst b \<noteq> p) live)"
    using inv True p by (auto simp: pool_inv_def held_ok_def free sorted_wrt_filter)
  with inv show ?thesis by (simp add: pool_inv_def free)
qed

lemma pool_step_inv: "pool_step s t \<Longrightarrow> pool_inv b n s \<Longrightarrow> pool_inv b n t"
proof (induction rule: pool_step.induct)
  case (alloc sz mp p mp' live)
  then show ?case by (simp add: pool_inv_alloc)
next
  case (no_room sz mp mp' live)
  then have "mp' = mp"
    using pool_top_pos [of mp]
    by (auto simp: mem_pool_alloc_def Let_def pool_inv_def split: if_splits)
  with no_room show ?case by simp
next
  case (free p sz live mp)
  then show ?case by (simp add: pool_inv_free)
qed

lemma pool_reach_inv:
  assumes "pool_reach b n s" and "b \<noteq> 0" "unat b + unat n < 4294967296" "8 dvd unat b"
  shows "pool_inv b n s"
  using assms(1)
proof (induction rule: pool_reach.induct)
  case (start mp)
  show ?case
    using assms pool_ok_init [of b n mp]
    by (simp add: pool_inv_def held_ok_def mem_pool_init_def mem_pool_reset_def)
next
  case (step s t)
  then show ?case by (blast intro: pool_step_inv)
qed

definition block_bytes :: "block \<Rightarrow> nat set" where
  "block_bytes b = {unat (fst b) ..< unat (fst b) + unat (snd b)}"

text \<open>
  C17. Whatever sequence of \<open>mem_pool_alloc\<close> calls, each of 1 to \<open>2 ^ 32 - 8\<close> bytes, and of
  \<open>mem_pool_free\<close> calls for blocks in hand is made on a pool over an 8-byte aligned buffer
  that is not null and ends below \<open>2 ^ 32\<close>, every block a client still holds lies inside the buffer at an 8-byte aligned address, and no
  two held blocks share a byte. (Larger sizes round up to 0: \<open>mem_pool_alloc_rounding_wraps\<close>.)
\<close>

theorem pool_blocks_separate:
  assumes "pool_reach b n (mp, live)"
    and "b \<noteq> 0" "unat b + unat n < 4294967296" "8 dvd unat b"
  shows "(\<forall>k < length live. block_bytes (live ! k) \<subseteq> {unat b ..< unat b + unat n} \<and>
            8 dvd unat (fst (live ! k))) \<and>
         (\<forall>i j. i < j \<longrightarrow> j < length live \<longrightarrow>
            block_bytes (live ! i) \<inter> block_bytes (live ! j) = {})"
proof (intro conjI allI impI)
  from pool_reach_inv [OF assms] have inv: "pool_ok mp" "pool_buf mp = b" "pool_size mp = n"
    and held: "held_ok mp live" by (simp_all add: pool_inv_def)
  have top: "pool_top mp \<le> unat b + unat n"
    using inv by (auto simp: pool_top_def pool_ok_def word_le_nat_alt)
  fix k assume "k < length live"
  then have "live ! k \<in> set live" by simp
  with held inv(2) top show "block_bytes (live ! k) \<subseteq> {unat b ..< unat b + unat n}"
    and "8 dvd unat (fst (live ! k))"
    by (fastforce simp: held_ok_def block_bytes_def)+
next
  from pool_reach_inv [OF assms] have "sorted_wrt below live"
    by (simp add: pool_inv_def held_ok_def)
  fix i j assume "i < j" "j < length live"
  with \<open>sorted_wrt below live\<close> have "below (live ! i) (live ! j)"
    by (rule sorted_wrt_nth_less)
  then show "block_bytes (live ! i) \<inter> block_bytes (live ! j) = {}"
    by (auto simp: below_def block_bytes_def)
qed

definition demo_pool :: "mem_pool \<times> block list" where
  "demo_pool =
     (\<lparr>pool_buf = 0x1000, pool_size = 64, last_alloc = 0x1008, free_offset = 24\<rparr>,
      [(0x1008, 10), (0x1000, 5)])"

lemma demo_pool_reach: "pool_reach 0x1000 64 demo_pool"
proof -
  let ?m0 = "\<lparr>pool_buf = 0, pool_size = 0, last_alloc = 0, free_offset = 0\<rparr> :: mem_pool"
  let ?m1 = "\<lparr>pool_buf = 0x1000, pool_size = 64, last_alloc = 0x1000, free_offset = 8\<rparr> :: mem_pool"
  have "pool_reach 0x1000 64 (mem_pool_init ?m0 0x1000 64, [])"
    by (rule pool_reach.start)
  moreover have "pool_step (mem_pool_init ?m0 0x1000 64, []) (?m1, [(0x1000, 5)])"
    by (rule pool_step.alloc)
      (simp_all add: mem_pool_alloc_def mem_pool_init_def mem_pool_reset_def ALIGN_UP_def ALIGN_MASK_def)
  moreover have "pool_step (?m1, [(0x1000, 5)]) demo_pool"
    unfolding demo_pool_def
    by (rule pool_step.alloc)
      (simp_all add: mem_pool_alloc_def ALIGN_UP_def ALIGN_MASK_def)
  ultimately show ?thesis by (blast intro: pool_reach.step)
qed

theorem pool_blocks_separate_witness:
  "block_bytes (snd demo_pool ! 0) \<inter> block_bytes (snd demo_pool ! 1) = {}"
proof -
  have "pool_reach 0x1000 64 (fst demo_pool, snd demo_pool)"
    by (simp add: demo_pool_reach)
  note sep = conjunct2 [OF pool_blocks_separate [OF this], rule_format, of 0 1]
  show ?thesis by (rule sep) (simp_all add: demo_pool_def)
qed

text \<open>
  A request within eight bytes of the address space is rounded up to zero: the
  allocation then succeeds in any pool, full ones included, without reserving any room.
\<close>

theorem mem_pool_alloc_rounding_wraps:
  assumes "pool_ok mp" "4294967288 < unat sz"
  shows "\<exists>p. p \<noteq> 0 \<and> mem_pool_alloc mp sz = (p, mp\<lparr>last_alloc := p\<rparr>)"
proof -
  have "ALIGN_UP sz (8 :: size_t) = 0"
    using unat_ALIGN_UP_wrap [of 3 sz] assms(2) by simp
  then have "mem_pool_alloc mp sz = (pool_buf mp + free_offset mp,
      mp\<lparr>last_alloc := pool_buf mp + free_offset mp\<rparr>)"
    by (simp add: mem_pool_alloc_def Let_def)
  with pool_top_pos [OF assms(1)] show ?thesis by blast
qed

theorem mem_pool_alloc_rounding_wraps_witness:
  "\<exists>p. p \<noteq> 0 \<and> mem_pool_alloc (fst demo_pool) 0xFFFFFFFF = (p, (fst demo_pool)\<lparr>last_alloc := p\<rparr>)"
  by (rule mem_pool_alloc_rounding_wraps) (simp_all add: demo_pool_def pool_ok_def)

end
