(* ===== verification/Region.thy ===== *)
theory Region
  imports Mem_Pool
begin

text \<open>
  Region devices, \<^verbatim>\<open>src/coreboot/src/commonlib/region.c\<close> and its header: windows onto
  storage that are chained, translated, split into a read and a write side, or backed by
  RAM or by a driver. The operations keep the 32-bit arithmetic of the checks, wrap-around
  included. The second half gives a device its meaning as a partial array of bytes and
  shows that reads and writes implement it.
\<close>

section \<open>Data\<close>

record region =
  r_offset :: size_t
  r_size :: size_t

abbreviation mk_region :: "size_t \<Rightarrow> size_t \<Rightarrow> region" where
  "mk_region off s \<equiv> \<lparr>r_offset = off, r_size = s\<rparr>"

text \<open>
  In \<open>struct region_device\<close> either \<open>root\<close> is NULL and \<open>ops\<close> is set (a root device), or
  \<open>root\<close> points to a root device and \<open>ops\<close> is NULL (what \<open>rdev_chain\<close> builds); the type
  has these two shapes. A root device carries its address, which pointer comparison
  reads. The operation tables carry the fields that \<open>container_of\<close> finds around the
  device: the base of a memory device, the access device and window of a translated one,
  the two sides of an incoherent one. A driver table names its driver, the pool of its
  mmap helper when its \<open>mmap\<close> is \<open>mmap_helper_rdev_mmap\<close>, and whether it has
  \<open>writeat\<close> and \<open>eraseat\<close>.
\<close>

datatype region_device =
    WholeDev root_device
  | ChainedDev root_device region
and root_device =
    RootDev (root_addr: uintptr) (root_ops: rdev_ops) (root_region: region)
and rdev_ops =
    MemOps bool uintptr
  | XlateOps bool region_device region
  | IncoherentOps region_device region_device
  | DriverOps nat "nat option" bool bool

text \<open>
  The state the operations act on: RAM, the pools of the mmap helpers, and the state of
  the hardware behind the drivers. Drivers are parameters of the model.
\<close>

record 'h world =
  ram :: mem
  pools :: "nat \<Rightarrow> mem_pool"
  hw :: 'h

record 'h driver =
  drv_readat :: "nat \<Rightarrow> size_t \<Rightarrow> size_t \<Rightarrow> 'h \<Rightarrow> ssize_t \<times> u8 list"
  drv_writeat :: "nat \<Rightarrow> u8 list \<Rightarrow> size_t \<Rightarrow> size_t \<Rightarrow> 'h \<Rightarrow> ssize_t \<times> 'h"
  drv_eraseat :: "nat \<Rightarrow> size_t \<Rightarrow> size_t \<Rightarrow> 'h \<Rightarrow> ssize_t \<times> 'h"

primrec rdev_root :: "region_device \<Rightarrow> root_device" where
  "rdev_root (WholeDev r) = r"
| "rdev_root (ChainedDev r _) = r"

primrec region_device_region :: "region_device \<Rightarrow> region" where
  "region_device_region (WholeDev r) = root_region r"
| "region_device_region (ChainedDev _ reg) = reg"

definition region_device_sz :: "region_device \<Rightarrow> size_t" where
  "region_device_sz rd = r_size (region_device_region rd)"

definition region_device_offset :: "region_device \<Rightarrow> size_t" where
  "region_device_offset rd = r_offset (region_device_region rd)"

section \<open>Bounds checks\<close>

definition region_end :: "region \<Rightarrow> size_t" where
  "region_end r = r_size r + r_offset r"

definition is_subregion :: "region \<Rightarrow> region \<Rightarrow> bool" where
  "is_subregion p c \<longleftrightarrow>
     (if r_offset c < r_offset p then False
      else if r_size c > r_size p then False
      else if region_end c > region_end p then False
      else True)"

definition normalize_and_ok :: "region \<Rightarrow> region \<Rightarrow> bool \<times> region" where
  "normalize_and_ok outer inner =
     (let inner' = inner\<lparr>r_offset := r_offset inner + r_offset outer\<rparr>
      in (is_subregion outer inner', inner'))"

definition rdev_relative_offset :: "region_device \<Rightarrow> region_device \<Rightarrow> ssize_t" where
  "rdev_relative_offset p c =
     (if root_addr (rdev_root p) \<noteq> root_addr (rdev_root c) then -1
      else if \<not> is_subregion (region_device_region p) (region_device_region c) then -1
      else region_device_offset c - region_device_offset p)"

definition rdev_chain :: "region_device \<Rightarrow> size_t \<Rightarrow> size_t \<Rightarrow> region_device option" where
  "rdev_chain parent off s =
     (case normalize_and_ok (region_device_region parent) (mk_region off s) of (ok, req) \<Rightarrow>
        if \<not> ok then None
        else Some (ChainedDev (rdev_root parent) (mk_region (r_offset req) (r_size req))))"

section \<open>Construction of root devices\<close>

definition region_device_init :: "uintptr \<Rightarrow> rdev_ops \<Rightarrow> size_t \<Rightarrow> size_t \<Rightarrow> root_device" where
  "region_device_init addr ops off s = RootDev addr ops (mk_region off s)"

definition mem_region_device_init :: "uintptr \<Rightarrow> bool \<Rightarrow> uintptr \<Rightarrow> size_t \<Rightarrow> root_device" where
  "mem_region_device_init addr rw base s = RootDev addr (MemOps rw base) (mk_region 0 s)"

definition mem_region_device_ro_init :: "uintptr \<Rightarrow> uintptr \<Rightarrow> size_t \<Rightarrow> root_device" where
  "mem_region_device_ro_init addr base s = mem_region_device_init addr False base s"

definition mem_region_device_rw_init :: "uintptr \<Rightarrow> uintptr \<Rightarrow> size_t \<Rightarrow> root_device" where
  "mem_region_device_rw_init addr base s = mem_region_device_init addr True base s"

definition xlate_region_device_init ::
  "uintptr \<Rightarrow> bool \<Rightarrow> region_device \<Rightarrow> size_t \<Rightarrow> size_t \<Rightarrow> size_t \<Rightarrow> root_device" where
  "xlate_region_device_init addr rw access_dev sub_offset sub_size parent_size =
     region_device_init addr (XlateOps rw access_dev (mk_region sub_offset sub_size)) 0 parent_size"

definition xlate_region_device_ro_init ::
  "uintptr \<Rightarrow> region_device \<Rightarrow> size_t \<Rightarrow> size_t \<Rightarrow> size_t \<Rightarrow> root_device" where
  "xlate_region_device_ro_init addr access_dev sub_offset sub_size parent_size =
     xlate_region_device_init addr False access_dev sub_offset sub_size parent_size"

definition xlate_region_device_rw_init ::
  "uintptr \<Rightarrow> region_device \<Rightarrow> size_t \<Rightarrow> size_t \<Rightarrow> size_t \<Rightarrow> root_device" where
  "xlate_region_device_rw_init addr access_dev sub_offset sub_size parent_size =
     xlate_region_device_init addr True access_dev sub_offset sub_size parent_size"

definition incoherent_rdev_init ::
  "uintptr \<Rightarrow> region \<Rightarrow> region_device \<Rightarrow> region_device \<Rightarrow> root_device option" where
  "incoherent_rdev_init addr r rd wr =
     (let s = r_size r
      in if s \<noteq> region_device_sz rd \<or> s \<noteq> region_device_sz wr then None
         else Some (region_device_init addr (IncoherentOps rd wr) 0 s))"

definition mmap_helper_device_init :: "nat \<Rightarrow> uintptr \<Rightarrow> size_t \<Rightarrow> 'h world \<Rightarrow> 'h world" where
  "mmap_helper_device_init pid cache cache_size w =
     w\<lparr>pools := (pools w)(pid := mem_pool_init (pools w pid) cache cache_size)\<rparr>"

section \<open>Operations of the tables\<close>

definition mdev_mmap :: "uintptr \<Rightarrow> size_t \<Rightarrow> size_t \<Rightarrow> uintptr" where
  "mdev_mmap base off s = base + off"

definition mdev_munmap :: "uintptr \<Rightarrow> uintptr \<Rightarrow> int" where
  "mdev_munmap base mapping = 0"

definition mdev_readat :: "uintptr \<Rightarrow> size_t \<Rightarrow> size_t \<Rightarrow> 'h world \<Rightarrow> ssize_t \<times> u8 list" where
  "mdev_readat base off s w = (s, mem_read (ram w) (base + off) (unat s))"

definition mdev_writeat ::
  "uintptr \<Rightarrow> u8 list \<Rightarrow> size_t \<Rightarrow> size_t \<Rightarrow> 'h world \<Rightarrow> ssize_t \<times> 'h world" where
  "mdev_writeat base b off s w =
     (s, w\<lparr>ram := mem_write (ram w) (base + off) (take (unat s) b)\<rparr>)"

definition mdev_eraseat :: "uintptr \<Rightarrow> size_t \<Rightarrow> size_t \<Rightarrow> 'h world \<Rightarrow> ssize_t \<times> 'h world" where
  "mdev_eraseat base off s w = (s, w\<lparr>ram := mem_set (ram w) (base + off) 0 (unat s)\<rparr>)"

text \<open>
  The helper maps by allocating from its pool and reading into the allocation; the bytes
  the driver delivered are in RAM even when the read is refused and the block returned.
\<close>

definition mmap_helper_rdev_mmap ::
  "'h driver \<Rightarrow> nat \<Rightarrow> nat \<Rightarrow> size_t \<Rightarrow> size_t \<Rightarrow> 'h world \<Rightarrow> uintptr \<times> 'h world" where
  "mmap_helper_rdev_mmap D d pid off s w =
     (case mem_pool_alloc (pools w pid) s of (mapping, pool) \<Rightarrow>
        let w1 = w\<lparr>pools := (pools w)(pid := pool)\<rparr>
        in if mapping = 0 then (0, w1)
           else case drv_readat D d off s (hw w1) of (r, bs) \<Rightarrow>
             let w2 = w1\<lparr>ram := mem_write (ram w1) mapping bs\<rparr>
             in if r \<noteq> s
                then (0, w2\<lparr>pools := (pools w2)(pid := mem_pool_free (pools w2 pid) mapping)\<rparr>)
                else (mapping, w2))"

definition mmap_helper_rdev_munmap :: "nat \<Rightarrow> uintptr \<Rightarrow> 'h world \<Rightarrow> int \<times> 'h world" where
  "mmap_helper_rdev_munmap pid mapping w =
     (0, w\<lparr>pools := (pools w)(pid := mem_pool_free (pools w pid) mapping)\<rparr>)"

lemma size_root_ops [termination_simp]: "size (root_ops (rdev_root rd)) < size rd"
proof (cases rd)
  case (WholeDev r)
  then show ?thesis by (cases r) simp
next
  case (ChainedDev r reg)
  then show ?thesis by (cases r) simp
qed

section \<open>Reading\<close>

function rdev_readat ::
    "'h driver \<Rightarrow> 'h world \<Rightarrow> region_device \<Rightarrow> size_t \<Rightarrow> size_t \<Rightarrow> ssize_t \<times> u8 list"
  and ops_readat ::
    "'h driver \<Rightarrow> 'h world \<Rightarrow> rdev_ops \<Rightarrow> size_t \<Rightarrow> size_t \<Rightarrow> ssize_t \<times> u8 list"
  and xlate_readat ::
    "'h driver \<Rightarrow> 'h world \<Rightarrow> region_device \<Rightarrow> region \<Rightarrow> size_t \<Rightarrow> size_t \<Rightarrow> ssize_t \<times> u8 list"
  and incoherent_readat ::
    "'h driver \<Rightarrow> 'h world \<Rightarrow> region_device \<Rightarrow> size_t \<Rightarrow> size_t \<Rightarrow> ssize_t \<times> u8 list" where
  "rdev_readat D w rd off s =
     (case normalize_and_ok (region_device_region rd) (mk_region off s) of (ok, req) \<Rightarrow>
        if \<not> ok then (-1, [])
        else ops_readat D w (root_ops (rdev_root rd)) (r_offset req) (r_size req))"
| "ops_readat D w (MemOps rw base) off s = mdev_readat base off s w"
| "ops_readat D w (XlateOps rw access_dev sub_region) off s =
     xlate_readat D w access_dev sub_region off s"
| "ops_readat D w (IncoherentOps rd wr) off s = incoherent_readat D w rd off s"
| "ops_readat D w (DriverOps d pid wr er) off s = drv_readat D d off s (hw w)"
| "xlate_readat D w access_dev sub_region off s =
     (if \<not> is_subregion sub_region (mk_region off s) then (-1, [])
      else rdev_readat D w access_dev (off - r_offset sub_region) s)"
| "incoherent_readat D w rd off s = rdev_readat D w rd off s"
  by pat_completeness auto
termination
  by (relation "measure (\<lambda>x. case x of
        Inl (Inl (D, w, rd, _)) \<Rightarrow> 2 * size rd
      | Inl (Inr (D, w, ops, _)) \<Rightarrow> 2 * size ops
      | Inr (Inl (D, w, rd, _)) \<Rightarrow> 2 * size rd + 1
      | Inr (Inr (D, w, rd, _)) \<Rightarrow> 2 * size rd + 1)")
    (simp_all add: size_root_ops)

section \<open>Writing and erasing\<close>

function rdev_writeat ::
    "'h driver \<Rightarrow> region_device \<Rightarrow> u8 list \<Rightarrow> size_t \<Rightarrow> size_t \<Rightarrow> 'h world \<Rightarrow> ssize_t \<times> 'h world"
  and ops_writeat ::
    "'h driver \<Rightarrow> rdev_ops \<Rightarrow> u8 list \<Rightarrow> size_t \<Rightarrow> size_t \<Rightarrow> 'h world \<Rightarrow> ssize_t \<times> 'h world"
  and xlate_writeat ::
    "'h driver \<Rightarrow> region_device \<Rightarrow> region \<Rightarrow> u8 list \<Rightarrow> size_t \<Rightarrow> size_t \<Rightarrow> 'h world
       \<Rightarrow> ssize_t \<times> 'h world"
  and incoherent_writeat ::
    "'h driver \<Rightarrow> region_device \<Rightarrow> u8 list \<Rightarrow> size_t \<Rightarrow> size_t \<Rightarrow> 'h world \<Rightarrow> ssize_t \<times> 'h world"
where
  "rdev_writeat D rd b off s w =
     (case normalize_and_ok (region_device_region rd) (mk_region off s) of (ok, req) \<Rightarrow>
        if \<not> ok then (-1, w)
        else ops_writeat D (root_ops (rdev_root rd)) b (r_offset req) (r_size req) w)"
| "ops_writeat D (MemOps rw base) b off s w =
     (if rw then mdev_writeat base b off s w else (-1, w))"
| "ops_writeat D (XlateOps rw access_dev sub_region) b off s w =
     (if rw then xlate_writeat D access_dev sub_region b off s w else (-1, w))"
| "ops_writeat D (IncoherentOps rd wr) b off s w = incoherent_writeat D wr b off s w"
| "ops_writeat D (DriverOps d pid wr er) b off s w =
     (if wr then (case drv_writeat D d b off s (hw w) of (r, h) \<Rightarrow> (r, w\<lparr>hw := h\<rparr>)) else (-1, w))"
| "xlate_writeat D access_dev sub_region b off s w =
     (if \<not> is_subregion sub_region (mk_region off s) then (-1, w)
      else rdev_writeat D access_dev b (off - r_offset sub_region) s w)"
| "incoherent_writeat D wr b off s w = rdev_writeat D wr b off s w"
  by pat_completeness auto
termination
  by (relation "measure (\<lambda>x. case x of
        Inl (Inl (D, rd, _)) \<Rightarrow> 2 * size rd
      | Inl (Inr (D, ops, _)) \<Rightarrow> 2 * size ops
      | Inr (Inl (D, rd, _)) \<Rightarrow> 2 * size rd + 1
      | Inr (Inr (D, rd, _)) \<Rightarrow> 2 * size rd + 1)")
    (simp_all add: size_root_ops)

text \<open>
  A table without \<open>eraseat\<close> reports success and does nothing: the caller's \<open>size\<close> is
  the result. Only \<open>rdev_eraseat\<close> makes this choice, so the operation on tables takes
  the caller's size as the value to report.
\<close>

function rdev_eraseat ::
    "'h driver \<Rightarrow> region_device \<Rightarrow> size_t \<Rightarrow> size_t \<Rightarrow> 'h world \<Rightarrow> ssize_t \<times> 'h world"
  and ops_eraseat ::
    "'h driver \<Rightarrow> rdev_ops \<Rightarrow> size_t \<Rightarrow> size_t \<Rightarrow> size_t \<Rightarrow> 'h world \<Rightarrow> ssize_t \<times> 'h world"
  and xlate_eraseat ::
    "'h driver \<Rightarrow> region_device \<Rightarrow> region \<Rightarrow> size_t \<Rightarrow> size_t \<Rightarrow> 'h world \<Rightarrow> ssize_t \<times> 'h world"
  and incoherent_eraseat ::
    "'h driver \<Rightarrow> region_device \<Rightarrow> size_t \<Rightarrow> size_t \<Rightarrow> 'h world \<Rightarrow> ssize_t \<times> 'h world" where
  "rdev_eraseat D rd off s w =
     (case normalize_and_ok (region_device_region rd) (mk_region off s) of (ok, req) \<Rightarrow>
        if \<not> ok then (-1, w)
        else ops_eraseat D (root_ops (rdev_root rd)) s (r_offset req) (r_size req) w)"
| "ops_eraseat D (MemOps rw base) dflt off s w =
     (if rw then mdev_eraseat base off s w else (dflt, w))"
| "ops_eraseat D (XlateOps rw access_dev sub_region) dflt off s w =
     (if rw then xlate_eraseat D access_dev sub_region off s w else (dflt, w))"
| "ops_eraseat D (IncoherentOps rd wr) dflt off s w = incoherent_eraseat D wr off s w"
| "ops_eraseat D (DriverOps d pid wr er) dflt off s w =
     (if er then (case drv_eraseat D d off s (hw w) of (r, h) \<Rightarrow> (r, w\<lparr>hw := h\<rparr>)) else (dflt, w))"
| "xlate_eraseat D access_dev sub_region off s w =
     (if \<not> is_subregion sub_region (mk_region off s) then (-1, w)
      else rdev_eraseat D access_dev (off - r_offset sub_region) s w)"
| "incoherent_eraseat D wr off s w = rdev_eraseat D wr off s w"
  by pat_completeness auto
termination
  by (relation "measure (\<lambda>x. case x of
        Inl (Inl (D, rd, _)) \<Rightarrow> 2 * size rd
      | Inl (Inr (D, ops, _)) \<Rightarrow> 2 * size ops
      | Inr (Inl (D, rd, _)) \<Rightarrow> 2 * size rd + 1
      | Inr (Inr (D, rd, _)) \<Rightarrow> 2 * size rd + 1)")
    (simp_all add: size_root_ops)

section \<open>Mapping\<close>

function rdev_mmap ::
    "'h driver \<Rightarrow> region_device \<Rightarrow> size_t \<Rightarrow> size_t \<Rightarrow> 'h world \<Rightarrow> uintptr \<times> 'h world"
  and ops_mmap ::
    "'h driver \<Rightarrow> rdev_ops \<Rightarrow> size_t \<Rightarrow> size_t \<Rightarrow> 'h world \<Rightarrow> uintptr \<times> 'h world"
  and xlate_mmap ::
    "'h driver \<Rightarrow> region_device \<Rightarrow> region \<Rightarrow> size_t \<Rightarrow> size_t \<Rightarrow> 'h world \<Rightarrow> uintptr \<times> 'h world"
  and incoherent_mmap ::
    "'h driver \<Rightarrow> region_device \<Rightarrow> size_t \<Rightarrow> size_t \<Rightarrow> 'h world \<Rightarrow> uintptr \<times> 'h world" where
  "rdev_mmap D rd off s w =
     (case normalize_and_ok (region_device_region rd) (mk_region off s) of (ok, req) \<Rightarrow>
        if \<not> ok then (0, w)
        else ops_mmap D (root_ops (rdev_root rd)) (r_offset req) (r_size req) w)"
| "ops_mmap D (MemOps rw base) off s w = (mdev_mmap base off s, w)"
| "ops_mmap D (XlateOps rw access_dev sub_region) off s w =
     xlate_mmap D access_dev sub_region off s w"
| "ops_mmap D (IncoherentOps rd wr) off s w = incoherent_mmap D rd off s w"
| "ops_mmap D (DriverOps d pid wr er) off s w =
     (case pid of None \<Rightarrow> (0, w) | Some p \<Rightarrow> mmap_helper_rdev_mmap D d p off s w)"
| "xlate_mmap D access_dev sub_region off s w =
     (if \<not> is_subregion sub_region (mk_region off s) then (0, w)
      else rdev_mmap D access_dev (off - r_offset sub_region) s w)"
| "incoherent_mmap D rd off s w = rdev_mmap D rd off s w"
  by pat_completeness auto
termination
  by (relation "measure (\<lambda>x. case x of
        Inl (Inl (D, rd, _)) \<Rightarrow> 2 * size rd
      | Inl (Inr (D, ops, _)) \<Rightarrow> 2 * size ops
      | Inr (Inl (D, rd, _)) \<Rightarrow> 2 * size rd + 1
      | Inr (Inr (D, rd, _)) \<Rightarrow> 2 * size rd + 1)")
    (simp_all add: size_root_ops)

definition rdev_mmap_full ::
  "'h driver \<Rightarrow> region_device \<Rightarrow> 'h world \<Rightarrow> uintptr \<times> 'h world" where
  "rdev_mmap_full D rd w = rdev_mmap D rd 0 (region_device_sz rd) w"

function rdev_munmap :: "region_device \<Rightarrow> uintptr \<Rightarrow> 'h world \<Rightarrow> int \<times> 'h world"
  and ops_munmap :: "rdev_ops \<Rightarrow> uintptr \<Rightarrow> 'h world \<Rightarrow> int \<times> 'h world"
  and xlate_munmap :: "region_device \<Rightarrow> uintptr \<Rightarrow> 'h world \<Rightarrow> int \<times> 'h world"
  and incoherent_munmap :: "region_device \<Rightarrow> uintptr \<Rightarrow> 'h world \<Rightarrow> int \<times> 'h world" where
  "rdev_munmap rd mapping w = ops_munmap (root_ops (rdev_root rd)) mapping w"
| "ops_munmap (MemOps rw base) mapping w = (mdev_munmap base mapping, w)"
| "ops_munmap (XlateOps rw access_dev sub_region) mapping w = xlate_munmap access_dev mapping w"
| "ops_munmap (IncoherentOps rd wr) mapping w = incoherent_munmap rd mapping w"
| "ops_munmap (DriverOps d pid wr er) mapping w =
     (case pid of None \<Rightarrow> (-1, w) | Some p \<Rightarrow> mmap_helper_rdev_munmap p mapping w)"
| "xlate_munmap access_dev mapping w = rdev_munmap access_dev mapping w"
| "incoherent_munmap rd mapping w = rdev_munmap rd mapping w"
  by pat_completeness auto
termination
  by (relation "measure (\<lambda>x. case x of
        Inl (Inl (rd, _)) \<Rightarrow> 2 * size rd
      | Inl (Inr (ops, _)) \<Rightarrow> 2 * size ops
      | Inr (Inl (rd, _)) \<Rightarrow> 2 * size rd + 1
      | Inr (Inr (rd, _)) \<Rightarrow> 2 * size rd + 1)")
    (simp_all add: size_root_ops)

section \<open>Where a device's bytes live\<close>

text \<open>
  The abstract specification: a device is a partial map from positions to locations,
  which are RAM addresses or positions of a driver's medium. \<open>rloc\<close> is the map reads
  follow, \<open>wloc\<close> the one writes follow.
\<close>

datatype loc = RamLoc uintptr | DrvLoc nat "nat option" nat

function rloc :: "region_device \<Rightarrow> nat \<Rightarrow> loc option"
  and ops_rloc :: "rdev_ops \<Rightarrow> nat \<Rightarrow> loc option" where
  "rloc rd i =
     (if i < unat (region_device_sz rd)
      then ops_rloc (root_ops (rdev_root rd)) (unat (region_device_offset rd) + i) else None)"
| "ops_rloc (MemOps rw base) i = Some (RamLoc (base + word_of_nat i))"
| "ops_rloc (XlateOps rw acc sub) i =
     (if unat (r_offset sub) \<le> i \<and> i < unat (r_offset sub) + unat (r_size sub)
      then rloc acc (i - unat (r_offset sub)) else None)"
| "ops_rloc (IncoherentOps rd wr) i = rloc rd i"
| "ops_rloc (DriverOps d pid wr er) i = Some (DrvLoc d pid i)"
  by pat_completeness auto
termination
  by (relation "measure (\<lambda>x. case x of Inl (rd, _) \<Rightarrow> size rd | Inr (ops, _) \<Rightarrow> size ops)")
    (simp_all add: size_root_ops)

function wloc :: "region_device \<Rightarrow> nat \<Rightarrow> loc option"
  and ops_wloc :: "rdev_ops \<Rightarrow> nat \<Rightarrow> loc option" where
  "wloc rd i =
     (if i < unat (region_device_sz rd)
      then ops_wloc (root_ops (rdev_root rd)) (unat (region_device_offset rd) + i) else None)"
| "ops_wloc (MemOps rw base) i = (if rw then Some (RamLoc (base + word_of_nat i)) else None)"
| "ops_wloc (XlateOps rw acc sub) i =
     (if unat (r_offset sub) \<le> i \<and> i < unat (r_offset sub) + unat (r_size sub)
      then (if rw then wloc acc (i - unat (r_offset sub)) else None) else None)"
| "ops_wloc (IncoherentOps rd wr) i = wloc wr i"
| "ops_wloc (DriverOps d pid wr er) i = (if wr then Some (DrvLoc d pid i) else None)"
  by pat_completeness auto
termination
  by (relation "measure (\<lambda>x. case x of Inl (rd, _) \<Rightarrow> size rd | Inr (ops, _) \<Rightarrow> size ops)")
    (simp_all add: size_root_ops)

definition range_loc :: "(nat \<Rightarrow> loc option) \<Rightarrow> nat \<Rightarrow> nat \<Rightarrow> loc option" where
  "range_loc f pos n = (if \<forall>k < n. f (pos + k) \<noteq> None then f pos else None)"

text \<open>What a request for \<open>n\<close> bytes at a location delivers.\<close>

definition deliver :: "'h driver \<Rightarrow> 'h world \<Rightarrow> size_t \<Rightarrow> loc option \<Rightarrow> ssize_t \<times> u8 list" where
  "deliver D w s l =
     (case l of None \<Rightarrow> (-1, [])
      | Some (RamLoc a) \<Rightarrow> (s, mem_read (ram w) a (unat s))
      | Some (DrvLoc d pid i) \<Rightarrow> drv_readat D d (word_of_nat i) s (hw w))"

definition store :: "'h driver \<Rightarrow> u8 list \<Rightarrow> size_t \<Rightarrow> 'h world \<Rightarrow> loc option \<Rightarrow> ssize_t \<times> 'h world" where
  "store D b s w l =
     (case l of None \<Rightarrow> (-1, w)
      | Some (RamLoc a) \<Rightarrow> (s, w\<lparr>ram := mem_write (ram w) a (take (unat s) b)\<rparr>)
      | Some (DrvLoc d pid i) \<Rightarrow>
          (case drv_writeat D d b (word_of_nat i) s (hw w) of (r, h) \<Rightarrow> (r, w\<lparr>hw := h\<rparr>)))"

text \<open>Regions and devices that the constructors and \<open>rdev_chain\<close> build.\<close>

definition region_ok :: "region \<Rightarrow> bool" where
  "region_ok r \<longleftrightarrow> unat (r_offset r) + unat (r_size r) < 4294967296"

definition inside :: "region \<Rightarrow> region \<Rightarrow> bool" where
  "inside p c \<longleftrightarrow> unat (r_offset p) \<le> unat (r_offset c) \<and>
     unat (r_offset c) + unat (r_size c) \<le> unat (r_offset p) + unat (r_size p)"

function dev_wf :: "region_device \<Rightarrow> bool" and ops_wf :: "rdev_ops \<Rightarrow> region \<Rightarrow> bool" where
  "dev_wf rd \<longleftrightarrow>
     (let r = rdev_root rd
      in region_ok (root_region r) \<and> inside (root_region r) (region_device_region rd) \<and>
         ops_wf (root_ops r) (root_region r))"
| "ops_wf (MemOps rw base) reg \<longleftrightarrow> True"
| "ops_wf (XlateOps rw acc sub) reg \<longleftrightarrow>
     dev_wf acc \<and> region_ok sub \<and> unat (r_size sub) \<le> unat (region_device_sz acc)"
| "ops_wf (IncoherentOps rd wr) reg \<longleftrightarrow>
     dev_wf rd \<and> dev_wf wr \<and> r_offset reg = 0 \<and>
     r_size reg = region_device_sz rd \<and> r_size reg = region_device_sz wr"
| "ops_wf (DriverOps d pid wr er) reg \<longleftrightarrow> True"
  by pat_completeness auto
termination
  by (relation "measure (\<lambda>x. case x of Inl rd \<Rightarrow> size rd | Inr (ops, _) \<Rightarrow> size ops)")
    (simp_all add: size_root_ops)

declare dev_wf.simps [simp del] rloc.simps [simp del] wloc.simps [simp del]

subsection \<open>The checks decide containment when nothing wraps\<close>

lemma unat_region_end: "region_ok r \<Longrightarrow> unat (region_end r) = unat (r_offset r) + unat (r_size r)"
  using unat_plus_no_wrap [of "r_size r" "r_offset r"]
  by (simp add: region_ok_def region_end_def)

lemma is_subregion_inside:
  assumes "region_ok p" "region_ok c"
  shows "is_subregion p c \<longleftrightarrow> inside p c"
  using assms
  by (auto simp: is_subregion_def inside_def word_less_nat_alt unat_region_end)

lemma normalize_and_ok_eq:
  assumes ok: "region_ok outer"
    and fit: "unat (r_offset outer) + unat off + unat s < 4294967296"
  shows "normalize_and_ok outer (mk_region off s) =
    (unat off + unat s \<le> unat (r_size outer), mk_region (off + r_offset outer) s)"
proof -
  have o: "unat (off + r_offset outer) = unat off + unat (r_offset outer)"
    using fit by (intro unat_plus_no_wrap) simp
  have "region_ok (mk_region (off + r_offset outer) s)"
    using fit by (simp add: region_ok_def o)
  from is_subregion_inside [OF ok this] show ?thesis
    by (auto simp: normalize_and_ok_def Let_def inside_def o)
qed

lemma range_loc_cong:
  assumes "\<And>k. k < n \<Longrightarrow> f (pos + k) = g (q + k)" "0 < n"
  shows "range_loc f pos n = range_loc g q n"
proof -
  have "f pos = g q" using assms(1) [of 0] assms(2) by simp
  moreover have "(\<forall>k < n. f (pos + k) \<noteq> None) = (\<forall>k < n. g (q + k) \<noteq> None)"
    using assms(1) by metis
  ultimately show ?thesis unfolding range_loc_def by (simp only:)
qed

lemma range_loc_None: "k < n \<Longrightarrow> f (pos + k) = None \<Longrightarrow> range_loc f pos n = None"
  unfolding range_loc_def by metis

lemma range_loc_window:
  assumes "0 < n"
  shows "range_loc (\<lambda>i. if a \<le> i \<and> i < b then f (i - a) else None) pos n =
    (if a \<le> pos \<and> pos + n \<le> b then range_loc f (pos - a) n else None)"
proof (cases "a \<le> pos \<and> pos + n \<le> b")
  case True
  have "range_loc (\<lambda>i. if a \<le> i \<and> i < b then f (i - a) else None) pos n = range_loc f (pos - a) n"
    by (rule range_loc_cong) (use True assms in auto)
  with True show ?thesis by simp
next
  case False
  then have "\<not> (a \<le> pos + 0 \<and> pos + 0 < b) \<or> \<not> (a \<le> pos + (n - 1) \<and> pos + (n - 1) < b)"
    using assms by linarith
  moreover have "0 < n" "n - 1 < n" using assms by simp_all
  ultimately obtain k where "k < n" "\<not> (a \<le> pos + k \<and> pos + k < b)" by blast
  then have "range_loc (\<lambda>i. if a \<le> i \<and> i < b then f (i - a) else None) pos n = None"
    by (intro range_loc_None [of k]) auto
  with False show ?thesis by auto
qed

lemma range_loc_empty [simp]: "0 < n \<Longrightarrow> range_loc (\<lambda>i. None) pos n = None"
  by (simp add: range_loc_None [of 0])

lemma dev_wf_region:
  assumes "dev_wf rd"
  shows "region_ok (region_device_region rd)"
    and "unat (r_offset (root_region (rdev_root rd))) \<le> unat (region_device_offset rd)"
    and "unat (region_device_offset rd) + unat (region_device_sz rd) \<le>
      unat (r_offset (root_region (rdev_root rd))) + unat (r_size (root_region (rdev_root rd)))"
    and "ops_wf (root_ops (rdev_root rd)) (root_region (rdev_root rd))"
  using assms
  by (auto simp: dev_wf.simps [of rd] Let_def region_ok_def inside_def
      region_device_offset_def region_device_sz_def)

lemma wf_request:
  assumes wf: "dev_wf rd" and pos: "0 < unat s"
    and fit: "unat (region_device_offset rd) + unat off + unat s < 4294967296"
  obtains "unat off + unat s \<le> unat (region_device_sz rd)"
    and "normalize_and_ok (region_device_region rd) (mk_region off s) =
      (True, mk_region (off + region_device_offset rd) s)"
    and "unat (off + region_device_offset rd) = unat (region_device_offset rd) + unat off"
    and "unat (r_offset (root_region (rdev_root rd))) \<le> unat (off + region_device_offset rd)"
    and "unat (off + region_device_offset rd) + unat s \<le>
      unat (r_offset (root_region (rdev_root rd))) + unat (r_size (root_region (rdev_root rd)))"
  | "unat (region_device_sz rd) < unat off + unat s"
    and "fst (normalize_and_ok (region_device_region rd) (mk_region off s)) = False"
proof -
  note n = normalize_and_ok_eq [OF dev_wf_region(1) [OF wf], of off s]
  have o: "unat (off + region_device_offset rd) = unat (region_device_offset rd) + unat off"
    using fit unat_plus_no_wrap [of off "region_device_offset rd"] by simp
  from n fit o dev_wf_region(2,3) [OF wf] that show ?thesis
    by (cases "unat off + unat s \<le> unat (region_device_sz rd)")
      (auto simp: region_device_offset_def region_device_sz_def)
qed

subsection \<open>One contract for every routed operation\<close>

text \<open>
  Reading, writing and mapping share their shape: check the bounds, go to the root's
  table, and there act, translate or choose a side. The locale states that shape once;
  its theorem says that such an operation acts on the location of the whole range, or
  refuses.
\<close>

locale routed_access =
  fixes access :: "region_device \<Rightarrow> size_t \<Rightarrow> size_t \<Rightarrow> 'r"
    and ops_access :: "rdev_ops \<Rightarrow> size_t \<Rightarrow> size_t \<Rightarrow> 'r"
    and locate :: "region_device \<Rightarrow> nat \<Rightarrow> loc option"
    and ops_locate :: "rdev_ops \<Rightarrow> nat \<Rightarrow> loc option"
    and act :: "size_t \<Rightarrow> loc option \<Rightarrow> 'r"
    and permit :: "bool \<Rightarrow> bool"
    and side :: "region_device \<Rightarrow> region_device \<Rightarrow> region_device"
  assumes access_eq: "access rd off s =
      (case normalize_and_ok (region_device_region rd) (mk_region off s) of (ok, req) \<Rightarrow>
         if \<not> ok then act s None
         else ops_access (root_ops (rdev_root rd)) (r_offset req) (r_size req))"
    and locate_eq: "locate rd i =
      (if i < unat (region_device_sz rd)
       then ops_locate (root_ops (rdev_root rd)) (unat (region_device_offset rd) + i) else None)"
    and mem_access: "ops_access (MemOps rw base) off s = act s (ops_locate (MemOps rw base) (unat off))"
    and mem_uniform: "ops_locate (MemOps rw base) i = None \<Longrightarrow> ops_locate (MemOps rw base) j = None"
    and drv_access: "ops_access (DriverOps d pid cw ce) off s =
      act s (ops_locate (DriverOps d pid cw ce) (unat off))"
    and drv_uniform: "ops_locate (DriverOps d pid cw ce) i = None \<Longrightarrow>
      ops_locate (DriverOps d pid cw ce) j = None"
    and xlate_access: "ops_access (XlateOps rw acc sub) off s =
      (if permit rw \<and> is_subregion sub (mk_region off s) then access acc (off - r_offset sub) s
       else act s None)"
    and xlate_locate: "ops_locate (XlateOps rw acc sub) i =
      (if unat (r_offset sub) \<le> i \<and> i < unat (r_offset sub) + unat (r_size sub)
       then (if permit rw then locate acc (i - unat (r_offset sub)) else None) else None)"
    and incoh_access: "ops_access (IncoherentOps rd wr) off s = access (side rd wr) off s"
    and incoh_locate: "ops_locate (IncoherentOps rd wr) i = locate (side rd wr) i"
    and side_cases: "side rd wr = rd \<or> side rd wr = wr"
begin

lemma range_uniform:
  assumes "\<And>i j. f i = None \<Longrightarrow> f j = None" "0 < n"
  shows "range_loc f pos n = f pos"
proof (cases "f pos = None")
  case True
  with range_loc_None [of 0 n f pos] assms(2) show ?thesis by simp
next
  case False
  have "f (pos + k) \<noteq> None" for k
    using False assms(1) [of "pos + k" pos] by argo
  then have "\<forall>k < n. f (pos + k) \<noteq> None" by blast
  then show ?thesis unfolding range_loc_def by (rule if_P)
qed

lemma range_locate:
  assumes "0 < n"
  shows "range_loc (locate rd) pos n =
    (if pos + n \<le> unat (region_device_sz rd)
     then range_loc (ops_locate (root_ops (rdev_root rd))) (unat (region_device_offset rd) + pos) n
     else None)"
proof -
  let ?g = "ops_locate (root_ops (rdev_root rd))" and ?c = "unat (region_device_offset rd)"
    and ?m = "unat (region_device_sz rd)"
  have "locate rd = (\<lambda>i. if 0 \<le> i \<and> i < ?m then ?g (?c + (i - 0)) else None)"
    by (rule ext) (simp add: locate_eq)
  then have "range_loc (locate rd) pos n =
      (if 0 \<le> pos \<and> pos + n \<le> ?m then range_loc (\<lambda>i. ?g (?c + i)) (pos - 0) n else None)"
    by (simp only: range_loc_window [OF assms, of 0 ?m "\<lambda>i. ?g (?c + i)" pos])
  also have "range_loc (\<lambda>i. ?g (?c + i)) (pos - 0) n = range_loc ?g (?c + pos) n"
    by (rule range_loc_cong) (simp_all add: assms add.assoc)
  finally show ?thesis by simp
qed

lemma range_xlate:
  assumes "0 < n"
  shows "range_loc (ops_locate (XlateOps rw acc sub)) pos n =
    (if permit rw \<and> unat (r_offset sub) \<le> pos \<and> pos + n \<le> unat (r_offset sub) + unat (r_size sub)
     then range_loc (locate acc) (pos - unat (r_offset sub)) n else None)"
proof -
  have "ops_locate (XlateOps rw acc sub) =
      (\<lambda>i. if unat (r_offset sub) \<le> i \<and> i < unat (r_offset sub) + unat (r_size sub)
           then (if permit rw then locate acc (i - unat (r_offset sub)) else None) else None)"
    by (rule ext) (rule xlate_locate)
  moreover have "range_loc (\<lambda>i. if permit rw then locate acc i else None) q n =
      (if permit rw then range_loc (locate acc) q n else None)" for q
    using assms by (auto simp: range_loc_None [of 0])
  ultimately show ?thesis
    using range_loc_window [OF assms, of _ _ "\<lambda>i. if permit rw then locate acc i else None"] assms
    by simp
qed

lemma access_table:
  assumes IH: "\<And>rd' off'. size rd' < size ops \<Longrightarrow> dev_wf rd' \<Longrightarrow>
      unat (region_device_offset rd') + unat off' + unat s < 4294967296 \<Longrightarrow>
      access rd' off' s = act s (range_loc (locate rd') (unat off') (unat s))"
    and wf: "ops_wf ops reg" "region_ok reg" and pos: "0 < unat s"
    and lo: "unat (r_offset reg) \<le> unat off"
    and hi: "unat off + unat s \<le> unat (r_offset reg) + unat (r_size reg)"
  shows "ops_access ops off s = act s (range_loc (ops_locate ops) (unat off) (unat s))"
proof (cases ops)
  case (MemOps rw base)
  then show ?thesis using range_uniform [OF mem_uniform pos] by (simp add: mem_access)
next
  case (DriverOps d pid cw ce)
  then show ?thesis using range_uniform [OF drv_uniform pos] by (simp add: drv_access)
next
  case (IncoherentOps rd wr)
  let ?d = "side rd wr"
  from side_cases [of rd wr] have d: "size ?d < size ops" "dev_wf ?d" "region_device_sz ?d = r_size reg"
    using wf IncoherentOps by auto
  have "unat (region_device_offset ?d) + unat (region_device_sz ?d) < 4294967296"
    using dev_wf_region(1) [OF d(2)]
    by (simp add: region_ok_def region_device_offset_def region_device_sz_def)
  with hi wf d(3) IncoherentOps have "unat (region_device_offset ?d) + unat off + unat s < 4294967296"
    by auto
  from IH [OF d(1,2) this] IncoherentOps show ?thesis
    by (simp add: incoh_access incoh_locate [abs_def])
next
  case (XlateOps rw acc sub)
  have sub: "is_subregion sub (mk_region off s) \<longleftrightarrow> inside sub (mk_region off s)"
    using wf XlateOps hi by (intro is_subregion_inside) (auto simp: region_ok_def)
  show ?thesis
  proof (cases "permit rw \<and> inside sub (mk_region off s)")
    case True
    then have o: "unat (off - r_offset sub) = unat off - unat (r_offset sub)"
      by (auto simp: inside_def unat_minus_no_wrap word_le_nat_alt)
    have acc: "size acc < size ops" "dev_wf acc" "unat (r_size sub) \<le> unat (region_device_sz acc)"
      using wf XlateOps by auto
    then have "unat (region_device_offset acc) + unat (r_size sub) < 4294967296"
      using dev_wf_region(1) [of acc]
      by (simp add: region_ok_def region_device_offset_def region_device_sz_def)
    with True o have "unat (region_device_offset acc) + unat (off - r_offset sub) + unat s < 4294967296"
      by (auto simp: inside_def)
    from IH [OF acc(1,2) this] True o sub show ?thesis
      by (auto simp: XlateOps xlate_access range_xlate [OF pos] inside_def)
  next
    case False
    with sub show ?thesis
      by (auto simp: XlateOps xlate_access range_xlate [OF pos] inside_def)
  qed
qed

theorem access_at:
  assumes "dev_wf rd" and pos: "0 < unat s"
    and "unat (region_device_offset rd) + unat off + unat s < 4294967296"
  shows "access rd off s = act s (range_loc (locate rd) (unat off) (unat s))"
  using assms(1,3)
proof (induction "size rd" arbitrary: rd off rule: less_induct)
  case less
  from less.prems(1) pos less.prems(2) show ?case
  proof (cases rule: wf_request)
    case 1
    have "ops_access (root_ops (rdev_root rd)) (off + region_device_offset rd) s =
        act s (range_loc (ops_locate (root_ops (rdev_root rd)))
          (unat (off + region_device_offset rd)) (unat s))"
    proof (rule access_table [OF _ dev_wf_region(4) [OF less.prems(1)] _ pos 1(4,5)])
      show "region_ok (root_region (rdev_root rd))"
        using less.prems(1) by (simp add: dev_wf.simps [of rd] Let_def)
      fix rd' :: region_device and off' :: size_t
      assume "size rd' < size (root_ops (rdev_root rd))"
      then have "size rd' < size rd" using size_root_ops [of rd] by simp
      then show "dev_wf rd' \<Longrightarrow> unat (region_device_offset rd') + unat off' + unat s < 4294967296 \<Longrightarrow>
          access rd' off' s = act s (range_loc (locate rd') (unat off') (unat s))"
        by (rule less.hyps)
    qed
    with 1 show ?thesis by (simp add: access_eq range_locate [OF pos])
  next
    case 2
    then show ?thesis by (auto simp: access_eq range_locate [OF pos] split: prod.split)
  qed
qed

end

subsection \<open>Reads, writes and mappings are routed accesses\<close>

definition map_at :: "'h driver \<Rightarrow> 'h world \<Rightarrow> size_t \<Rightarrow> loc option \<Rightarrow> uintptr \<times> 'h world" where
  "map_at D w s l =
     (case l of None \<Rightarrow> (0, w)
      | Some (RamLoc a) \<Rightarrow> (a, w)
      | Some (DrvLoc d pid i) \<Rightarrow>
          (case pid of None \<Rightarrow> (0, w) | Some p \<Rightarrow> mmap_helper_rdev_mmap D d p (word_of_nat i) s w))"

lemma deliver_simps [simp]:
  "deliver D w s None = (-1, [])"
  "deliver D w s (Some (RamLoc a)) = (s, mem_read (ram w) a (unat s))"
  "deliver D w s (Some (DrvLoc d pid i)) = drv_readat D d (word_of_nat i) s (hw w)"
  by (simp_all add: deliver_def)

lemma store_simps [simp]:
  "store D b s w None = (-1, w)"
  "store D b s w (Some (RamLoc a)) = (s, w\<lparr>ram := mem_write (ram w) a (take (unat s) b)\<rparr>)"
  by (simp_all add: store_def)

lemma map_at_simps [simp]:
  "map_at D w s None = (0, w)"
  "map_at D w s (Some (RamLoc a)) = (a, w)"
  by (simp_all add: map_at_def)

interpretation reads: routed_access "rdev_readat D w" "ops_readat D w" rloc ops_rloc
    "deliver D w" "\<lambda>rw. True" "\<lambda>rd wr. rd"
  for D :: "'h driver" and w :: "'h world"
proof unfold_locales
  fix rd i
  show "rloc rd i = (if i < unat (region_device_sz rd)
      then ops_rloc (root_ops (rdev_root rd)) (unat (region_device_offset rd) + i) else None)"
    by (rule rloc.simps)
qed (auto simp: mdev_readat_def split: prod.split)

interpretation writes: routed_access "\<lambda>rd off s. rdev_writeat D rd b off s w"
    "\<lambda>ops off s. ops_writeat D ops b off s w" wloc ops_wloc "\<lambda>s. store D b s w" "\<lambda>rw. rw" "\<lambda>rd wr. wr"
  for D :: "'h driver" and b :: "u8 list" and w :: "'h world"
proof unfold_locales
  fix rd i
  show "wloc rd i = (if i < unat (region_device_sz rd)
      then ops_wloc (root_ops (rdev_root rd)) (unat (region_device_offset rd) + i) else None)"
    by (rule wloc.simps)
qed (auto simp: mdev_writeat_def store_def split: prod.split if_splits)

interpretation maps: routed_access "\<lambda>rd off s. rdev_mmap D rd off s w"
    "\<lambda>ops off s. ops_mmap D ops off s w" rloc ops_rloc "map_at D w" "\<lambda>rw. True" "\<lambda>rd wr. rd"
  for D :: "'h driver" and w :: "'h world"
proof unfold_locales
  fix rd i
  show "rloc rd i = (if i < unat (region_device_sz rd)
      then ops_rloc (root_ops (rdev_root rd)) (unat (region_device_offset rd) + i) else None)"
    by (rule rloc.simps)
qed (auto simp: mdev_mmap_def map_at_def split: prod.split option.split)

declare rdev_readat.simps [simp del] rdev_writeat.simps [simp del] rdev_eraseat.simps [simp del]
  rdev_mmap.simps [simp del] rdev_munmap.simps [simp del]

section \<open>Properties\<close>

text \<open>
  \<open>is_subregion\<close> accepts exactly the child regions that lie inside the parent and,
  beside them, every region that starts above the parent's start, is no larger than the
  parent, and whose end wraps around the 32-bit word.
\<close>

theorem is_subregion_exact:
  assumes "region_ok p"
  shows "is_subregion p c \<longleftrightarrow>
    inside p c \<or>
    (4294967296 \<le> unat (r_offset c) + unat (r_size c) \<and>
     unat (r_offset p) \<le> unat (r_offset c) \<and> unat (r_size c) \<le> unat (r_size p))"
proof (cases "region_ok c")
  case True
  with is_subregion_inside [OF assms True] show ?thesis by (simp add: region_ok_def)
next
  case False
  then have e: "unat (region_end c) = unat (r_offset c) + unat (r_size c) - 4294967296"
    using unat_plus_wrap [of "r_size c" "r_offset c"] by (simp add: region_ok_def region_end_def)
  have "unat (region_end c) < unat (r_size c)"
    using unat_lt_2p32 [of "r_offset c"] False unfolding e region_ok_def by linarith
  with False assms show ?thesis
    by (auto simp: is_subregion_def inside_def word_less_nat_alt unat_region_end region_ok_def)
qed

theorem is_subregion_exact_witness:
  "is_subregion (mk_region 0x100 0x100) (mk_region 0xFFFFFFF8 0x10) \<and>
   \<not> is_subregion (mk_region 0x100 0x100) (mk_region 0x1F8 0x10)"
  using is_subregion_exact [of "mk_region 0x100 0x100" "mk_region 0xFFFFFFF8 0x10"]
    is_subregion_exact [of "mk_region 0x100 0x100" "mk_region 0x1F8 0x10"]
  by (simp add: region_ok_def inside_def)

text \<open>
  C3. A read of at least one byte through any well-formed device, however chained, translated
  or split, whose end does not wrap (the device's own offset, the offset and the size sum to
  less than \<open>2 ^ 32\<close>), is refused unless every requested byte has a location, and otherwise
  delivers the bytes at those locations: RAM bytes directly, and a driver's bytes through one
  driver read of the same length. (A request that wraps may pass the bounds check, see below.)
\<close>

theorem rdev_readat_locations:
  fixes D :: "'h driver"
  assumes "dev_wf rd" "0 < unat s"
    and "unat (region_device_offset rd) + unat off + unat s < 4294967296"
  shows "rdev_readat D w rd off s = deliver D w s (range_loc (rloc rd) (unat off) (unat s))"
  using assms by (rule reads.access_at)

text \<open>A translated window of 16 bytes at 0x40 of a 256-byte space, onto RAM at 0x2000.\<close>

definition demo_access :: region_device where
  "demo_access = WholeDev (mem_region_device_rw_init 0x100 0x2000 16)"

definition demo_xlate :: region_device where
  "demo_xlate = WholeDev (xlate_region_device_rw_init 0x200 demo_access 0x40 16 256)"

definition demo_driver :: "unit driver" where
  "demo_driver = \<lparr>drv_readat = \<lambda>_ _ _ _. (-1, []), drv_writeat = \<lambda>_ _ _ _ _. (-1, ()),
     drv_eraseat = \<lambda>_ _ _ _. (-1, ())\<rparr>"

definition demo_world :: "unit world" where
  "demo_world = \<lparr>ram = (\<lambda>a. ucast a),
     pools = (\<lambda>_. \<lparr>pool_buf = 0, pool_size = 0, last_alloc = 0, free_offset = 0\<rparr>), hw = ()\<rparr>"

lemmas demo_dev_simps = demo_access_def demo_xlate_def mem_region_device_rw_init_def
  mem_region_device_init_def xlate_region_device_rw_init_def xlate_region_device_init_def
  region_device_init_def region_device_sz_def region_device_offset_def

lemma demo_xlate_wf: "dev_wf demo_xlate"
  by (simp add: demo_dev_simps dev_wf.simps region_ok_def inside_def Let_def)

lemma mem_read_3: "mem_read m a 3 = [m a, m (a + 1), m (a + 1 + 1)]"
  by (simp add: numeral_3_eq_3)

lemma demo_xlate_offset: "region_device_offset demo_xlate = 0"
  by (simp add: demo_dev_simps)

theorem rdev_readat_locations_witness:
  "rdev_readat demo_driver demo_world demo_xlate 0x42 3 = (3, [2, 3, 4]) \<and>
   rdev_readat demo_driver demo_world demo_xlate 0x4E 3 = (-1, [])"
proof
  have r: "range_loc (rloc demo_xlate) 0x42 3 = Some (RamLoc 0x2002)"
    by (simp add: range_loc_def rloc.simps demo_dev_simps)
  show "rdev_readat demo_driver demo_world demo_xlate 0x42 3 = (3, [2, 3, 4])"
    using rdev_readat_locations [OF demo_xlate_wf, where s = 3 and off = "0x42"
        and D = demo_driver and w = demo_world] r
    by (simp add: demo_xlate_offset demo_world_def mem_read_3)
  have "rloc demo_xlate (0x4E + 2) = None"
    by (simp add: rloc.simps demo_dev_simps)
  then have "range_loc (rloc demo_xlate) 0x4E 3 = None"
    by (intro range_loc_None [of 2]) simp_all
  then show "rdev_readat demo_driver demo_world demo_xlate 0x4E 3 = (-1, [])"
    using rdev_readat_locations [OF demo_xlate_wf, where s = 3 and off = "0x4E"
        and D = demo_driver and w = demo_world]
    by (simp add: demo_xlate_offset)
qed

text \<open>
  C7. On a well-formed device whose reads and writes of a range go to the same RAM, writing a
  nonempty buffer to the range, whose end does not wrap, and reading the range back returns the
  buffer, and the write changes no other byte of RAM, no pool and no hardware state. (Nothing
  is claimed of ranges with different or driver-backed locations.)
\<close>

theorem rdev_write_read_back:
  fixes D :: "'h driver"
  assumes wf: "dev_wf rd" and s: "0 < unat s" "length b = unat s"
    and fit: "unat (region_device_offset rd) + unat off + unat s < 4294967296"
    and wl: "range_loc (wloc rd) (unat off) (unat s) = Some (RamLoc a)"
    and rl: "range_loc (rloc rd) (unat off) (unat s) = Some (RamLoc a)"
  shows "\<exists>w'. rdev_writeat D rd b off s w = (s, w') \<and> rdev_readat D w' rd off s = (s, b) \<and>
    (\<forall>x. unat s \<le> unat (x - a) \<longrightarrow> ram w' x = ram w x) \<and> pools w' = pools w \<and> hw w' = hw w"
proof -
  let ?w' = "w\<lparr>ram := mem_write (ram w) a b\<rparr>"
  have len: "length b \<le> 4294967296" using s(2) unat_lt_2p32 [of s] by linarith
  have "rdev_writeat D rd b off s w = (s, ?w')"
    using writes.access_at [OF wf s(1) fit, of D b w] wl s(2) by simp
  moreover have "rdev_readat D ?w' rd off s = (s, b)"
    using reads.access_at [OF wf s(1) fit, of D ?w'] rl mem_read_write_same [OF len, of "ram w" a]
    by (simp add: s(2))
  ultimately show ?thesis using len s(2) by (auto simp: mem_write_apply)
qed

theorem rdev_write_read_back_witness:
  "\<exists>w'. rdev_writeat demo_driver demo_xlate [7, 8] 0x44 2 demo_world = (2, w') \<and>
     rdev_readat demo_driver w' demo_xlate 0x44 2 = (2, [7, 8])"
proof -
  have l: "range_loc (wloc demo_xlate) 0x44 2 = Some (RamLoc 0x2004)"
    "range_loc (rloc demo_xlate) 0x44 2 = Some (RamLoc 0x2004)"
    by (simp_all add: range_loc_def rloc.simps wloc.simps demo_dev_simps)
  from rdev_write_read_back [OF demo_xlate_wf, where s = 2 and b = "[7, 8]" and off = "0x44" and a = "0x2004"
      and D = demo_driver and w = demo_world] l
  show ?thesis by (auto simp: demo_xlate_offset)
qed

lemma dev_wf_chained:
  assumes "dev_wf p" "inside (region_device_region p) reg"
  shows "dev_wf (ChainedDev (rdev_root p) reg)"
  using assms by (auto simp: dev_wf.simps [of p] dev_wf.simps [of "ChainedDev _ _"] inside_def Let_def)

lemma rdev_chain_eq:
  assumes wf: "dev_wf p"
    and fit: "unat (region_device_offset p) + unat off + unat s < 4294967296"
  shows "rdev_chain p off s =
    (if unat off + unat s \<le> unat (region_device_sz p)
     then Some (ChainedDev (rdev_root p) (mk_region (off + region_device_offset p) s)) else None)"
  using normalize_and_ok_eq [OF dev_wf_region(1) [OF wf], of off s] fit
  by (simp add: rdev_chain_def region_device_offset_def region_device_sz_def)

lemma rdev_chain_child:
  assumes wf: "dev_wf p"
    and fit: "unat (region_device_offset p) + unat off + unat s < 4294967296"
    and c: "rdev_chain p off s = Some c"
  shows "unat off + unat s \<le> unat (region_device_sz p)" "dev_wf c" "region_device_sz c = s"
    and "region_device_offset c = off + region_device_offset p"
    and "unat (region_device_offset c) = unat off + unat (region_device_offset p)"
    and "i < unat s \<Longrightarrow> rloc c i = rloc p (unat off + i)"
    and "i < unat s \<Longrightarrow> wloc c i = wloc p (unat off + i)"
    and "rdev_root c = rdev_root p"
proof -
  have u: "unat (off + region_device_offset p) = unat off + unat (region_device_offset p)"
    using fit by (intro unat_plus_no_wrap) simp
  from c show le: "unat off + unat s \<le> unat (region_device_sz p)"
    by (simp add: rdev_chain_eq [OF wf fit] split: if_splits)
  with c have ceq: "c = ChainedDev (rdev_root p) (mk_region (off + region_device_offset p) s)"
    by (simp add: rdev_chain_eq [OF wf fit])
  show "region_device_sz c = s" "region_device_offset c = off + region_device_offset p"
    and "unat (region_device_offset c) = unat off + unat (region_device_offset p)"
    and "rdev_root c = rdev_root p"
    by (simp_all add: ceq region_device_sz_def region_device_offset_def u [unfolded region_device_offset_def])
  show "dev_wf c"
    unfolding ceq using le u
    by (intro dev_wf_chained [OF wf])
      (simp add: inside_def region_device_sz_def region_device_offset_def)
  assume "i < unat s"
  with le u show "rloc c i = rloc p (unat off + i)" "wloc c i = wloc p (unat off + i)"
    by (simp_all add: rloc.simps wloc.simps ceq region_device_sz_def region_device_offset_def ac_simps)
qed

text \<open>
  Chaining succeeds exactly when the window fits into the parent. The child is again
  well-formed, its byte \<open>i\<close> is read and written where the parent's byte \<open>off + i\<close> is,
  and \<open>rdev_relative_offset\<close> recovers the offset it was made with.
\<close>

theorem rdev_chain_window:
  assumes "dev_wf p" "unat (region_device_offset p) + unat off + unat s < 4294967296"
  shows "case rdev_chain p off s of
      None \<Rightarrow> unat (region_device_sz p) < unat off + unat s
    | Some c \<Rightarrow> unat off + unat s \<le> unat (region_device_sz p) \<and> dev_wf c \<and> region_device_sz c = s \<and>
        (\<forall>i < unat s. rloc c i = rloc p (unat off + i) \<and> wloc c i = wloc p (unat off + i)) \<and>
        rdev_relative_offset p c = off"
proof (cases "rdev_chain p off s")
  case None
  then show ?thesis by (simp add: rdev_chain_eq [OF assms] split: if_splits)
next
  case (Some c)
  note child = rdev_chain_child [OF assms Some]
  have "is_subregion (region_device_region p) (region_device_region c)"
    using child(1,3,5) is_subregion_inside
      [OF dev_wf_region(1) [OF assms(1)] dev_wf_region(1) [OF child(2)]]
    by (simp add: inside_def region_device_sz_def region_device_offset_def)
  then have "rdev_relative_offset p c = off"
    by (simp add: rdev_relative_offset_def child(4,8))
  with Some child show ?thesis by simp
qed

theorem rdev_chain_window_witness:
  "\<exists>c. rdev_chain demo_xlate 0x40 8 = Some c \<and> rdev_relative_offset demo_xlate c = 0x40"
proof -
  have "rdev_chain demo_xlate 0x40 8 \<noteq> None"
    by (simp add: rdev_chain_def normalize_and_ok_def is_subregion_def region_end_def demo_dev_simps)
  then obtain c where "rdev_chain demo_xlate 0x40 8 = Some c" by blast
  with rdev_chain_window [OF demo_xlate_wf, where off = "0x40" and s = 8] show ?thesis
    by (simp add: demo_xlate_offset)
qed

text \<open>
  C21. A read request whose end wraps to zero passes the bounds check: on a memory device as
  \<open>mem_region_device_ro_init\<close> makes it, whole and of \<open>n\<close> bytes, a read of \<open>s \<le> n\<close> bytes at
  offset \<open>-s\<close> succeeds and returns the \<open>s\<close> bytes in front of the device's base.
\<close>

theorem rdev_readat_before_base:
  assumes "0 < unat s" "s \<le> n"
  shows "rdev_readat D w (WholeDev (mem_region_device_ro_init addr base n)) (- s) s =
    (s, mem_read (ram w) (base - s) (unat s))"
  using leD [OF assms(2)]
  by (simp add: rdev_readat.simps mem_region_device_ro_init_def mem_region_device_init_def
      normalize_and_ok_def is_subregion_def region_end_def mdev_readat_def Let_def)

theorem rdev_readat_before_base_witness:
  "fst (rdev_readat demo_driver demo_world
     (WholeDev (mem_region_device_ro_init 0x300 0x20000 256)) (- 16) 16) = 16"
  using rdev_readat_before_base [where s = 16 and n = 256 and D = demo_driver and w = demo_world
      and addr = "0x300" and base = "0x20000"]
  by simp

text \<open>
  C22. Mapping through the mmap helper and unmapping again: the mapping holds the bytes the
  driver delivered, and afterwards the helper's pool is as before except that it has
  forgotten its latest allocation.
\<close>

theorem mmap_helper_map_unmap:
  fixes D :: "'h driver"
  assumes "drv_readat D d off s (hw w) = (s, bs)" "length bs = unat s"
    and "mmap_helper_rdev_mmap D d pid off s w = (p, w1)" "p \<noteq> 0"
  shows "mem_read (ram w1) p (unat s) = bs \<and>
    pools (snd (mmap_helper_rdev_munmap pid p w1)) = (pools w)(pid := (pools w pid)\<lparr>last_alloc := 0\<rparr>)"
proof -
  obtain q pool where al: "mem_pool_alloc (pools w pid) s = (q, pool)" by fastforce
  with assms have p: "q = p"
    and w1: "w1 = w\<lparr>pools := (pools w)(pid := pool), ram := mem_write (ram w) p bs\<rparr>"
    by (auto simp: mmap_helper_rdev_mmap_def Let_def split: if_splits)
  have "length bs \<le> 4294967296" using assms(2) unat_lt_2p32 [of s] by linarith
  from mem_read_write_same [OF this] mem_pool_free_alloc [OF al] assms(2,4) p show ?thesis
    by (simp add: w1 mmap_helper_rdev_munmap_def)
qed

definition demo_flash :: "unit driver" where
  "demo_flash = demo_driver\<lparr>drv_readat := \<lambda>_ off s _. (s, replicate (unat s) 0xFF)\<rparr>"

theorem mmap_helper_map_unmap_witness:
  "mem_read (ram (snd (mmap_helper_rdev_mmap demo_flash 0 0 0 2
      (mmap_helper_device_init 0 0x8000 64 demo_world)))) 0x8000 2 = [0xFF, 0xFF]"
proof -
  let ?w = "mmap_helper_device_init 0 0x8000 64 demo_world"
  let ?m = "mmap_helper_rdev_mmap demo_flash 0 0 0 2 ?w"
  have "fst ?m = 0x8000"
    by (simp add: mmap_helper_rdev_mmap_def mmap_helper_device_init_def demo_world_def demo_flash_def
        mem_pool_init_def mem_pool_reset_def mem_pool_alloc_def ALIGN_UP_def ALIGN_MASK_def Let_def)
  then have m: "?m = (0x8000, snd ?m)" by (metis prod.collapse)
  have "replicate 2 x = [x, x]" for x :: u8 by (simp add: numeral_2_eq_2)
  then have d: "drv_readat demo_flash 0 0 2 (hw ?w) = (2, [0xFF, 0xFF])"
    by (simp add: demo_flash_def)
  from mmap_helper_map_unmap [OF d _ m] show ?thesis by simp
qed

end
