(* ===== verification/Resource.thy ===== *)
theory Resource
  imports Prelude
begin

text \<open>
  Resources of devices, \<^verbatim>\<open>src/coreboot/src/device/device_util.c\<close>: the records a device
  keeps for its address ranges, the lookup and creation of a record by index, the bounds
  arithmetic of the allocator, and the walk over the resources of all devices. A linked
  list of records is a list; the walk takes the callback as a function on the caller's
  state.
\<close>

definition IORESOURCE_IO :: u32 where "IORESOURCE_IO = 0x100"
definition IORESOURCE_MEM :: u32 where "IORESOURCE_MEM = 0x200"
definition IORESOURCE_CACHEABLE :: u32 where "IORESOURCE_CACHEABLE = 0x4000"
definition IORESOURCE_SUBTRACTIVE :: u32 where "IORESOURCE_SUBTRACTIVE = 0x40000"
definition IORESOURCE_RESERVE :: u32 where "IORESOURCE_RESERVE = 0x10000000"
definition IORESOURCE_FIXED :: u32 where "IORESOURCE_FIXED = 0x80000000"

record resource =
  res_base :: resource_t
  res_size :: resource_t
  res_limit :: resource_t
  res_flags :: u32
  res_index :: u32
  res_align :: nat
  res_gran :: nat

record device =
  dev_enabled :: bool
  resource_list :: "resource list"

text \<open>
  \<open>compact_resources\<close> unlinks the records without flags; they go to the free list, whose
  contents are never read before \<open>memset\<close> clears them.
\<close>

fun compact_resources :: "resource list \<Rightarrow> resource list" where
  "compact_resources [] = []"
| "compact_resources (res # next) =
     (if res_flags res = 0 then compact_resources next else res # compact_resources next)"

fun probe_resource :: "resource list \<Rightarrow> u32 \<Rightarrow> resource option" where
  "probe_resource [] i = None"
| "probe_resource (res # next) i =
     (if res_index res = i then Some res else probe_resource next i)"

definition zero_resource :: resource where
  "zero_resource = \<lparr>res_base = 0, res_size = 0, res_limit = 0, res_flags = 0, res_index = 0,
     res_align = 0, res_gran = 0\<rparr>"

definition init_resource :: "u32 \<Rightarrow> resource \<Rightarrow> resource" where
  "init_resource i r =
     (let r1 = (if res_flags r AND IORESOURCE_FIXED = 0 then r\<lparr>res_flags := 0, res_base := 0\<rparr> else r)
      in r1\<lparr>res_size := 0, res_limit := 0, res_index := i, res_align := 0, res_gran := 0\<rparr>)"

text \<open>The update happens in place, at the first record with the index.\<close>

fun update_first :: "u32 \<Rightarrow> (resource \<Rightarrow> resource) \<Rightarrow> resource list \<Rightarrow> resource list" where
  "update_first i f [] = []"
| "update_first i f (r # rs) = (if res_index r = i then f r # rs else r # update_first i f rs)"

definition new_resource :: "resource list \<Rightarrow> u32 \<Rightarrow> resource \<times> resource list" where
  "new_resource rl i =
     (let rl1 = compact_resources rl
      in case probe_resource rl1 i of
           None \<Rightarrow> let r = init_resource i zero_resource in (r, rl1 @ [r])
         | Some r \<Rightarrow> (init_resource i r, update_first i (init_resource i) rl1))"

text \<open>\<open>find_resource\<close> dies when there is no record: \<open>None\<close>.\<close>

definition find_resource :: "resource list \<Rightarrow> u32 \<Rightarrow> resource option" where
  "find_resource rl i = probe_resource rl i"

definition align_up :: "resource_t \<Rightarrow> nat \<Rightarrow> resource_t" where
  "align_up val gran = (let mask = push_bit gran 1 - 1 in (val + mask) AND NOT mask)"

definition align_down :: "resource_t \<Rightarrow> nat \<Rightarrow> resource_t" where
  "align_down val gran = (let mask = push_bit gran 1 - 1 in val AND NOT mask)"

definition resource_end :: "resource \<Rightarrow> resource_t" where
  "resource_end r = res_base r + align_up (res_size r) (res_gran r) - 1"

definition resource_max :: "resource \<Rightarrow> resource_t" where
  "resource_max r = align_down (res_limit r - res_size r + 1) (res_align r)"

fun search_resource_list ::
  "u32 \<Rightarrow> u32 \<Rightarrow> (device \<Rightarrow> resource \<Rightarrow> 'g \<Rightarrow> 'g) \<Rightarrow> device \<Rightarrow> resource list \<Rightarrow> 'g \<Rightarrow> 'g" where
  "search_resource_list type_mask type f dev [] g = g"
| "search_resource_list type_mask type f dev (res # next) g =
     (if res_flags res AND type_mask \<noteq> type then search_resource_list type_mask type f dev next g
      else if res_flags res AND IORESOURCE_SUBTRACTIVE \<noteq> 0
      then search_resource_list type_mask type f dev next g
      else search_resource_list type_mask type f dev next (f dev res g))"

fun search_global_resources ::
  "device list \<Rightarrow> u32 \<Rightarrow> u32 \<Rightarrow> (device \<Rightarrow> resource \<Rightarrow> 'g \<Rightarrow> 'g) \<Rightarrow> 'g \<Rightarrow> 'g" where
  "search_global_resources [] type_mask type f g = g"
| "search_global_resources (dev # devs) type_mask type f g =
     (if \<not> dev_enabled dev then search_global_resources devs type_mask type f g
      else search_global_resources devs type_mask type f
             (search_resource_list type_mask type f dev (resource_list dev) g))"

section \<open>Lemmas\<close>

lemma compact_resources_filter: "compact_resources rl = filter (\<lambda>r. res_flags r \<noteq> 0) rl"
  by (induction rl) auto

lemma probe_resource_Some: "probe_resource rl i = Some r \<Longrightarrow> r \<in> set rl \<and> res_index r = i"
  by (induction rl) (auto split: if_splits)

lemma probe_resource_None: "probe_resource rl i = None \<longleftrightarrow> (\<forall>r \<in> set rl. res_index r \<noteq> i)"
  by (induction rl) auto

lemma probe_resource_append:
  "probe_resource (xs @ ys) i =
     (case probe_resource xs i of None \<Rightarrow> probe_resource ys i | Some r \<Rightarrow> Some r)"
  by (induction xs) auto

lemma probe_update_first:
  assumes "\<And>r. res_index (f r) = i"
  shows "probe_resource (update_first i f rl) j =
    (if j = i then map_option f (probe_resource rl i) else probe_resource rl j)"
  using assms by (induction rl) auto

lemma init_resource_index [simp]: "res_index (init_resource i r) = i"
  by (simp add: init_resource_def Let_def)

text \<open>The resources a search visits: those of enabled devices that pass both tests.\<close>

definition res_matches :: "u32 \<Rightarrow> u32 \<Rightarrow> resource \<Rightarrow> bool" where
  "res_matches type_mask type r \<longleftrightarrow>
     res_flags r AND type_mask = type \<and> res_flags r AND IORESOURCE_SUBTRACTIVE = 0"

definition matching_resources :: "device list \<Rightarrow> u32 \<Rightarrow> u32 \<Rightarrow> (device \<times> resource) list" where
  "matching_resources devs type_mask type =
     concat (map (\<lambda>d. map (Pair d) (filter (res_matches type_mask type) (resource_list d)))
       (filter dev_enabled devs))"

lemma search_resource_list_fold:
  "search_resource_list m t f d rl g = fold (f d) (filter (res_matches m t) rl) g"
  by (induction rl arbitrary: g) (auto simp: res_matches_def)

lemma search_global_resources_fold:
  "search_global_resources devs m t f g =
     fold (\<lambda>(d, r). f d r) (matching_resources devs m t) g"
proof (induction devs arbitrary: g)
  case Nil
  then show ?case by (simp add: matching_resources_def)
next
  case (Cons d devs)
  have "fold (\<lambda>(d, r). f d r) (map (Pair d) xs) h = fold (f d) xs h" for xs h
    by (induction xs arbitrary: h) auto
  with Cons show ?case by (auto simp: matching_resources_def search_resource_list_fold)
qed

section \<open>Properties\<close>

text \<open>
  After \<open>new_resource\<close> the device has a record for the index, which is the one
  returned and starts empty (only a fixed one keeps its flags and base), every other
  index in use keeps its first record, and no record without flags remains unless it is
  the new one.
\<close>

theorem new_resource_probe:
  "probe_resource (snd (new_resource rl i)) j =
     (if j = i then Some (fst (new_resource rl i))
      else probe_resource (filter (\<lambda>r. res_flags r \<noteq> 0) rl) j) \<and>
   res_index (fst (new_resource rl i)) = i \<and>
   res_size (fst (new_resource rl i)) = 0 \<and> res_limit (fst (new_resource rl i)) = 0 \<and>
   (res_flags (fst (new_resource rl i)) = 0) =
     (res_flags (fst (new_resource rl i)) AND IORESOURCE_FIXED = 0)"
  by (auto simp: new_resource_def Let_def probe_resource_append probe_update_first
      compact_resources_filter init_resource_def zero_resource_def split: option.splits)

end
