(* ===== verification/Allocator.thy ===== *)
theory Allocator
  imports Resource "HOL-Library.Monad_Syntax"
begin

text \<open>
  The resource allocator of \<^verbatim>\<open>src/coreboot/src/device/device.c\<close>, with the search over a bus
  of \<^verbatim>\<open>src/coreboot/src/device/device_util.c\<close>. The tree of devices and buses is a datatype;
  the resource records, which both passes update through pointers, live in a store from
  addresses to records, and a device holds the addresses of its list. \<open>None\<close> stands for the
  dereference of a null pointer (a bridge resource whose link is missing) and for a loop
  that does not end.
\<close>

definition IORESOURCE_IRQ :: u32 where "IORESOURCE_IRQ = 0x400"
definition IORESOURCE_DRQ :: u32 where "IORESOURCE_DRQ = 0x800"
definition IORESOURCE_TYPE_MASK :: u32 where
  "IORESOURCE_TYPE_MASK = IORESOURCE_IO OR IORESOURCE_MEM OR IORESOURCE_IRQ OR IORESOURCE_DRQ"
definition IORESOURCE_PREFETCH :: u32 where "IORESOURCE_PREFETCH = 0x1000"
definition IORESOURCE_BRIDGE :: u32 where "IORESOURCE_BRIDGE = 0x80000"
definition IORESOURCE_STORED :: u32 where "IORESOURCE_STORED = 0x20000000"
definition IORESOURCE_ASSIGNED :: u32 where "IORESOURCE_ASSIGNED = 0x40000000"

definition IOINDEX_SUBTRACTIVE_LINK :: "u32 \<Rightarrow> u32" where
  "IOINDEX_SUBTRACTIVE_LINK idx = idx AND 0xff"

definition IOINDEX_LINK :: "u32 \<Rightarrow> u32" where
  "IOINDEX_LINK idx = drop_bit 16 (idx AND 0xf0000)"

type_synonym store = "nat \<Rightarrow> resource"

text \<open>
  Of a device the allocator reads whether it is enabled, whether its path is a domain, its
  resources and its links; of a bus, its number and the devices behind it.
\<close>

datatype 'd bus = Bus (link_num: u8) (children: "'d list")

datatype dev = Dev (enabled: bool) (is_domain: bool) (resources: "nat list") (link_list: "dev bus list")

definition find_link :: "u32 \<Rightarrow> dev bus list \<Rightarrow> dev bus option" where
  "find_link n links = find (\<lambda>l. ucast (link_num l) = n) links"

lemma find_link_member: "find_link n links = Some l \<Longrightarrow> l \<in> set links"
  by (auto simp: find_link_def find_Some_iff)

text \<open>The number of devices below, which every descent into a link decreases.\<close>

primrec dev_height :: "dev \<Rightarrow> nat" where
  "dev_height (Dev e dm rs links) =
     Suc (sum_list (map (\<lambda>l. sum_list (children l)) (map (map_bus dev_height) links)))"

definition bus_height :: "dev bus \<Rightarrow> nat" where
  "bus_height b = sum_list (map dev_height (children b))"

lemma dev_height_links: "dev_height d = Suc (sum_list (map bus_height (link_list d)))"
  by (cases d) (simp add: bus_height_def [abs_def] bus.map_sel comp_def)

lemma bus_height_less: "l \<in> set (link_list d) \<Longrightarrow> bus_height l < dev_height d"
  unfolding dev_height_links by (auto simp: less_Suc_eq_le intro!: member_le_sum_list)

lemma dev_height_le: "d \<in> set (children b) \<Longrightarrow> dev_height d \<le> bus_height b"
  unfolding bus_height_def by (auto intro!: member_le_sum_list)

section \<open>The search over a bus\<close>

text \<open>
  \<open>search_bus_resources\<close> walks the enabled devices; a subtractive resource stands for the
  resources of the bus behind it, and one whose bus is missing ends the list of its device.
\<close>

function search_bus_resources ::
    "u32 \<Rightarrow> u32 \<Rightarrow> (dev \<Rightarrow> nat \<Rightarrow> 'g \<Rightarrow> 'g) \<Rightarrow> store \<Rightarrow> dev bus \<Rightarrow> 'g \<Rightarrow> 'g"
  and search_devices ::
    "u32 \<Rightarrow> u32 \<Rightarrow> (dev \<Rightarrow> nat \<Rightarrow> 'g \<Rightarrow> 'g) \<Rightarrow> store \<Rightarrow> dev list \<Rightarrow> 'g \<Rightarrow> 'g"
  and search_records ::
    "u32 \<Rightarrow> u32 \<Rightarrow> (dev \<Rightarrow> nat \<Rightarrow> 'g \<Rightarrow> 'g) \<Rightarrow> store \<Rightarrow> dev \<Rightarrow> nat list \<Rightarrow> 'g \<Rightarrow> 'g" where
  "search_bus_resources type_mask type f s b g = search_devices type_mask type f s (children b) g"
| "search_devices type_mask type f s [] g = g"
| "search_devices type_mask type f s (d # ds) g =
     (if \<not> enabled d then search_devices type_mask type f s ds g
      else search_devices type_mask type f s ds
             (search_records type_mask type f s d (resources d) g))"
| "search_records type_mask type f s d [] g = g"
| "search_records type_mask type f s d (r # rs) g =
     (if res_flags (s r) AND type_mask \<noteq> type then search_records type_mask type f s d rs g
      else if res_flags (s r) AND IORESOURCE_SUBTRACTIVE \<noteq> 0
      then (case find_link (IOINDEX_SUBTRACTIVE_LINK (res_index (s r))) (link_list d) of
              None \<Rightarrow> g
            | Some l \<Rightarrow> search_records type_mask type f s d rs
                (search_bus_resources type_mask type f s l g))
      else search_records type_mask type f s d rs (f d r g))"
  by pat_completeness auto

termination
proof (relation "inv_image (less_than <*lex*> less_than <*lex*> less_than) (\<lambda>x. case x of
    Inl (m, t, f, s, b, g) \<Rightarrow> (bus_height b, 2, 0)
  | Inr (Inl (m, t, f, s, ds, g)) \<Rightarrow> (sum_list (map dev_height ds), 1, length ds)
  | Inr (Inr (m, t, f, s, d, rs, g)) \<Rightarrow> (dev_height d, 0, length rs))", goal_cases)
  case 1
  show ?case by (rule wf_inv_image) (intro wf_lex_prod wf_less_than)
next
  case (7 m t f s d r rs g l)
  then show ?case using bus_height_less find_link_member by fastforce
qed (auto simp: bus_height_def)

section \<open>The largest resource\<close>

text \<open>\<open>result\<close> and \<open>result_dev\<close> are always set together.\<close>

record pick_largest_state =
  pl_last :: "nat option"
  pl_result :: "(dev \<times> nat) option"
  seen_last :: bool

definition pick_largest_resource :: "store \<Rightarrow> dev \<Rightarrow> nat \<Rightarrow> pick_largest_state \<Rightarrow> pick_largest_state" where
  "pick_largest_resource s d r st =
     (if Some r = pl_last st then st\<lparr>seen_last := True\<rparr>
      else if res_flags (s r) AND IORESOURCE_FIXED \<noteq> 0 then st
      else if (case pl_last st of None \<Rightarrow> False | Some l \<Rightarrow>
          res_align (s l) < res_align (s r) \<or>
          (res_align (s l) = res_align (s r) \<and> res_size (s l) < res_size (s r)) \<or>
          (res_align (s l) = res_align (s r) \<and> res_size (s l) = res_size (s r) \<and> \<not> seen_last st)) then st
      else if (case pl_result st of None \<Rightarrow> True | Some (_, q) \<Rightarrow>
          res_align (s q) < res_align (s r) \<or>
          (res_align (s q) = res_align (s r) \<and> res_size (s q) < res_size (s r)))
        then st\<lparr>pl_result := Some (d, r)\<rparr>
      else st)"

definition largest_resource ::
    "dev bus \<Rightarrow> nat option \<Rightarrow> u32 \<Rightarrow> u32 \<Rightarrow> store \<Rightarrow> (dev \<times> nat) option" where
  "largest_resource b result_res type_mask type s =
     pl_result (search_bus_resources type_mask type (pick_largest_resource s) s b
       \<lparr>pl_last = result_res, pl_result = None, seen_last = False\<rparr>)"

section \<open>The first pass\<close>

definition round_pow :: "resource_t \<Rightarrow> nat \<Rightarrow> resource_t" where
  "round_pow val pw = (let mask = push_bit pw 1 - 1 in (val + mask) AND NOT mask)"

text \<open>Both passes keep port ranges out of the aliases of the legacy cards and out of the VGA range.\<close>

definition io_avoid :: "resource \<Rightarrow> resource_t \<Rightarrow> resource_t" where
  "io_avoid r base =
     (if res_flags r AND IORESOURCE_IO \<noteq> 0 then
        if base AND 0x300 \<noteq> 0 then (base AND NOT 0x3ff) + 0x400
        else if 0x3b0 \<le> base \<and> base \<le> 0x3df then 0x3e0
        else base
      else base)"

definition compute_place :: "nat \<Rightarrow> nat \<Rightarrow> resource_t \<times> store \<Rightarrow> resource_t \<times> store" where
  "compute_place bridge r = (\<lambda>(base, s).
     if res_size (s r) = 0 then (base, s)
     else let s = (if res_align (s r) > res_align (s bridge)
                   then s(bridge := (s bridge)\<lparr>res_align := res_align (s r)\<rparr>) else s);
              s = (if res_limit (s bridge) > res_limit (s r)
                   then s(bridge := (s bridge)\<lparr>res_limit := res_limit (s r)\<rparr>) else s);
              base = round_pow (io_avoid (s r) base) (res_align (s r))
          in (base + res_size (s r), s(r := (s r)\<lparr>res_base := base\<rparr>)))"

text \<open>Both passes run through the resources of the bus with \<open>largest_resource\<close>.\<close>

partial_function (option) largest_loop ::
    "(nat \<Rightarrow> resource_t \<times> store \<Rightarrow> resource_t \<times> store) \<Rightarrow> dev bus \<Rightarrow> u32 \<Rightarrow> u32 \<Rightarrow> nat option \<Rightarrow>
     resource_t \<times> store \<Rightarrow> (resource_t \<times> store) option" where
  "largest_loop place b type_mask type res bs =
     (case largest_resource b res type_mask type (snd bs) of
        None \<Rightarrow> Some bs
      | Some (_, r) \<Rightarrow> largest_loop place b type_mask type (Some r) (place r bs))"

declare largest_loop.simps [code]

function compute_resources :: "dev bus \<Rightarrow> nat \<Rightarrow> u32 \<Rightarrow> u32 \<Rightarrow> store \<Rightarrow> store option"
  and compute_devices :: "dev list \<Rightarrow> u32 \<Rightarrow> u32 \<Rightarrow> store \<Rightarrow> store option"
  and compute_bridges :: "dev \<Rightarrow> nat list \<Rightarrow> u32 \<Rightarrow> u32 \<Rightarrow> store \<Rightarrow> store option" where
  "compute_resources b bridge type_mask type s =
     (let base = round_pow (res_base (s bridge)) (res_align (s bridge))
      in do {
        s \<leftarrow> compute_devices (children b) type_mask type s;
        (base, s) \<leftarrow> largest_loop (compute_place bridge) b type_mask type None (base, s);
        Some (s(bridge := (s bridge)\<lparr>res_size :=
          round_pow base (res_gran (s bridge)) - round_pow (res_base (s bridge)) (res_align (s bridge))\<rparr>))
      })"
| "compute_devices [] type_mask type s = Some s"
| "compute_devices (d # ds) type_mask type s =
     (if link_list d = [] then compute_devices ds type_mask type s
      else do {
        s \<leftarrow> compute_bridges d (resources d) type_mask type s;
        compute_devices ds type_mask type s
      })"
| "compute_bridges d [] type_mask type s = Some s"
| "compute_bridges d (r # rs) type_mask type s =
     (if res_flags (s r) AND IORESOURCE_BRIDGE = 0 \<or> res_flags (s r) AND type_mask \<noteq> type
      then compute_bridges d rs type_mask type s
      else case find_link (IOINDEX_LINK (res_index (s r))) (link_list d) of
          None \<Rightarrow> None
        | Some l \<Rightarrow> do {
            s \<leftarrow> compute_resources l r (type_mask OR IORESOURCE_PREFETCH)
              (type OR (res_flags (s r) AND IORESOURCE_PREFETCH)) s;
            compute_bridges d rs type_mask type s
          })"
  by pat_completeness auto

termination
proof (relation "inv_image (less_than <*lex*> less_than <*lex*> less_than) (\<lambda>x. case x of
    Inl (b, br, m, t, s) \<Rightarrow> (bus_height b, 2, 0)
  | Inr (Inl (ds, m, t, s)) \<Rightarrow> (sum_list (map dev_height ds), 1, length ds)
  | Inr (Inr (d, rs, m, t, s)) \<Rightarrow> (dev_height d, 0, length rs))", goal_cases)
  case 1
  show ?case by (rule wf_inv_image) (intro wf_lex_prod wf_less_than)
next
  case (7 d r rs m t s l)
  then show ?case using bus_height_less find_link_member by fastforce
qed (auto simp: bus_height_def)

section \<open>The second pass\<close>

definition alloc_place :: "nat \<Rightarrow> nat \<Rightarrow> resource_t \<times> store \<Rightarrow> resource_t \<times> store" where
  "alloc_place bridge r = (\<lambda>(base, s).
     let s = (if res_limit (s r) > res_limit (s bridge)
              then s(r := (s r)\<lparr>res_limit := res_limit (s bridge)\<rparr>) else s)
     in if res_size (s r) = 0
        then (base, s(r := (s r)\<lparr>res_base := res_limit (s r), res_flags := res_flags (s r) OR IORESOURCE_ASSIGNED\<rparr>))
        else let base = io_avoid (s r) base
             in if round_pow base (res_align (s r)) + res_size (s r) - 1 \<le> res_limit (s r)
                then let base = round_pow base (res_align (s r))
                     in (base + res_size (s r), s(r := (s r)\<lparr>res_base := base,
                          res_limit := base + res_size (s r) - 1,
                          res_flags := (res_flags (s r) OR IORESOURCE_ASSIGNED) AND NOT IORESOURCE_STORED\<rparr>))
                else (base, s))"

function allocate_resources :: "dev bus \<Rightarrow> nat \<Rightarrow> u32 \<Rightarrow> u32 \<Rightarrow> store \<Rightarrow> store option"
  and allocate_devices :: "dev list \<Rightarrow> u32 \<Rightarrow> u32 \<Rightarrow> store \<Rightarrow> store option"
  and allocate_bridges :: "dev \<Rightarrow> nat list \<Rightarrow> u32 \<Rightarrow> u32 \<Rightarrow> store \<Rightarrow> store option" where
  "allocate_resources b bridge type_mask type s = do {
     (base, s) \<leftarrow> largest_loop (alloc_place bridge) b type_mask type None (res_base (s bridge), s);
     allocate_devices (children b) type_mask type
       (s(bridge := (s bridge)\<lparr>res_flags := res_flags (s bridge) OR IORESOURCE_ASSIGNED\<rparr>))
   }"
| "allocate_devices [] type_mask type s = Some s"
| "allocate_devices (d # ds) type_mask type s =
     (if link_list d = [] then allocate_devices ds type_mask type s
      else do {
        s \<leftarrow> allocate_bridges d (resources d) type_mask type s;
        allocate_devices ds type_mask type s
      })"
| "allocate_bridges d [] type_mask type s = Some s"
| "allocate_bridges d (r # rs) type_mask type s =
     (if res_flags (s r) AND IORESOURCE_BRIDGE = 0 \<or> res_flags (s r) AND type_mask \<noteq> type
      then allocate_bridges d rs type_mask type s
      else case find_link (IOINDEX_LINK (res_index (s r))) (link_list d) of
          None \<Rightarrow> None
        | Some l \<Rightarrow> do {
            s \<leftarrow> allocate_resources l r (type_mask OR IORESOURCE_PREFETCH)
              (type OR (res_flags (s r) AND IORESOURCE_PREFETCH)) s;
            allocate_bridges d rs type_mask type s
          })"
  by pat_completeness auto

termination
proof (relation "inv_image (less_than <*lex*> less_than <*lex*> less_than) (\<lambda>x. case x of
    Inl (b, br, m, t, s) \<Rightarrow> (bus_height b, 2, 0)
  | Inr (Inl (ds, m, t, s)) \<Rightarrow> (sum_list (map dev_height ds), 1, length ds)
  | Inr (Inr (d, rs, m, t, s)) \<Rightarrow> (dev_height d, 0, length rs))", goal_cases)
  case 1
  show ?case by (rule wf_inv_image) (intro wf_lex_prod wf_less_than)
next
  case (7 d r rs m t s l)
  then show ?case using bus_height_less find_link_member by fastforce
qed (auto simp: bus_height_def)

section \<open>Fixed resources\<close>

definition resource_is :: "resource \<Rightarrow> u32 \<Rightarrow> bool" where
  "resource_is res type \<longleftrightarrow> res_flags res AND IORESOURCE_TYPE_MASK = type"

text \<open>Of the two records in \<open>struct constraints\<close> only the base and the limit are used.\<close>

record window =
  win_base :: resource_t
  win_limit :: resource_t

record constraints =
  c_io :: window
  c_mem :: window

text \<open>The pointer that \<open>resource_limit\<close> returns is read and written: a lookup and an update.\<close>

definition resource_limit :: "constraints \<Rightarrow> resource \<Rightarrow> window option" where
  "resource_limit limits res =
     (if resource_is res IORESOURCE_MEM then Some (c_mem limits)
      else if resource_is res IORESOURCE_IO then Some (c_io limits)
      else None)"

definition put_limit :: "resource \<Rightarrow> window \<Rightarrow> constraints \<Rightarrow> constraints" where
  "put_limit res w limits =
     (if resource_is res IORESOURCE_MEM then limits\<lparr>c_mem := w\<rparr>
      else if resource_is res IORESOURCE_IO then limits\<lparr>c_io := w\<rparr>
      else limits)"

definition constrain_window :: "resource \<Rightarrow> window \<Rightarrow> window" where
  "constrain_window res lim =
     (if res_base res + res_size res - 1 < win_base lim \<or> res_base res > win_limit lim then lim
      else if sint (win_limit lim - (res_base res + res_size res - 1)) > sint (res_base res - win_base lim)
      then lim\<lparr>win_base := res_base res + res_size res\<rparr>
      else lim\<lparr>win_limit := res_base res - 1\<rparr>)"

definition constrain_fixed :: "resource \<Rightarrow> constraints \<Rightarrow> constraints" where
  "constrain_fixed res limits =
     (if res_flags res AND IORESOURCE_FIXED = 0 then limits
      else if res_size res = 0 then limits
      else case resource_limit limits res of
          None \<Rightarrow> limits
        | Some lim \<Rightarrow> put_limit res (constrain_window res lim) limits)"

function constrain_resources :: "store \<Rightarrow> dev \<Rightarrow> constraints \<Rightarrow> constraints"
  and constrain_links :: "store \<Rightarrow> dev bus list \<Rightarrow> constraints \<Rightarrow> constraints"
  and constrain_children :: "store \<Rightarrow> dev list \<Rightarrow> constraints \<Rightarrow> constraints" where
  "constrain_resources s d limits =
     constrain_links s (link_list d) (fold (\<lambda>r. constrain_fixed (s r)) (resources d) limits)"
| "constrain_links s [] limits = limits"
| "constrain_links s (l # ls) limits = constrain_links s ls (constrain_children s (children l) limits)"
| "constrain_children s [] limits = limits"
| "constrain_children s (d # ds) limits =
     constrain_children s ds (if enabled d then constrain_resources s d limits else limits)"
  by pat_completeness auto

termination
proof (relation "inv_image (less_than <*lex*> less_than <*lex*> less_than) (\<lambda>x. case x of
    Inl (s, d, l) \<Rightarrow> (dev_height d, 0, 0)
  | Inr (Inl (s, ls, l)) \<Rightarrow> (sum_list (map bus_height ls), 2, length ls)
  | Inr (Inr (s, ds, l)) \<Rightarrow> (sum_list (map dev_height ds), 1, length ds))", goal_cases)
  case 1
  show ?case by (rule wf_inv_image) (intro wf_lex_prod wf_less_than)
next
  case (2 s d l)
  then show ?case by (simp add: dev_height_links)
qed (auto simp: bus_height_def)

text \<open>The initial limits of a domain: what its own resources allow.\<close>

definition limit_by :: "resource \<Rightarrow> constraints \<Rightarrow> constraints" where
  "limit_by res limits =
     (if res_flags res AND IORESOURCE_FIXED \<noteq> 0 then limits
      else case resource_limit limits res of
          None \<Rightarrow> limits
        | Some lim \<Rightarrow>
            let lim = (if res_base res > win_base lim then lim\<lparr>win_base := res_base res\<rparr> else lim);
                lim = (if res_limit res < win_limit lim then lim\<lparr>win_limit := res_limit res\<rparr> else lim)
            in put_limit res lim limits)"

definition move_into :: "constraints \<Rightarrow> resource \<Rightarrow> resource" where
  "move_into limits res =
     (if res_flags res AND IORESOURCE_FIXED \<noteq> 0 then res
      else case resource_limit limits res of
          None \<Rightarrow> res
        | Some lim \<Rightarrow>
            let res = (if win_base lim > res_base res then res\<lparr>res_base := win_base lim\<rparr> else res);
                res = (if res_limit res > win_limit lim then res\<lparr>res_limit := win_limit lim\<rparr> else res)
            in if res_flags res AND IORESOURCE_MEM \<noteq> 0 then res\<lparr>res_base := resource_max res\<rparr> else res)"

definition avoid_fixed_resources :: "dev \<Rightarrow> store \<Rightarrow> store" where
  "avoid_fixed_resources d s =
     (let full = \<lparr>win_base = 0, win_limit = 0xffffffffffffffff\<rparr>;
          limits = fold (\<lambda>r. limit_by (s r)) (resources d) \<lparr>c_io = full, c_mem = full\<rparr>;
          limits = constrain_resources s d limits
      in fold (\<lambda>r s. s(r := move_into limits (s r))) (resources d) s)"

section \<open>All domains\<close>

text \<open>
  The part of \<open>dev_configure\<close> between the reading of the resources and their storing in the
  devices, which are the drivers' work. \<open>None\<close> also stands for a domain without a link.
\<close>

fun domain_resources ::
    "(dev bus \<Rightarrow> nat \<Rightarrow> u32 \<Rightarrow> u32 \<Rightarrow> store \<Rightarrow> store option) \<Rightarrow> dev \<Rightarrow> nat list \<Rightarrow> store \<Rightarrow> store option" where
  "domain_resources pass d [] s = Some s"
| "domain_resources pass d (r # rs) s =
     (if res_flags (s r) AND IORESOURCE_FIXED \<noteq> 0 then domain_resources pass d rs s
      else if res_flags (s r) AND IORESOURCE_MEM \<noteq> 0
      then (case link_list d of [] \<Rightarrow> None | l # _ \<Rightarrow> do {
          s \<leftarrow> pass l r IORESOURCE_TYPE_MASK IORESOURCE_MEM s;
          domain_resources pass d rs s
        })
      else if res_flags (s r) AND IORESOURCE_IO \<noteq> 0
      then (case link_list d of [] \<Rightarrow> None | l # _ \<Rightarrow> do {
          s \<leftarrow> pass l r IORESOURCE_TYPE_MASK IORESOURCE_IO s;
          domain_resources pass d rs s
        })
      else domain_resources pass d rs s)"

fun domains_pass ::
    "(dev bus \<Rightarrow> nat \<Rightarrow> u32 \<Rightarrow> u32 \<Rightarrow> store \<Rightarrow> store option) \<Rightarrow> dev list \<Rightarrow> store \<Rightarrow> store option" where
  "domains_pass pass [] s = Some s"
| "domains_pass pass (d # ds) s =
     (if \<not> is_domain d then domains_pass pass ds s
      else do {
        s \<leftarrow> domain_resources pass d (resources d) s;
        domains_pass pass ds s
      })"

definition configure_domains :: "dev list \<Rightarrow> store \<Rightarrow> store option" where
  "configure_domains ds s = do {
     s \<leftarrow> domains_pass compute_resources ds s;
     domains_pass allocate_resources ds
       (fold (\<lambda>d s. if is_domain d then avoid_fixed_resources d s else s) ds s)
   }"

end
