(* ===== verification/Allocator_Spec.thy ===== *)
theory Allocator_Spec
  imports Allocator "HOL-Library.Multiset"
begin

text \<open>
  What the resource allocator guarantees: the order in which the two passes visit the
  resources, and the placement they agree on.
\<close>

section \<open>The visited resources\<close>

primrec dev_ids :: "dev \<Rightarrow> nat list" where
  "dev_ids (Dev e dm rs links) = rs @ concat (map (\<lambda>l. concat (children l)) (map (map_bus dev_ids) links))"

definition bus_ids :: "dev bus \<Rightarrow> nat list" where
  "bus_ids b = concat (map dev_ids (children b))"

lemma dev_ids_links: "dev_ids d = resources d @ concat (map bus_ids (link_list d))"
  by (cases d) (simp add: bus_ids_def [abs_def] bus.map_sel comp_def)

lemma find_link_ids: "find_link n (link_list d) = Some l \<Longrightarrow> set (bus_ids l) \<subseteq> set (dev_ids d)"
  using find_link_member by (fastforce simp: dev_ids_links)

definition bus_items :: "u32 \<Rightarrow> u32 \<Rightarrow> store \<Rightarrow> dev bus \<Rightarrow> (dev \<times> nat) list" where
  "bus_items m t s b = search_bus_resources m t (\<lambda>d r g. g @ [(d, r)]) s b []"

lemma search_collects:
  fixes f :: "dev \<Rightarrow> nat \<Rightarrow> 'g \<Rightarrow> 'g" and c :: "dev \<Rightarrow> nat \<Rightarrow> (dev \<times> nat) list \<Rightarrow> (dev \<times> nat) list"
  shows "c = (\<lambda>d r g. g @ [(d, r)]) \<Longrightarrow> search_bus_resources m t f s b (fold (\<lambda>(d, r). f d r) xs g) =
      fold (\<lambda>(d, r). f d r) (search_bus_resources m t c s b xs) g"
    and "c = (\<lambda>d r g. g @ [(d, r)]) \<Longrightarrow> search_devices m t f s ds (fold (\<lambda>(d, r). f d r) xs g) =
      fold (\<lambda>(d, r). f d r) (search_devices m t c s ds xs) g"
    and "c = (\<lambda>d r g. g @ [(d, r)]) \<Longrightarrow> search_records m t f s d rs (fold (\<lambda>(d, r). f d r) xs g) =
      fold (\<lambda>(d, r). f d r) (search_records m t c s d rs xs) g"
proof (induction m t c s b xs and m t c s ds xs and m t c s d rs xs
    rule: search_bus_resources_search_devices_search_records.induct)
  case (5 m t c s d r rs xs)
  have "f d r (fold (\<lambda>(d, r). f d r) xs g) = fold (\<lambda>(d, r). f d r) (xs @ [(d, r)]) g" by simp
  with 5 show ?case by (auto simp del: fold_append split: option.splits)
qed (auto split: if_splits)

lemma search_fold:
  "search_bus_resources m t f s b g = fold (\<lambda>(d, r). f d r) (bus_items m t s b) g"
  using search_collects(1) [OF refl, of m t f s b "[]" g] by (simp add: bus_items_def)

text \<open>
  What both passes leave unchanged in every resource, and what their loops leave unchanged in
  the resources of the bus.
\<close>

definition same_type :: "resource \<Rightarrow> resource \<Rightarrow> bool" where
  "same_type r r' \<longleftrightarrow> res_index r = res_index r' \<and> res_gran r = res_gran r' \<and>
     res_flags r AND NOT (IORESOURCE_ASSIGNED OR IORESOURCE_STORED) =
     res_flags r' AND NOT (IORESOURCE_ASSIGNED OR IORESOURCE_STORED)"

definition same_need :: "resource \<Rightarrow> resource \<Rightarrow> bool" where
  "same_need r r' \<longleftrightarrow> same_type r r' \<and> res_size r = res_size r' \<and> res_align r = res_align r'"

lemma same_type_refl [simp]: "same_type r r"
  by (simp add: same_type_def)

lemma same_type_trans: "same_type a b \<Longrightarrow> same_type b c \<Longrightarrow> same_type a c"
  by (simp add: same_type_def)

lemma same_type_sym: "same_type a b \<Longrightarrow> same_type b a"
  by (simp add: same_type_def)

lemma same_need_refl [simp]: "same_need r r"
  by (simp add: same_need_def)

definition type_bits :: "u32 \<Rightarrow> bool" where
  "type_bits m \<longleftrightarrow> m AND (IORESOURCE_ASSIGNED OR IORESOURCE_STORED) = 0"

lemma type_bits_masked:
  assumes "type_bits m"
  shows "x AND m = (x AND NOT (IORESOURCE_ASSIGNED OR IORESOURCE_STORED)) AND m"
proof -
  let ?k = "IORESOURCE_ASSIGNED OR IORESOURCE_STORED"
  have "m = m AND (?k OR NOT ?k)" by (simp only: bit.disj_cancel_right and.right_neutral)
  also have "\<dots> = m AND NOT ?k" using assms by (simp only: type_bits_def bit.conj_disj_distrib or.left_neutral)
  finally show ?thesis by (metis and.assoc and.commute)
qed

lemma same_type_flags:
  assumes "same_type r r'" "type_bits m"
  shows "res_flags r AND m = res_flags r' AND m"
  using type_bits_masked [OF assms(2), of "res_flags r"] type_bits_masked [OF assms(2), of "res_flags r'"] assms(1)
  unfolding same_type_def by (simp only:)

lemma type_bits_simps [simp]:
  "type_bits IORESOURCE_FIXED" "type_bits IORESOURCE_SUBTRACTIVE" "type_bits IORESOURCE_BRIDGE"
  "type_bits IORESOURCE_PREFETCH" "type_bits IORESOURCE_IO" "type_bits IORESOURCE_MEM"
  "type_bits IORESOURCE_TYPE_MASK"
  by (simp_all add: type_bits_def IORESOURCE_TYPE_MASK_def IORESOURCE_FIXED_def IORESOURCE_SUBTRACTIVE_def
    IORESOURCE_BRIDGE_def IORESOURCE_PREFETCH_def IORESOURCE_IO_def IORESOURCE_MEM_def
    IORESOURCE_IRQ_def IORESOURCE_DRQ_def IORESOURCE_ASSIGNED_def IORESOURCE_STORED_def)

lemma type_bits_or [simp]: "type_bits (m OR n) \<longleftrightarrow> type_bits m \<and> type_bits n"
  by (simp add: type_bits_def bit.conj_disj_distrib2 or_eq_0_iff)

lemma search_cong:
  fixes f :: "dev \<Rightarrow> nat \<Rightarrow> 'g \<Rightarrow> 'g"
  assumes "type_bits m"
  shows "\<forall>i \<in> set (bus_ids b). same_type (s i) (s' i) \<Longrightarrow>
      search_bus_resources m t f s b g = search_bus_resources m t f s' b g"
    and "\<forall>i \<in> set (concat (map dev_ids ds)). same_type (s i) (s' i) \<Longrightarrow>
      search_devices m t f s ds g = search_devices m t f s' ds g"
    and "\<forall>i \<in> set rs \<union> set (dev_ids d). same_type (s i) (s' i) \<Longrightarrow>
      search_records m t f s d rs g = search_records m t f s' d rs g"
  using assms
proof (induction m t f s b g and m t f s ds g and m t f s d rs g
    rule: search_bus_resources_search_devices_search_records.induct)
  case (1 m t f s b g)
  then show ?case by (simp add: bus_ids_def)
next
  case (3 m t f s d ds g)
  then have "\<forall>i \<in> set (resources d) \<union> set (dev_ids d). same_type (s i) (s' i)"
    "\<forall>i \<in> set (concat (map dev_ids ds)). same_type (s i) (s' i)"
    by (auto simp: dev_ids_links)
  then show ?case using "3.IH" "3.prems"(2) by (cases "enabled d") simp_all
next
  case (5 m t f s d r rs g)
  have n: "same_type (s r) (s' r)" using "5.prems"(1) by simp
  have fl: "res_flags (s r) AND m = res_flags (s' r) AND m"
      "res_flags (s r) AND IORESOURCE_SUBTRACTIVE = res_flags (s' r) AND IORESOURCE_SUBTRACTIVE"
      "res_index (s r) = res_index (s' r)"
    using same_type_flags [OF n "5.prems"(2)] same_type_flags [OF n type_bits_simps(2)] n
    by (simp_all only: same_type_def)
  have rest: "\<forall>i \<in> set rs \<union> set (dev_ids d). same_type (s i) (s' i)" using "5.prems"(1) by simp
  have sub: "\<forall>i \<in> set (bus_ids l). same_type (s i) (s' i)"
    if "find_link (IOINDEX_SUBTRACTIVE_LINK (res_index (s r))) (link_list d) = Some l" for l
    using rest find_link_ids [OF that] by blast
  note IH = "5.IH"(1) [OF _ rest "5.prems"(2)] "5.IH"(3) [OF _ _ _ rest "5.prems"(2)] "5.IH"(4) [OF _ _ rest "5.prems"(2)]
  consider "res_flags (s r) AND m \<noteq> t"
    | "res_flags (s r) AND m = t" "res_flags (s r) AND IORESOURCE_SUBTRACTIVE = 0"
    | l where "res_flags (s r) AND m = t" "res_flags (s r) AND IORESOURCE_SUBTRACTIVE \<noteq> 0"
        "find_link (IOINDEX_SUBTRACTIVE_LINK (res_index (s r))) (link_list d) = Some l"
    | "res_flags (s r) AND m = t" "res_flags (s r) AND IORESOURCE_SUBTRACTIVE \<noteq> 0"
        "find_link (IOINDEX_SUBTRACTIVE_LINK (res_index (s r))) (link_list d) = None"
    by (cases "find_link (IOINDEX_SUBTRACTIVE_LINK (res_index (s r))) (link_list d)") auto
  then show ?case
  proof cases
    case (3 l)
    then have "search_bus_resources m t f s l g = search_bus_resources m t f s' l g"
      using "5.IH"(2) [of l] sub "5.prems"(2) by simp
    with 3 IH(2) [of l] fl show ?thesis by simp
  qed (use IH fl in simp_all)
qed simp_all

lemma bus_items_cong:
  "type_bits m \<Longrightarrow> \<forall>i \<in> set (bus_ids b). same_type (s i) (s' i) \<Longrightarrow> bus_items m t s b = bus_items m t s' b"
  unfolding bus_items_def by (rule search_cong(1))

text \<open>The items are records of the bus and match the type.\<close>

lemma search_sound:
  fixes c :: "dev \<Rightarrow> nat \<Rightarrow> (dev \<times> nat) list \<Rightarrow> (dev \<times> nat) list"
  shows "c = (\<lambda>d r g. g @ [(d, r)]) \<Longrightarrow> (d', r') \<in> set (search_bus_resources m t c s b xs) \<Longrightarrow>
      (d', r') \<in> set xs \<or> r' \<in> set (bus_ids b) \<and> res_flags (s r') AND m = t"
    and "c = (\<lambda>d r g. g @ [(d, r)]) \<Longrightarrow> (d', r') \<in> set (search_devices m t c s ds xs) \<Longrightarrow>
      (d', r') \<in> set xs \<or> r' \<in> set (concat (map dev_ids ds)) \<and> res_flags (s r') AND m = t"
    and "c = (\<lambda>d r g. g @ [(d, r)]) \<Longrightarrow> (d', r') \<in> set (search_records m t c s d rs xs) \<Longrightarrow>
      (d', r') \<in> set xs \<or> r' \<in> set rs \<union> set (dev_ids d) \<and> res_flags (s r') AND m = t"
proof (induction m t c s b xs and m t c s ds xs and m t c s d rs xs
    rule: search_bus_resources_search_devices_search_records.induct)
  case (1 m t c s b xs)
  then show ?case by (simp add: bus_ids_def)
next
  case (3 m t c s d ds xs)
  then show ?case by (fastforce simp: dev_ids_links split: if_splits)
next
  case (5 m t c s d r rs xs)
  show ?case
  proof (cases "find_link (IOINDEX_SUBTRACTIVE_LINK (res_index (s r))) (link_list d)")
    case None
    then show ?thesis using 5 by (auto split: if_splits)
  next
    case (Some l)
    then show ?thesis using 5 find_link_ids [OF Some] by (auto split: if_splits)
  qed
qed simp_all

lemma bus_items_sound:
  "r \<in> set (map snd (bus_items m t s b)) \<Longrightarrow> r \<in> set (bus_ids b) \<and> res_flags (s r) AND m = t"
  using search_sound(1) [OF refl, of _ r m t s b "[]"] by (auto simp: bus_items_def)

section \<open>The order of the visits\<close>

text \<open>
  The first least element of a list is the head of the stable sort, and the search for the
  successor of an element finds the one behind it in the stable sort.
\<close>

definition first_least :: "('a \<Rightarrow> int) \<Rightarrow> 'a list \<Rightarrow> 'a option" where
  "first_least k xs = fold (\<lambda>x acc. case acc of None \<Rightarrow> Some x | Some q \<Rightarrow> if k x < k q then Some x else Some q) xs None"

lemma fold_least:
  "fold (\<lambda>x acc. case acc of None \<Rightarrow> Some x | Some q \<Rightarrow> if k x < k q then Some x else Some q) xs acc =
    (case sort_key k xs of [] \<Rightarrow> acc
     | y # _ \<Rightarrow> (case acc of None \<Rightarrow> Some y | Some q \<Rightarrow> if k y < k q then Some y else Some q))"
  for k :: "'a \<Rightarrow> int"
proof (induction xs arbitrary: acc)
  case (Cons x xs)
  have "sort_key k (x # xs) = (case sort_key k xs of [] \<Rightarrow> [x] | y # ys \<Rightarrow>
      if k x \<le> k y then x # y # ys else y # insort_key k x ys)"
    by (simp split: list.split)
  then show ?case unfolding fold_simps comp_def Cons.IH by (auto split: list.splits option.splits)
qed simp

lemma first_least_sort: "first_least k xs = (case sort_key k xs of [] \<Rightarrow> None | y # _ \<Rightarrow> Some y)"
  unfolding first_least_def fold_least by (simp split: list.split)

lemma mset_eq_by_key:
  assumes "\<And>c. filter (\<lambda>x. k x = c) xs = filter (\<lambda>x. k x = c) ys"
  shows "mset xs = mset ys"
proof (rule multiset_eqI)
  fix x
  have "count (mset zs) x = count (mset (filter (\<lambda>y. k y = k x) zs)) x" for zs by simp
  then show "count (mset xs) x = count (mset ys) x" using assms [of "k x"] by metis
qed

lemma sort_key_suffix:
  fixes k :: "'a \<Rightarrow> int"
  assumes "sort_key k (as @ l # bs) = ys @ l # zs" "distinct (as @ l # bs)"
  shows "sort_key k (filter (\<lambda>x. k l < k x) as @ filter (\<lambda>x. k l \<le> k x) bs) = zs"
proof -
  let ?E = "filter (\<lambda>x. k l < k x) as @ filter (\<lambda>x. k l \<le> k x) bs"
  have sorted: "sorted (map k (ys @ l # zs))" using sorted_sort_key [of k "as @ l # bs"] unfolding assms(1) .
  then have le: "\<forall>y \<in> set ys. k y \<le> k l" "\<forall>z \<in> set zs. k l \<le> k z" "sorted (map k zs)"
    by (auto simp: sorted_append)
  have "distinct (ys @ l # zs)" using assms(2) unfolding assms(1) [symmetric] by (simp only: distinct_sort)
  then have "l \<notin> set ys" "l \<notin> set zs" by simp_all
  have "filter (\<lambda>x. k x = c) zs = filter (\<lambda>x. k x = c) ?E" for c
  proof -
    have st: "filter (\<lambda>x. k x = c) (ys @ l # zs) = filter (\<lambda>x. k x = c) (as @ l # bs)"
      using sort_key_stable [of k c "as @ l # bs"] unfolding assms(1) .
    consider "c < k l" | "c = k l" | "k l < c" by linarith
    then show ?thesis
    proof cases
      case 1
      then show ?thesis using le(2) by (auto simp: filter_empty_conv)
    next
      case 2
      then have "filter (\<lambda>x. k x = c) ys @ l # filter (\<lambda>x. k x = c) zs =
          filter (\<lambda>x. k x = c) as @ l # filter (\<lambda>x. k x = c) bs" using st by simp
      then have "filter (\<lambda>x. k x = c) zs = filter (\<lambda>x. k x = c) bs"
        using \<open>l \<notin> set ys\<close> \<open>l \<notin> set zs\<close> assms(2) by (subst (asm) append_Cons_eq_iff) auto
      then show ?thesis using 2 by (simp add: conj_commute cong: conj_cong)
    next
      case 3
      then have "filter (\<lambda>x. k x = c) ys = []" using le(1) by (auto simp: filter_empty_conv)
      then have "filter (\<lambda>x. k x = c) zs = filter (\<lambda>x. k x = c) as @ filter (\<lambda>x. k x = c) bs"
        using st 3 by simp
      moreover have "filter (\<lambda>x. k x = c) (filter (\<lambda>x. k l < k x) as) = filter (\<lambda>x. k x = c) as"
        "filter (\<lambda>x. k x = c) (filter (\<lambda>x. k l \<le> k x) bs) = filter (\<lambda>x. k x = c) bs"
        using 3 by (auto intro: filter_cong)
      ultimately show ?thesis by simp
    qed
  qed
  then show ?thesis
    by (intro properties_for_sort_key mset_eq_by_key [of k] le(3)) (simp_all add: eq_commute)
qed

text \<open>The order of the passes: descending alignment, then descending size, then as found.\<close>

definition movable :: "store \<Rightarrow> nat \<Rightarrow> bool" where
  "movable s r \<longleftrightarrow> res_flags (s r) AND IORESOURCE_FIXED = 0"

definition need_key :: "store \<Rightarrow> nat \<Rightarrow> int" where
  "need_key s r = - (int (res_align (s r)) * 18446744073709551616 + uint (res_size (s r)))"

definition visit_order :: "u32 \<Rightarrow> u32 \<Rightarrow> store \<Rightarrow> dev bus \<Rightarrow> nat list" where
  "visit_order m t s b = sort_key (need_key s) (filter (movable s) (map snd (bus_items m t s b)))"

lemma two_digits:
  fixes a b :: nat and x y :: int
  assumes "0 \<le> x" "x < 18446744073709551616" "0 \<le> y" "y < 18446744073709551616"
  shows "- (int a * 18446744073709551616 + x) < - (int b * 18446744073709551616 + y) \<longleftrightarrow> b < a \<or> b = a \<and> y < x"
    and "- (int a * 18446744073709551616 + x) = - (int b * 18446744073709551616 + y) \<longleftrightarrow> b = a \<and> y = x"
proof -
  consider "int b + 1 \<le> int a" | "b = a" | "int a + 1 \<le> int b" by linarith
  then show "- (int a * 18446744073709551616 + x) < - (int b * 18446744073709551616 + y) \<longleftrightarrow> b < a \<or> b = a \<and> y < x"
    "- (int a * 18446744073709551616 + x) = - (int b * 18446744073709551616 + y) \<longleftrightarrow> b = a \<and> y = x"
    using assms by (cases, linarith, simp, linarith)+
qed

lemma need_key_less:
    "need_key s r < need_key s q \<longleftrightarrow> res_align (s q) < res_align (s r) \<or>
      res_align (s q) = res_align (s r) \<and> res_size (s q) < res_size (s r)"
  and need_key_eq:
    "need_key s r = need_key s q \<longleftrightarrow> res_align (s q) = res_align (s r) \<and> res_size (s q) = res_size (s r)"
proof -
  have "0 \<le> uint (res_size (s i)) \<and> uint (res_size (s i)) < 18446744073709551616" for i
    using unsigned_less [of "res_size (s i)", where 'a = int] by simp
  note * = two_digits [OF conjunct1 [OF this] conjunct2 [OF this] conjunct1 [OF this] conjunct2 [OF this]]
  show "need_key s r < need_key s q \<longleftrightarrow> res_align (s q) < res_align (s r) \<or>
      res_align (s q) = res_align (s r) \<and> res_size (s q) < res_size (s r)"
    unfolding need_key_def by (simp only: * word_less_def)
  show "need_key s r = need_key s q \<longleftrightarrow> res_align (s q) = res_align (s r) \<and> res_size (s q) = res_size (s r)"
    unfolding need_key_def by (simp only: * word_eq_iff_unsigned [where 'a = int])
qed

fun eligible :: "store \<Rightarrow> nat \<Rightarrow> bool \<Rightarrow> nat list \<Rightarrow> nat list" where
  "eligible s l seen [] = []"
| "eligible s l seen (r # rs) =
     (if r = l then eligible s l True rs
      else if movable s r \<and> (need_key s l < need_key s r \<or> need_key s r = need_key s l \<and> seen)
      then r # eligible s l seen rs else eligible s l seen rs)"

lemma eligible_seen:
  "l \<notin> set rs \<Longrightarrow> eligible s l True rs = filter (\<lambda>r. need_key s l \<le> need_key s r) (filter (movable s) rs)"
  by (induction rs) auto

lemma eligible_split:
  "l \<notin> set as \<Longrightarrow> l \<notin> set bs \<Longrightarrow> eligible s l False (as @ l # bs) =
     filter (\<lambda>r. need_key s l < need_key s r) (filter (movable s) as) @
     filter (\<lambda>r. need_key s l \<le> need_key s r) (filter (movable s) bs)"
  by (induction as) (auto simp: eligible_seen)

abbreviation "least_step k \<equiv> \<lambda>x acc. case acc of None \<Rightarrow> Some x | Some q \<Rightarrow> if (k x :: int) < k q then Some x else Some q"

lemma pick_step:
  "map_option snd (pl_result (pick_largest_resource s d r st)) =
    (if Some r \<noteq> pl_last st \<and> movable s r \<and>
        (case pl_last st of None \<Rightarrow> True | Some l \<Rightarrow> need_key s l < need_key s r \<or> need_key s r = need_key s l \<and> seen_last st)
     then least_step (need_key s) r (map_option snd (pl_result st)) else map_option snd (pl_result st))"
  "pl_last (pick_largest_resource s d r st) = pl_last st"
  "seen_last (pick_largest_resource s d r st) \<longleftrightarrow> seen_last st \<or> Some r = pl_last st"
proof -
  have *: "\<not> need_key s l < need_key s r \<and> \<not> (need_key s r = need_key s l \<and> sn) \<longleftrightarrow>
      need_key s r < need_key s l \<or> need_key s r = need_key s l \<and> \<not> sn" for l sn by linarith
  show "map_option snd (pl_result (pick_largest_resource s d r st)) =
    (if Some r \<noteq> pl_last st \<and> movable s r \<and>
        (case pl_last st of None \<Rightarrow> True | Some l \<Rightarrow> need_key s l < need_key s r \<or> need_key s r = need_key s l \<and> seen_last st)
     then least_step (need_key s) r (map_option snd (pl_result st)) else map_option snd (pl_result st))"
    by (auto simp: pick_largest_resource_def movable_def need_key_less need_key_eq split: option.splits)
  show "pl_last (pick_largest_resource s d r st) = pl_last st"
    by (simp add: pick_largest_resource_def)
  show "seen_last (pick_largest_resource s d r st) \<longleftrightarrow> seen_last st \<or> Some r = pl_last st"
    by (auto simp: pick_largest_resource_def split: option.splits)
qed

lemma pick_fold_first:
  "pl_last st = None \<Longrightarrow>
    map_option snd (pl_result (fold (\<lambda>(d, r). pick_largest_resource s d r) ds st)) =
    fold (least_step (need_key s)) (filter (movable s) (map snd ds)) (map_option snd (pl_result st))"
  by (induction ds arbitrary: st) (auto simp: pick_step split: option.splits)

lemma pick_fold_next:
  "pl_last st = Some l \<Longrightarrow>
    map_option snd (pl_result (fold (\<lambda>(d, r). pick_largest_resource s d r) ds st)) =
    fold (least_step (need_key s)) (eligible s l (seen_last st) (map snd ds)) (map_option snd (pl_result st))"
proof (induction ds arbitrary: st)
  case (Cons p ds)
  then show ?case
    by (cases p; cases "snd p = l") (auto simp: pick_step)
qed simp

lemma largest_first:
  "map_option snd (largest_resource b None m t s) = (case visit_order m t s b of [] \<Rightarrow> None | r # _ \<Rightarrow> Some r)"
  unfolding largest_resource_def search_fold visit_order_def first_least_sort [symmetric] first_least_def
  by (subst pick_fold_first) simp_all

lemma largest_next:
  assumes "visit_order m t s b = ys @ l # zs" "distinct (map snd (bus_items m t s b))"
  shows "map_option snd (largest_resource b (Some l) m t s) = (case zs of [] \<Rightarrow> None | r # _ \<Rightarrow> Some r)"
proof -
  let ?xs = "map snd (bus_items m t s b)"
  have "l \<in> set (visit_order m t s b)" using assms(1) by simp
  then have l: "l \<in> set ?xs" "movable s l" by (auto simp: visit_order_def)
  then obtain as bs where xs: "?xs = as @ l # bs" by (meson split_list)
  then have n: "l \<notin> set as" "l \<notin> set bs" using assms(2) by (simp_all add: xs)
  have "sort_key (need_key s) (filter (movable s) as @ l # filter (movable s) bs) = ys @ l # zs"
    using assms(1) l(2) by (simp add: visit_order_def xs)
  then have "sort_key (need_key s) (eligible s l False ?xs) = zs"
    unfolding xs eligible_split [OF n] using assms(2)
    by (intro sort_key_suffix) (auto simp: xs)
  then show ?thesis
    unfolding largest_resource_def search_fold
    by (subst pick_fold_next [of _ l]) (simp_all add: fold_least split: list.split)
qed

lemma insort_key_cong: "\<forall>y \<in> insert x (set xs). f y = g y \<Longrightarrow> insort_key f x xs = insort_key g x xs"
  by (induction xs) auto

lemma sort_key_cong: "\<forall>x \<in> set xs. f x = g x \<Longrightarrow> sort_key f xs = sort_key g xs"
proof (induction xs)
  case (Cons x xs)
  then show ?case using insort_key_cong [of x "sort_key g xs" f g] by simp
qed simp

lemma same_need_trans: "same_need a b \<Longrightarrow> same_need b c \<Longrightarrow> same_need a c"
  by (auto simp: same_need_def intro: same_type_trans)

lemma visit_order_cong:
  assumes "type_bits m" "\<forall>i \<in> set (bus_ids b). same_need (s i) (s' i)"
  shows "visit_order m t s b = visit_order m t s' b"
proof -
  have "\<forall>i \<in> set (bus_ids b). same_type (s i) (s' i)" using assms(2) by (simp add: same_need_def)
  note items = bus_items_cong [OF assms(1) this]
  have "need_key s r = need_key s' r \<and> movable s r = movable s' r"
    if r: "r \<in> set (map snd (bus_items m t s b))" for r
  proof -
    have n: "same_need (s r) (s' r)" using bus_items_sound [OF r] assms(2) by simp
    then have "same_type (s r) (s' r)" by (simp add: same_need_def)
    then show ?thesis using same_type_flags [OF _ type_bits_simps(1)] n
      by (simp add: need_key_def movable_def same_need_def)
  qed
  then show ?thesis
    unfolding visit_order_def items [symmetric]
    by (subst filter_cong [OF refl, where Q = "movable s'"]) (auto intro!: sort_key_cong)
qed

text \<open>The loop is a run along the order, which the steps must not change.\<close>

theorem largest_loop_order:
  assumes "type_bits m" "distinct (map snd (bus_items m t (snd bs) b))"
    "\<And>r bs' i. i \<in> set (bus_ids b) \<Longrightarrow> same_need (snd bs' i) (snd (place r bs') i)"
  shows "largest_loop place b m t None bs = Some (fold place (visit_order m t (snd bs) b) bs)"
proof -
  define ord where "ord = visit_order m t (snd bs) b"
  have "largest_loop place b m t (if ys = [] then None else Some (last ys)) bs' = Some (fold place zs bs')"
    if "ord = ys @ zs" "\<forall>i \<in> set (bus_ids b). same_need (snd bs i) (snd bs' i)" for ys zs bs'
    using that
  proof (induction zs arbitrary: ys bs')
    case Nil
    have ty: "\<forall>i \<in> set (bus_ids b). same_type (snd bs i) (snd bs' i)" using Nil(2) by (simp add: same_need_def)
    note v = visit_order_cong [OF assms(1) Nil(2), of t] bus_items_cong [OF assms(1) ty, of t]
    have "largest_resource b (if ys = [] then None else Some (last ys)) m t (snd bs') = None"
    proof (cases ys rule: rev_cases)
      case Nil
      then show ?thesis using largest_first [of b m t "snd bs'"] v \<open>ord = ys @ []\<close> by (simp add: ord_def)
    next
      case (snoc ys' l)
      then show ?thesis using largest_next [of m t "snd bs'" b ys' l "[]"] v Nil(1) assms(2) by (simp add: ord_def)
    qed
    then show ?case by (subst largest_loop.simps) simp
  next
    case (Cons r zs)
    have ty: "\<forall>i \<in> set (bus_ids b). same_type (snd bs i) (snd bs' i)" using Cons.prems(2) by (simp add: same_need_def)
    note v = visit_order_cong [OF assms(1) Cons.prems(2), of t] bus_items_cong [OF assms(1) ty, of t]
    have "map_option snd (largest_resource b (if ys = [] then None else Some (last ys)) m t (snd bs')) = Some r"
    proof (cases ys rule: rev_cases)
      case Nil
      then show ?thesis using largest_first [of b m t "snd bs'"] v Cons.prems(1) by (simp add: ord_def)
    next
      case (snoc ys' l)
      then show ?thesis using largest_next [of m t "snd bs'" b ys' l "r # zs"] v Cons.prems(1) assms(2) by (simp add: ord_def)
    qed
    then obtain d where d: "largest_resource b (if ys = [] then None else Some (last ys)) m t (snd bs') = Some (d, r)" by auto
    have "\<forall>i \<in> set (bus_ids b). same_need (snd bs i) (snd (place r bs') i)"
      using Cons.prems(2) assms(3) same_need_trans by blast
    from Cons.IH [of "ys @ [r]", OF _ this] Cons.prems(1)
    show ?case by (subst largest_loop.simps) (simp add: d)
  qed
  from this [of "[]" ord bs] show ?thesis by (simp add: ord_def)
qed

end
