(* ===== verification/Allocator_Layout.thy ===== *)
theory Allocator_Layout
  imports Allocator_Spec
begin

text \<open>
  Where the two passes put the resources of a bus, in natural numbers: \<open>layout\<close> lists the
  position of every resource with a size, and both passes follow it.
\<close>

section \<open>Rounding\<close>

definition rup :: "nat \<Rightarrow> nat \<Rightarrow> nat" where
  "rup a n = (n + 2 ^ a - 1) div 2 ^ a * 2 ^ a"

lemma rup_ge: "n \<le> rup a n"
  unfolding rup_def by (rule le_ALIGN_UP_nat)

lemma rup_dvd [simp]: "2 ^ a dvd rup a n"
  by (simp add: rup_def)

lemma rup_less: "rup a n < n + 2 ^ a"
proof -
  have "rup a n \<le> n + 2 ^ a - 1" by (simp add: rup_def)
  moreover have "(0::nat) < 2 ^ a" by simp
  ultimately show ?thesis by linarith
qed

lemma rup_least: "2 ^ a dvd x \<Longrightarrow> n \<le> x \<Longrightarrow> rup a n \<le> x"
proof -
  assume "2 ^ a dvd x" "n \<le> x"
  then obtain k where x: "x = k * 2 ^ a" by (metis dvd_def mult.commute)
  have "(0::nat) < 2 ^ a" by simp
  then have "n + 2 ^ a - 1 < k * 2 ^ a + 2 ^ a" using \<open>n \<le> x\<close> unfolding x by linarith
  then have "n + 2 ^ a - 1 < (k + 1) * 2 ^ a" by simp
  then have "(n + 2 ^ a - 1) div 2 ^ a < k + 1" by (simp add: less_mult_imp_div_less)
  then show ?thesis by (simp add: rup_def x)
qed

lemma rup_id: "2 ^ a dvd n \<Longrightarrow> rup a n = n"
  using rup_ge [of n a] rup_least [of a n n] by simp

lemma rup_rup: "a \<le> b \<Longrightarrow> rup b (rup a n) = rup b n"
proof (rule antisym)
  assume ab: "a \<le> b"
  have "(2::nat) ^ a dvd rup b n" using ab by (meson dvd_trans le_imp_power_dvd rup_dvd)
  then have "rup a n \<le> rup b n" by (rule rup_least [OF _ rup_ge])
  then show "rup b (rup a n) \<le> rup b n" by (rule rup_least [OF rup_dvd])
  show "rup b n \<le> rup b (rup a n)"
    by (intro rup_least rup_dvd) (metis le_trans rup_ge)
qed

lemma rup_shift: "2 ^ a dvd B \<Longrightarrow> rup a (B + n) = B + rup a n"
proof -
  assume "2 ^ a dvd B"
  then obtain k where B: "B = 2 ^ a * k" by (auto simp: dvd_def)
  have "(0::nat) < 2 ^ a" by simp
  then have "B + n + 2 ^ a - 1 = 2 ^ a * k + (n + 2 ^ a - 1)" unfolding B by linarith
  then have "(B + n + 2 ^ a - 1) div 2 ^ a = k + (n + 2 ^ a - 1) div 2 ^ a" by simp
  then show ?thesis by (simp add: rup_def B algebra_simps)
qed

lemma rup_1024: "256 \<le> n mod 1024 \<Longrightarrow> rup 10 n = n - n mod 1024 + 1024"
proof -
  assume m: "256 \<le> n mod 1024"
  have "n + 1023 = 1024 * (n div 1024) + (n mod 1024 + 1023)"
    using mult_div_mod_eq [of 1024 n] by linarith
  moreover have "(1024 * q + k) div 1024 = q + k div 1024" for q k :: nat by simp
  ultimately have "(n + 1023) div 1024 = n div 1024 + (n mod 1024 + 1023) div 1024" by metis
  moreover have "n mod 1024 < 1024" by simp
  then have "(n mod 1024 + 1023) div 1024 = 1" using m by (intro div_nat_eqI) simp_all
  ultimately have "(n + 1023) div 1024 = n div 1024 + 1" by linarith
  moreover have "n + 2 ^ 10 - 1 = n + 1023" by simp
  ultimately have "rup 10 n = (n div 1024 + 1) * 1024" unfolding rup_def by (simp only: power_numeral semiring_norm) simp
  then show ?thesis unfolding minus_mod_eq_div_mult by simp
qed

text \<open>Avoiding the aliases: the third branch of \<open>io_avoid\<close> is never taken.\<close>

definition skip_alias :: "bool \<Rightarrow> nat \<Rightarrow> nat" where
  "skip_alias io n = (if io \<and> 256 \<le> n mod 1024 then rup 10 n else n)"

abbreviation is_io :: "resource \<Rightarrow> bool" where
  "is_io r \<equiv> res_flags r AND IORESOURCE_IO \<noteq> 0"

lemma unat_round_pow:
  assumes "pw < 64" "unat x + 2 ^ pw \<le> 18446744073709551616"
  shows "unat (round_pow x pw) = rup pw (unat x)"
proof -
  have "round_pow x pw = ALIGN_UP x (2 ^ pw)"
    by (simp add: round_pow_def Let_def ALIGN_UP_def ALIGN_MASK_def push_bit_eq_mult)
  moreover have "unat x + 2 ^ pw - 1 < 2 ^ LENGTH(64)" using assms(2) by simp
  ultimately show ?thesis using unat_ALIGN_UP [of pw x] assms(1) by (simp add: rup_def)
qed

lemma alias_bits:
  fixes x :: u64
  shows "x AND 0x300 = 0 \<longleftrightarrow> unat x mod 1024 < 256"
    and "unat (x AND NOT 0x3ff) = unat x - unat x mod 1024"
proof -
  have m: "(0x300 :: u64) = mask 10 AND NOT (mask 8)" "(0x3ff :: u64) = mask 10" by (simp_all add: mask_eq_exp_minus_1)
  have "x AND 0x300 = take_bit 10 x AND NOT (mask 8)"
    unfolding m(1) by (simp add: take_bit_eq_mask and.assoc)
  then have "unat (x AND 0x300) = unat x mod 1024 - unat x mod 1024 mod 256"
    by (simp add: unat_and_not_mask unat_take_bit_word)
  moreover have "k - k mod 256 = 0 \<longleftrightarrow> k < 256" for k :: nat
    by (metis diff_is_0_eq le_antisym mod_less mod_less_divisor mod_less_eq_dividend zero_less_numeral)
  ultimately show "x AND 0x300 = 0 \<longleftrightarrow> unat x mod 1024 < 256"
    by (metis unat_eq_0)
  show "unat (x AND NOT 0x3ff) = unat x - unat x mod 1024"
    unfolding m(2) by (simp add: unat_and_not_mask)
qed

lemma unat_io_avoid:
  assumes "unat x + 1024 < 18446744073709551616"
  shows "unat (io_avoid r x) = skip_alias (is_io r) (unat x)"
proof -
  have vga: "\<not> (0x3b0 \<le> x \<and> x \<le> 0x3df)" if "unat x mod 1024 < 256"
    using that by (auto simp: word_le_nat_alt)
  have "unat ((x AND NOT 0x3ff) + 0x400) = unat x - unat x mod 1024 + 1024"
    using alias_bits(2) [of x] assms by (subst unat_plus_no_wrap) simp_all
  then show ?thesis
    using vga rup_1024 alias_bits(1) [of x] by (auto simp: io_avoid_def skip_alias_def)
qed

section \<open>The layout of a bus\<close>

definition place_pos :: "resource \<Rightarrow> nat \<Rightarrow> nat" where
  "place_pos r n = rup (res_align r) (skip_alias (is_io r) n)"

fun layout :: "store \<Rightarrow> nat list \<Rightarrow> nat \<Rightarrow> (nat \<times> nat) list" where
  "layout s [] n = []"
| "layout s (r # rs) n =
     (if res_size (s r) = 0 then layout s rs n
      else (r, place_pos (s r) n) # layout s rs (place_pos (s r) n + unat (res_size (s r))))"

fun layout_end :: "store \<Rightarrow> nat list \<Rightarrow> nat \<Rightarrow> nat" where
  "layout_end s [] n = n"
| "layout_end s (r # rs) n =
     (if res_size (s r) = 0 then layout_end s rs n
      else layout_end s rs (place_pos (s r) n + unat (res_size (s r))))"

text \<open>What a list of resources can take at most, holes included.\<close>

definition need :: "store \<Rightarrow> nat list \<Rightarrow> nat" where
  "need s rs = sum_list (map (\<lambda>r. unat (res_size (s r)) + 2 ^ res_align (s r) + 1024) rs)"

lemma need_simps [simp]:
  "need s [] = 0"
  "need s (r # rs) = unat (res_size (s r)) + 2 ^ res_align (s r) + 1024 + need s rs"
  by (simp_all add: need_def)

lemma skip_alias_bounds: "n \<le> skip_alias io n" "skip_alias io n \<le> n + 1024"
  using rup_ge [of n 10] rup_less [of 10 n] by (auto simp: skip_alias_def)

lemma place_pos_bounds:
  "n \<le> place_pos r n" "place_pos r n < n + 1024 + 2 ^ res_align r" "2 ^ res_align r dvd place_pos r n"
  using skip_alias_bounds [where n = n and io = "is_io r"] rup_ge [of "skip_alias (is_io r) n" "res_align r"]
    rup_less [of "res_align r" "skip_alias (is_io r) n"]
  by (simp_all add: place_pos_def)

lemma layout_end_bounds: "n \<le> layout_end s rs n \<and> layout_end s rs n \<le> n + need s rs"
proof (induction rs arbitrary: n)
  case (Cons r rs)
  show ?case using Cons [of n] Cons [of "place_pos (s r) n + unat (res_size (s r))"] place_pos_bounds [where n = n and r = "s r"] by auto
qed simp

lemma layout_ids: "(r, p) \<in> set (layout s rs n) \<Longrightarrow> r \<in> set rs \<and> res_size (s r) \<noteq> 0 \<and> 2 ^ res_align (s r) dvd p"
  by (induction rs arbitrary: n) (auto simp: place_pos_bounds split: if_splits)

lemma layout_complete: "r \<in> set rs \<Longrightarrow> res_size (s r) \<noteq> 0 \<Longrightarrow> \<exists>p. (r, p) \<in> set (layout s rs n)"
  by (induction rs arbitrary: n) auto

lemma layout_range: "(r, p) \<in> set (layout s rs n) \<Longrightarrow> n \<le> p \<and> p + unat (res_size (s r)) \<le> layout_end s rs n"
proof (induction rs arbitrary: n)
  case (Cons q rs)
  have "n \<le> place_pos (s q) n" by (rule place_pos_bounds)
  then show ?case
    using Cons.prems Cons.IH [of n] Cons.IH [of "place_pos (s q) n + unat (res_size (s q))"]
      layout_end_bounds [of "place_pos (s q) n + unat (res_size (s q))" s rs]
    by (fastforce split: if_splits)
qed simp

text \<open>Ranges of the layout do not overlap.\<close>

lemma layout_apart:
  assumes "(r, p) \<in> set (layout s rs n)" "(q, p') \<in> set (layout s rs n)" "r \<noteq> q"
  shows "p + unat (res_size (s r)) \<le> p' \<or> p' + unat (res_size (s q)) \<le> p"
  using assms
proof (induction rs arbitrary: n)
  case (Cons x rs)
  show ?case using Cons layout_range [of _ _ s rs "place_pos (s x) n + unat (res_size (s x))"]
    by (fastforce split: if_splits)
qed simp

lemma layout_unique:
  assumes "distinct rs" "(r, p) \<in> set (layout s rs n)" "(r, p') \<in> set (layout s rs n)"
  shows "p = p'"
  using assms
proof (induction rs arbitrary: n)
  case (Cons x rs)
  then show ?case using layout_ids [of _ _ s rs] by (auto split: if_splits)
qed simp

text \<open>A layout moves with its base, when the move respects the alignments.\<close>

definition aligned_move :: "store \<Rightarrow> nat list \<Rightarrow> nat \<Rightarrow> bool" where
  "aligned_move s rs B \<longleftrightarrow> (\<forall>r \<in> set rs. res_size (s r) \<noteq> 0 \<longrightarrow> 2 ^ res_align (s r) dvd B \<and> (is_io (s r) \<longrightarrow> 1024 dvd B))"

lemma layout_move:
  assumes "aligned_move s rs B"
  shows "layout s rs (B + n) = map (\<lambda>(r, p). (r, B + p)) (layout s rs n) \<and>
    layout_end s rs (B + n) = B + layout_end s rs n"
  using assms
proof (induction rs arbitrary: n)
  case (Cons r rs)
  have "place_pos (s r) (B + n) = B + place_pos (s r) n" if "res_size (s r) \<noteq> 0"
  proof -
    have B: "2 ^ res_align (s r) dvd B" "is_io (s r) \<longrightarrow> 1024 dvd B"
      using that Cons.prems by (auto simp: aligned_move_def)
    then have "skip_alias (is_io (s r)) (B + n) = B + skip_alias (is_io (s r)) n"
      using rup_shift [of 10 B n] by (auto simp: skip_alias_def mod_add_left_eq [symmetric, of B] dvd_eq_mod_eq_0)
    then show ?thesis using B(1) by (simp add: place_pos_def rup_shift)
  qed
  then show ?case
    using Cons.IH [of n] Cons.IH [of "place_pos (s r) n + unat (res_size (s r))"] Cons.prems
    by (auto simp: aligned_move_def add.assoc)
qed simp

end
