(* ===== verification/Allocator_Passes.thy ===== *)
theory Allocator_Passes
  imports Allocator_Layout
begin

text \<open>
  One bus in the two passes: the loops follow the layout.
\<close>

section \<open>The loop of the first pass\<close>

definition top_align :: "store \<Rightarrow> nat list \<Rightarrow> nat \<Rightarrow> nat" where
  "top_align s rs a = fold (\<lambda>r a. if res_size (s r) = 0 then a else max a (res_align (s r))) rs a"

definition low_limit :: "store \<Rightarrow> nat list \<Rightarrow> resource_t \<Rightarrow> resource_t" where
  "low_limit s rs l = fold (\<lambda>r l. if res_size (s r) = 0 then l else min l (res_limit (s r))) rs l"

lemma pow_bound: "2 ^ a < (18446744073709551616 :: nat) \<Longrightarrow> a < 64"
proof -
  assume "2 ^ a < (18446744073709551616 :: nat)"
  then have "(2::nat) ^ a < 2 ^ 64" by simp
  then show "a < 64" by (rule power_less_imp_less_exp [rotated]) simp
qed

lemma unat_place:
  assumes "unat base + unat (res_size r) + 2 ^ res_align r + 1024 < 18446744073709551616"
  shows "unat (round_pow (io_avoid r base) (res_align r)) = place_pos r (unat base)"
    and "unat (round_pow (io_avoid r base) (res_align r) + res_size r) = place_pos r (unat base) + unat (res_size r)"
proof -
  have io: "unat (io_avoid r base) = skip_alias (is_io r) (unat base)"
    using assms by (intro unat_io_avoid) linarith
  have "res_align r < 64" using assms by (intro pow_bound) linarith
  moreover have "unat (io_avoid r base) + 2 ^ res_align r \<le> 18446744073709551616"
    using assms skip_alias_bounds(2) [where n = "unat base" and io = "is_io r"] unfolding io by linarith
  ultimately show *: "unat (round_pow (io_avoid r base) (res_align r)) = place_pos r (unat base)"
    unfolding place_pos_def io [symmetric] by (rule unat_round_pow)
  show "unat (round_pow (io_avoid r base) (res_align r) + res_size r) = place_pos r (unat base) + unat (res_size r)"
    using assms place_pos_bounds(2) [where n = "unat base" and r = r]
    by (subst unat_plus_no_wrap) (simp_all add: *)
qed

lemma layout_cong:
  "\<forall>r \<in> set rs. res_size (s r) = res_size (s' r) \<and> res_align (s r) = res_align (s' r) \<and> is_io (s r) = is_io (s' r) \<Longrightarrow>
    layout s rs n = layout s' rs n \<and> layout_end s rs n = layout_end s' rs n"
  by (induction rs arbitrary: n) (auto simp: place_pos_def)

lemma need_cong:
  "\<forall>r \<in> set rs. res_size (s r) = res_size (s' r) \<and> res_align (s r) = res_align (s' r) \<Longrightarrow> need s rs = need s' rs"
  by (induction rs) auto

lemma top_align_cong:
  "\<forall>r \<in> set rs. res_size (s r) = res_size (s' r) \<and> res_align (s r) = res_align (s' r) \<Longrightarrow>
    top_align s rs a = top_align s' rs a"
  by (auto simp: top_align_def intro!: fold_cong)

lemma low_limit_cong:
  "\<forall>r \<in> set rs. res_size (s r) = res_size (s' r) \<and> res_limit (s r) = res_limit (s' r) \<Longrightarrow>
    low_limit s rs a = low_limit s' rs a"
  by (auto simp: low_limit_def intro!: fold_cong)

lemma compute_step:
  assumes "r \<noteq> br" "res_size (s r) \<noteq> 0"
  shows "compute_place br r (base, s) =
    (let p = round_pow (io_avoid (s r) base) (res_align (s r)) in (p + res_size (s r),
      s(br := (s br)\<lparr>res_align := max (res_align (s br)) (res_align (s r)), res_limit := min (res_limit (s br)) (res_limit (s r))\<rparr>,
        r := (s r)\<lparr>res_base := p\<rparr>)))"
proof -
  have "max a b = (if b > a then b else a)" "min x y = (if x > y then y else x)" for a b :: nat and x y :: resource_t
    by auto
  then show ?thesis using assms by (auto simp: compute_place_def Let_def fun_eq_iff)
qed

lemma compute_fold:
  assumes "distinct rs" "br \<notin> set rs" "unat base + need s rs < 18446744073709551616"
  shows "case fold (compute_place br) rs (base, s) of (base', s') \<Rightarrow>
    unat base' = layout_end s rs (unat base) \<and>
    (\<forall>i. i \<notin> set rs \<longrightarrow> i \<noteq> br \<longrightarrow> s' i = s i) \<and>
    (\<forall>r \<in> set rs. res_size (s r) = 0 \<longrightarrow> s' r = s r) \<and>
    (\<forall>(r, p) \<in> set (layout s rs (unat base)). s' r = (s r)\<lparr>res_base := word_of_nat p\<rparr>) \<and>
    s' br = (s br)\<lparr>res_align := top_align s rs (res_align (s br)), res_limit := low_limit s rs (res_limit (s br))\<rparr>"
  using assms
proof (induction rs arbitrary: base s)
  case Nil
  then show ?case by (simp add: top_align_def low_limit_def)
next
  case (Cons r rs)
  show ?case
  proof (cases "res_size (s r) = 0")
    case True
    then have "compute_place br r (base, s) = (base, s)" by (simp add: compute_place_def)
    then show ?thesis using Cons.IH [of base s] Cons.prems True
      by (auto simp: top_align_def low_limit_def split: prod.splits)
  next
    case False
    define p where "p = round_pow (io_avoid (s r) base) (res_align (s r))"
    define s1 where "s1 = s(br := (s br)\<lparr>res_align := max (res_align (s br)) (res_align (s r)),
      res_limit := min (res_limit (s br)) (res_limit (s r))\<rparr>, r := (s r)\<lparr>res_base := p\<rparr>)"
    have ne: "r \<noteq> br" "r \<notin> set rs" using Cons.prems by auto
    have st: "compute_place br r (base, s) = (p + res_size (s r), s1)"
      using compute_step [of r br s base] ne(1) False by (simp add: p_def s1_def Let_def)
    have u: "unat p = place_pos (s r) (unat base)" "unat (p + res_size (s r)) = place_pos (s r) (unat base) + unat (res_size (s r))"
      unfolding p_def using Cons.prems(3) by (intro unat_place; simp)+
    have same: "\<forall>i \<in> set rs. s1 i = s i" using ne Cons.prems by (auto simp: s1_def)
    then have cong: "layout s1 rs n = layout s rs n" "layout_end s1 rs n = layout_end s rs n" "need s1 rs = need s rs"
      "top_align s1 rs a = top_align s rs a" "low_limit s1 rs l = low_limit s rs l" for n a l
      using layout_cong [of rs s1 s] need_cong [of rs s1 s] top_align_cong [of rs s1 s] low_limit_cong [of rs s1 s] by auto
    have "unat (p + res_size (s r)) + need s1 rs < 18446744073709551616"
      using Cons.prems(3) u(2) place_pos_bounds(2) [where n = "unat base" and r = "s r"] by (simp add: cong)
    from Cons.IH [OF _ _ this] Cons.prems
    have "case fold (compute_place br) rs (p + res_size (s r), s1) of (base', s') \<Rightarrow>
      unat base' = layout_end s rs (unat (p + res_size (s r))) \<and>
      (\<forall>i. i \<notin> set rs \<longrightarrow> i \<noteq> br \<longrightarrow> s' i = s1 i) \<and>
      (\<forall>r \<in> set rs. res_size (s1 r) = 0 \<longrightarrow> s' r = s1 r) \<and>
      (\<forall>(q, p') \<in> set (layout s rs (unat (p + res_size (s r)))). s' q = (s1 q)\<lparr>res_base := word_of_nat p'\<rparr>) \<and>
      s' br = (s1 br)\<lparr>res_align := top_align s rs (res_align (s1 br)), res_limit := low_limit s rs (res_limit (s1 br))\<rparr>"
      by (simp add: cong)
    moreover obtain base' s' where f: "fold (compute_place br) rs (p + res_size (s r), s1) = (base', s')" by fastforce
    ultimately have IH: "unat base' = layout_end s rs (unat (p + res_size (s r)))"
      "\<forall>i. i \<notin> set rs \<longrightarrow> i \<noteq> br \<longrightarrow> s' i = s1 i" "\<forall>r \<in> set rs. res_size (s1 r) = 0 \<longrightarrow> s' r = s1 r"
      "\<forall>(q, p') \<in> set (layout s rs (unat (p + res_size (s r)))). s' q = (s1 q)\<lparr>res_base := word_of_nat p'\<rparr>"
      "s' br = (s1 br)\<lparr>res_align := top_align s rs (res_align (s1 br)), res_limit := low_limit s rs (res_limit (s1 br))\<rparr>"
      by simp_all
    have s1: "s1 r = (s r)\<lparr>res_base := word_of_nat (place_pos (s r) (unat base))\<rparr>"
      "s1 br = (s br)\<lparr>res_align := max (res_align (s br)) (res_align (s r)), res_limit := min (res_limit (s br)) (res_limit (s r))\<rparr>"
      "\<forall>i. i \<noteq> r \<longrightarrow> i \<noteq> br \<longrightarrow> s1 i = s i"
      using ne(1) by (simp_all add: s1_def flip: u(1))
    have "\<forall>i. i \<notin> set (r # rs) \<longrightarrow> i \<noteq> br \<longrightarrow> s' i = s i" using IH(2) s1(3) by auto
    moreover have "\<forall>q \<in> set (r # rs). res_size (s q) = 0 \<longrightarrow> s' q = s q" using IH(3) same False by auto
    moreover have "\<forall>(q, p') \<in> set (layout s (r # rs) (unat base)). s' q = (s q)\<lparr>res_base := word_of_nat p'\<rparr>"
    proof -
      have "s' q = (s q)\<lparr>res_base := word_of_nat p'\<rparr>"
        if "(q, p') \<in> set (layout s rs (unat (p + res_size (s r))))" for q p'
        using bspec [OF IH(4) that] layout_ids [OF that] same by simp
      moreover have "s' r = (s r)\<lparr>res_base := word_of_nat (place_pos (s r) (unat base))\<rparr>" using IH(2) ne s1(1) by simp
      ultimately show ?thesis using False by (auto simp: u(2))
    qed
    moreover have "s' br = (s br)\<lparr>res_align := top_align s (r # rs) (res_align (s br)),
        res_limit := low_limit s (r # rs) (res_limit (s br))\<rparr>"
      using IH(5) False by (simp add: s1(2) top_align_def low_limit_def)
    moreover have "unat base' = layout_end s (r # rs) (unat base)" using IH(1) False by (simp add: u(2))
    ultimately show ?thesis by (simp only: fold_simps st f prod.case)
  qed
qed

section \<open>The loop of the second pass\<close>

definition assigned_at :: "resource \<Rightarrow> nat \<Rightarrow> resource" where
  "assigned_at r p = r\<lparr>res_base := word_of_nat p, res_limit := word_of_nat (p + unat (res_size r) - 1),
     res_flags := (res_flags r OR IORESOURCE_ASSIGNED) AND NOT IORESOURCE_STORED\<rparr>"

lemma word_of_unat: "unat x = n \<Longrightarrow> x = word_of_nat n" for x :: resource_t
  by (metis of_nat_unat ucast_id)

lemma io_avoid_limit [simp]: "io_avoid (r\<lparr>res_limit := l\<rparr>) = io_avoid r"
  by (simp add: io_avoid_def fun_eq_iff)

lemma alloc_step:
  assumes "r \<noteq> br" "res_size (s r) \<noteq> 0"
    "unat base + unat (res_size (s r)) + 2 ^ res_align (s r) + 1024 < 18446744073709551616"
    "place_pos (s r) (unat base) + unat (res_size (s r)) \<le> Suc (unat (min (res_limit (s r)) (res_limit (s br))))"
  shows "alloc_place br r (base, s) = (word_of_nat (place_pos (s r) (unat base) + unat (res_size (s r))),
      s(r := assigned_at (s r) (place_pos (s r) (unat base))))"
proof -
  let ?b = "round_pow (io_avoid (s r) base) (res_align (s r))" and ?p = "place_pos (s r) (unat base)"
  note u = unat_place [OF assms(3)]
  have b: "?b = word_of_nat ?p" "?b + res_size (s r) = word_of_nat (?p + unat (res_size (s r)))"
    using word_of_unat [OF u(1)] word_of_unat [OF u(2)] by simp_all
  have pos: "0 < unat (res_size (s r))" using assms(2) by (simp add: unat_gt_0)
  then have "?b + res_size (s r) \<noteq> 0" using u(2) by (metis add_gr_0 less_numeral_extra(3) unat_0)
  then have e: "unat (?b + res_size (s r) - 1) = ?p + unat (res_size (s r)) - 1"
    using u(2) by (simp add: unat_minus_one)
  then have e': "?b + res_size (s r) - 1 = word_of_nat (?p + unat (res_size (s r)) - 1)"
    by (rule word_of_unat)
  have "?b + res_size (s r) - 1 \<le> min (res_limit (s r)) (res_limit (s br))"
    using assms(4) pos unfolding word_le_nat_alt e by linarith
  then have le: "?b + res_size (s r) - 1 \<le> res_limit (s r)" "?b + res_size (s r) - 1 \<le> res_limit (s br)" by simp_all
  have "alloc_place br r (base, s) = (?b + res_size (s r), s(r := (s r)\<lparr>res_base := ?b,
      res_limit := ?b + res_size (s r) - 1, res_flags := (res_flags (s r) OR IORESOURCE_ASSIGNED) AND NOT IORESOURCE_STORED\<rparr>))"
    using assms(1,2) le by (cases "res_limit (s r) > res_limit (s br)") (simp_all add: alloc_place_def Let_def)
  then show ?thesis unfolding assigned_at_def e' unfolding b(2) unfolding b(1) .
qed

definition empty_at :: "resource \<Rightarrow> resource_t \<Rightarrow> resource" where
  "empty_at r l = r\<lparr>res_limit := min (res_limit r) l, res_base := min (res_limit r) l,
     res_flags := res_flags r OR IORESOURCE_ASSIGNED\<rparr>"

lemma alloc_empty:
  assumes "r \<noteq> br" "res_size (s r) = 0"
  shows "alloc_place br r (base, s) = (base, s(r := empty_at (s r) (res_limit (s br))))"
proof -
  have "min x y = (if x > y then y else x)" for x y :: resource_t by auto
  then show ?thesis using assms by (auto simp: alloc_place_def Let_def empty_at_def fun_eq_iff)
qed

lemma alloc_fold:
  assumes "distinct rs" "br \<notin> set rs" "unat base + need s rs < 18446744073709551616"
    "\<forall>(r, p) \<in> set (layout s rs (unat base)). p + unat (res_size (s r)) \<le> Suc (unat (min (res_limit (s r)) (res_limit (s br))))"
  shows "case fold (alloc_place br) rs (base, s) of (base', s') \<Rightarrow>
    (\<forall>i. i \<notin> set rs \<longrightarrow> s' i = s i) \<and>
    (\<forall>r \<in> set rs. res_size (s r) = 0 \<longrightarrow> s' r = empty_at (s r) (res_limit (s br))) \<and>
    (\<forall>(r, p) \<in> set (layout s rs (unat base)). s' r = assigned_at (s r) p)"
  using assms
proof (induction rs arbitrary: base s)
  case (Cons r rs)
  have ne: "r \<noteq> br" "r \<notin> set rs" "distinct rs" "br \<notin> set rs" using Cons.prems by auto
  show ?case
  proof (cases "res_size (s r) = 0")
    case True
    define s1 where "s1 = s(r := empty_at (s r) (res_limit (s br)))"
    have same: "\<forall>i. i \<noteq> r \<longrightarrow> s1 i = s i" by (simp add: s1_def)
    then have on: "\<forall>q \<in> set rs. s1 q = s q" using ne(2) by metis
    then have cong: "layout s1 rs n = layout s rs n" "need s1 rs = need s rs" for n
      using layout_cong [of rs s1 s] need_cong [of rs s1 s] on by simp_all
    have "\<forall>(q, p) \<in> set (layout s1 rs (unat base)). p + unat (res_size (s1 q)) \<le> Suc (unat (min (res_limit (s1 q)) (res_limit (s1 br))))"
      using Cons.prems(4) True layout_ids same ne by (fastforce simp: cong)
    from Cons.IH [OF ne(3,4) _ this] Cons.prems(3)
    obtain base' s' where f: "fold (alloc_place br) rs (base, s1) = (base', s')" and
      IH: "\<forall>i. i \<notin> set rs \<longrightarrow> s' i = s1 i" "\<forall>q \<in> set rs. res_size (s1 q) = 0 \<longrightarrow> s' q = empty_at (s1 q) (res_limit (s1 br))"
      "\<forall>(q, p) \<in> set (layout s rs (unat base)). s' q = assigned_at (s1 q) p"
      by (simp add: cong split: prod.splits)
    have "\<forall>(q, p) \<in> set (layout s rs (unat base)). s' q = assigned_at (s q) p"
      using IH(3) layout_ids same ne(2) by fastforce
    moreover have "s' r = empty_at (s r) (res_limit (s br))" using IH(1) ne(2) by (simp add: s1_def)
    ultimately show ?thesis
      using IH(1,2) same ne True using alloc_empty [of r br s base, folded s1_def] by (auto simp: f)
  next
    case False
    let ?p = "place_pos (s r) (unat base)"
    define s1 where "s1 = s(r := assigned_at (s r) ?p)"
    define base1 :: resource_t where "base1 = word_of_nat (?p + unat (res_size (s r)))"
    have fit: "?p + unat (res_size (s r)) \<le> Suc (unat (min (res_limit (s r)) (res_limit (s br))))"
      using Cons.prems(4) False by simp
    have b: "unat base + unat (res_size (s r)) + 2 ^ res_align (s r) + 1024 < 18446744073709551616"
      using Cons.prems(3) by simp
    have st: "alloc_place br r (base, s) = (base1, s1)"
      unfolding base1_def s1_def using ne(1) False b fit by (rule alloc_step)
    have "?p + unat (res_size (s r)) < 18446744073709551616"
      using b place_pos_bounds(2) [where n = "unat base" and r = "s r"] by linarith
    then have u: "unat base1 = ?p + unat (res_size (s r))" unfolding base1_def unat_of_nat by (simp only: mod_less len_num1 len_bit0 power_numeral semiring_norm) simp
    have same: "\<forall>i. i \<noteq> r \<longrightarrow> s1 i = s i" by (simp add: s1_def)
    then have on: "\<forall>q \<in> set rs. s1 q = s q" using ne(2) by metis
    then have cong: "layout s1 rs n = layout s rs n" "need s1 rs = need s rs" for n
      using layout_cong [of rs s1 s] need_cong [of rs s1 s] on by simp_all
    have "\<forall>(q, p) \<in> set (layout s1 rs (unat base1)). p + unat (res_size (s1 q)) \<le> Suc (unat (min (res_limit (s1 q)) (res_limit (s1 br))))"
      using Cons.prems(4) False layout_ids same ne by (fastforce simp: cong u)
    moreover have "unat base1 + need s1 rs < 18446744073709551616"
      using Cons.prems(3) place_pos_bounds(2) [where n = "unat base" and r = "s r"] by (simp add: cong u)
    ultimately obtain base' s' where f: "fold (alloc_place br) rs (base1, s1) = (base', s')" and
      IH: "\<forall>i. i \<notin> set rs \<longrightarrow> s' i = s1 i" "\<forall>q \<in> set rs. res_size (s1 q) = 0 \<longrightarrow> s' q = empty_at (s1 q) (res_limit (s1 br))"
      "\<forall>(q, p) \<in> set (layout s rs (unat base1)). s' q = assigned_at (s1 q) p"
      using Cons.IH [OF ne(3,4), of base1 s1] by (simp add: cong split: prod.splits)
    have "\<forall>(q, p) \<in> set (layout s rs (unat base1)). s' q = assigned_at (s q) p"
      using IH(3) layout_ids same ne(2) by fastforce
    moreover have "s' r = assigned_at (s r) ?p" using IH(1) ne(2) by (simp add: s1_def)
    ultimately show ?thesis
      using IH(1,2) same ne False by (auto simp: st f u)
  qed
qed simp

end
