(* ===== verification/Allocator_Tree.thy ===== *)
theory Allocator_Tree
  imports Allocator_Passes
begin

text \<open>
  The two passes on the whole tree: what the first one computes for every bridge is enough
  for the second one to place everything behind it.
\<close>

section \<open>The passes as a walk over the bridges of a bus\<close>

definition same_types :: "store \<Rightarrow> store \<Rightarrow> bool" where
  "same_types s s' \<longleftrightarrow> (\<forall>i. same_type (s i) (s' i))"

lemma same_types_refl [simp]: "same_types s s"
  by (simp add: same_types_def)

lemma same_types_trans: "same_types a b \<Longrightarrow> same_types b c \<Longrightarrow> same_types a c"
  unfolding same_types_def using same_type_trans by blast

definition dev_links :: "u32 \<Rightarrow> u32 \<Rightarrow> store \<Rightarrow> dev \<Rightarrow> (nat \<times> dev bus option) list" where
  "dev_links m t s d = (if link_list d = [] then [] else
     map (\<lambda>r. (r, find_link (IOINDEX_LINK (res_index (s r))) (link_list d)))
       (filter (\<lambda>r. res_flags (s r) AND IORESOURCE_BRIDGE \<noteq> 0 \<and> res_flags (s r) AND m = t) (resources d)))"

definition bus_links :: "u32 \<Rightarrow> u32 \<Rightarrow> store \<Rightarrow> dev bus \<Rightarrow> (nat \<times> dev bus option) list" where
  "bus_links m t s b = concat (map (dev_links m t s) (children b))"

definition sub_mask :: "u32 \<Rightarrow> u32" where
  "sub_mask m = m OR IORESOURCE_PREFETCH"

definition sub_type :: "u32 \<Rightarrow> resource \<Rightarrow> u32" where
  "sub_type t r = t OR (res_flags r AND IORESOURCE_PREFETCH)"

fun through :: "(dev bus \<Rightarrow> nat \<Rightarrow> store \<Rightarrow> store option) \<Rightarrow> (nat \<times> dev bus option) list \<Rightarrow> store \<Rightarrow> store option" where
  "through f [] s = Some s"
| "through f ((r, None) # ls) s = None"
| "through f ((r, Some l) # ls) s = Option.bind (f l r s) (through f ls)"

lemma through_append: "through f (xs @ ys) s = Option.bind (through f xs s) (through f ys)"
  by (induction f xs s rule: through.induct) (auto split: bind_split)

lemma same_types_cong:
  assumes "type_bits m" "same_types s s'"
  shows "dev_links m t s d = dev_links m t s' d" "bus_links m t s b = bus_links m t s' b"
    "bus_items m t s b = bus_items m t s' b" "sub_type t (s r) = sub_type t (s' r)"
proof -
  have f: "res_flags (s r) AND m = res_flags (s' r) AND m" "res_index (s r) = res_index (s' r)"
      "(res_flags (s r) AND IORESOURCE_BRIDGE) = (res_flags (s' r) AND IORESOURCE_BRIDGE)"
      "(res_flags (s r) AND IORESOURCE_PREFETCH) = (res_flags (s' r) AND IORESOURCE_PREFETCH)" for r
    using assms same_type_flags type_bits_simps unfolding same_types_def same_type_def by blast+
  show "dev_links m t s d = dev_links m t s' d" for d unfolding dev_links_def f ..
  then have "dev_links m t s = dev_links m t s'" ..
  then show "bus_links m t s b = bus_links m t s' b" unfolding bus_links_def by simp
  show "bus_items m t s b = bus_items m t s' b"
    by (rule bus_items_cong [OF assms(1)]) (use assms(2) in \<open>simp add: same_types_def\<close>)
  show "sub_type t (s r) = sub_type t (s' r)" unfolding sub_type_def f ..
qed

lemma type_bits_sub [simp]: "type_bits (sub_mask m) \<longleftrightarrow> type_bits m"
  by (simp add: sub_mask_def)

lemma largest_loop_inv:
  assumes "largest_loop place b m t res bs = Some bs'" "P bs" "\<And>r bs. P bs \<Longrightarrow> P (place r bs)"
  shows "P bs'"
  using assms
proof (induction rule: largest_loop.raw_induct [rotated 1, consumes 1, case_names step])
  case (step loop place' b' m' t' res' bs0 bs1)
  show ?case
  proof (cases "largest_resource b' res' m' t' (snd bs0)")
    case None
    then show ?thesis using step by simp
  next
    case (Some p)
    then have "loop place' b' m' t' (Some (snd p)) (place' (snd p) bs0) = Some bs1"
      using step.hyps by (simp add: case_prod_beta)
    then show ?thesis by (rule step.IH [OF _ step.prems(2) [OF step.prems(1)] step.prems(2)])
  qed
qed

lemma same_types_upd: "same_types s s' \<Longrightarrow> same_type (s' r) x \<Longrightarrow> same_types s (s'(r := x))"
  by (auto simp: same_types_def intro: same_type_trans)

lemma compute_place_types: "same_types s (snd (compute_place br r (base, s)))"
  by (auto simp: compute_place_def Let_def intro!: same_types_upd) (simp_all add: same_type_def)

lemma flags_masked:
  "(f OR IORESOURCE_ASSIGNED) AND NOT IORESOURCE_ASSIGNED AND NOT IORESOURCE_STORED =
     f AND NOT IORESOURCE_ASSIGNED AND NOT IORESOURCE_STORED"
  "((f OR IORESOURCE_ASSIGNED) AND NOT IORESOURCE_STORED) AND NOT IORESOURCE_ASSIGNED AND NOT IORESOURCE_STORED =
     f AND NOT IORESOURCE_ASSIGNED AND NOT IORESOURCE_STORED"
  by (rule bit_eqI; auto simp: bit_simps)+

lemma alloc_place_types: "same_types s (snd (alloc_place br r (base, s)))"
  by (auto simp: alloc_place_def Let_def intro!: same_types_upd) (simp_all add: same_type_def flags_masked)

lemma loop_types:
  assumes "largest_loop place b m t res (base, s) = Some (base', s')" "\<And>r base s. same_types s (snd (place r (base, s)))"
  shows "same_types s s'"
  using largest_loop_inv [OF assms(1), of "\<lambda>bs. same_types s (snd bs)"] assms(2) same_types_trans
  by (metis prod.collapse same_types_refl snd_conv)

lemma compute_types:
  shows "compute_resources b br m t s = Some s' \<Longrightarrow> same_types s s'"
    and "compute_devices ds m t s = Some s' \<Longrightarrow> same_types s s'"
    and "compute_bridges d rs m t s = Some s' \<Longrightarrow> same_types s s'"
proof (induction b br m t s and ds m t s and d rs m t s arbitrary: s' and s' and s'
    rule: compute_resources_compute_devices_compute_bridges.induct)
  case (1 b br m t s)
  then obtain s1 base2 s2 v where c: "compute_devices (children b) m t s = Some s1"
    "largest_loop (compute_place br) b m t None (round_pow (res_base (s br)) (res_align (s br)), s1) = Some (base2, s2)"
    "s' = s2(br := (s2 br)\<lparr>res_size := v\<rparr>)"
    by (auto simp: Let_def bind_eq_Some_conv)
  have "same_types s2 s'" unfolding c(3) by (rule same_types_upd) (simp_all add: same_type_def)
  then show ?case
    using "1.IH" [OF refl c(1)] loop_types [OF c(2) compute_place_types] by (blast intro: same_types_trans)
next
  case (3 d ds m t s)
  then show ?case by (auto simp: bind_eq_Some_conv split: if_splits intro: same_types_trans)
next
  case (5 d r rs m t s)
  then show ?case by (auto simp del: compute_resources.simps simp: bind_eq_Some_conv split: if_splits option.splits) (blast intro: same_types_trans)+
qed simp_all

lemma allocate_types:
  shows "allocate_resources b br m t s = Some s' \<Longrightarrow> same_types s s'"
    and "allocate_devices ds m t s = Some s' \<Longrightarrow> same_types s s'"
    and "allocate_bridges d rs m t s = Some s' \<Longrightarrow> same_types s s'"
proof (induction b br m t s and ds m t s and d rs m t s arbitrary: s' and s' and s'
    rule: allocate_resources_allocate_devices_allocate_bridges.induct)
  case (1 b br m t s)
  then obtain base2 s2 where l: "largest_loop (alloc_place br) b m t None (res_base (s br), s) = Some (base2, s2)"
    "allocate_devices (children b) m t (s2(br := (s2 br)\<lparr>res_flags := res_flags (s2 br) OR IORESOURCE_ASSIGNED\<rparr>)) = Some s'"
    by (auto simp: bind_eq_Some_conv)
  moreover have "same_types s2 (s2(br := (s2 br)\<lparr>res_flags := res_flags (s2 br) OR IORESOURCE_ASSIGNED\<rparr>))"
    by (intro same_types_upd) (simp_all add: same_type_def flags_masked)
  ultimately show ?case
    using "1.IH" [OF _ refl l(2)] loop_types [OF l(1) alloc_place_types] by (blast intro: same_types_trans)
next
  case (3 d ds m t s)
  then show ?case by (auto simp: bind_eq_Some_conv split: if_splits intro: same_types_trans)
next
  case (5 d r rs m t s)
  then show ?case by (auto simp del: allocate_resources.simps simp: bind_eq_Some_conv split: if_splits option.splits) (blast intro: same_types_trans)+
qed simp_all

lemma dev_links_cong: "type_bits m \<Longrightarrow> same_types s s' \<Longrightarrow> concat (map (dev_links m t s) ds) = concat (map (dev_links m t s') ds)"
  using same_types_cong(1) by (intro arg_cong [of _ _ concat] map_cong refl) blast

section \<open>Which resources a pass touches\<close>

definition touched :: "u32 \<Rightarrow> u32 \<Rightarrow> store \<Rightarrow> dev bus \<Rightarrow> nat set" where
  "touched m t s b = {i \<in> set (bus_ids b). res_flags (s i) AND m = t}"

fun zone :: "u32 \<Rightarrow> u32 \<Rightarrow> store \<Rightarrow> nat \<times> dev bus option \<Rightarrow> nat set" where
  "zone m t s (r, None) = {r}"
| "zone m t s (r, Some l) = insert r (touched (sub_mask m) (sub_type t (s r)) s l)"

lemma touched_cong:
  assumes "type_bits m" "same_types s s'"
  shows "touched m t s b = touched m t s' b"
proof -
  have "res_flags (s i) AND m = res_flags (s' i) AND m" for i
    using assms same_type_flags unfolding same_types_def by blast
  then show ?thesis by (simp add: touched_def)
qed

lemma zone_cong: "type_bits m \<Longrightarrow> same_types s s' \<Longrightarrow> zone m t s x = zone m t s' x"
  using touched_cong [of "sub_mask m" s s'] same_types_cong(4) [of m s s' t]
  by (cases "(m, t, s, x)" rule: zone.cases) auto

lemma bus_links_member:
  assumes "(r, lo) \<in> set (bus_links m t s b)"
  shows "r \<in> touched m t s b" "res_flags (s r) AND m = t"
    "lo = Some l \<Longrightarrow> set (bus_ids l) \<subseteq> set (bus_ids b)"
proof -
  obtain d where d: "d \<in> set (children b)" "(r, lo) \<in> set (dev_links m t s d)"
    using assms by (auto simp: bus_links_def)
  then have r: "r \<in> set (resources d)" "res_flags (s r) AND m = t" "lo = find_link (IOINDEX_LINK (res_index (s r))) (link_list d)"
    by (auto simp: dev_links_def split: if_splits)
  have sub: "set (dev_ids d) \<subseteq> set (bus_ids b)" using d(1) by (auto simp: bus_ids_def)
  moreover have "r \<in> set (dev_ids d)" using r(1) by (simp add: dev_ids_links)
  ultimately have "r \<in> set (bus_ids b)" by blast
  then show "r \<in> touched m t s b" "res_flags (s r) AND m = t" using r(2) by (simp_all add: touched_def)
  show "set (bus_ids l) \<subseteq> set (bus_ids b)" if "lo = Some l"
    using find_link_ids [of _ d l] sub r(3) that by (metis subset_trans)
qed

lemma sub_type_matches:
  assumes "f AND m = t" "x AND sub_mask m = t OR (f AND IORESOURCE_PREFETCH)"
  shows "x AND m = t"
proof -
  have "x AND m = (x AND sub_mask m) AND m"
    unfolding sub_mask_def by (rule bit_eqI) (auto simp only: bit_and_iff bit_or_iff)
  also have "\<dots> = t"
    unfolding assms(2) assms(1) [symmetric] by (rule bit_eqI) (auto simp only: bit_and_iff bit_or_iff)
  finally show ?thesis .
qed

lemma zone_touched:
  assumes "(r, lo) \<in> set (bus_links m t s b)"
  shows "zone m t s (r, lo) \<subseteq> touched m t s b"
proof (cases lo)
  case None
  then show ?thesis using bus_links_member(1) [OF assms] by simp
next
  case (Some l)
  have "x AND m = t" if "x AND sub_mask m = sub_type t (s r)" for x
    using sub_type_matches [OF bus_links_member(2) [OF assms]] that by (simp add: sub_type_def)
  then show ?thesis
    using Some bus_links_member [OF assms] by (auto simp: touched_def)
qed

lemma through_types:
  assumes "\<forall>l r s s'. f l r s = Some s' \<longrightarrow> same_types s s'"
  shows "through f ls s = Some s' \<Longrightarrow> same_types s s'"
proof (induction ls arbitrary: s)
  case (Cons x ls)
  obtain r lo where x: "x = (r, lo)" by fastforce
  obtain l where "lo = Some l" using Cons.prems x by (cases lo) simp_all
  then obtain s1 where s1: "f l r s = Some s1" "through f ls s1 = Some s'"
    using Cons.prems x by (auto simp: bind_eq_Some_conv)
  show ?case by (rule same_types_trans [OF _ Cons.IH [OF s1(2)]]) (use assms s1(1) in blast)
qed simp

text \<open>
  A walk over bridges with disjoint zones does for every bridge what the pass does for it
  alone, and nothing outside the zones.
\<close>

lemma through_run:
  assumes "\<forall>l r s s'. f l r s = Some s' \<longrightarrow> same_types s s'"
    and "\<And>r l s0. (r, Some l) \<in> set ls \<Longrightarrow> same_types s s0 \<Longrightarrow> \<forall>i \<in> Z (r, Some l). s0 i = s i \<Longrightarrow>
      \<exists>s1. f l r s0 = Some s1 \<and> (\<forall>i. i \<notin> Z (r, Some l) \<longrightarrow> s1 i = s0 i) \<and> Q r l s1"
    and "\<And>r l s1 s2. (r, Some l) \<in> set ls \<Longrightarrow> Q r l s1 \<Longrightarrow> same_types s1 s2 \<Longrightarrow>
      \<forall>i \<in> Z (r, Some l). s2 i = s1 i \<Longrightarrow> Q r l s2"
    and "sorted_wrt (\<lambda>x y. Z x \<inter> Z y = {}) ls" "\<forall>(r, lo) \<in> set ls. lo \<noteq> None"
    and "same_types s s0" "\<forall>x \<in> set ls. \<forall>i \<in> Z x. s0 i = s i"
  shows "\<exists>s1. through f ls s0 = Some s1 \<and> (\<forall>i. (\<forall>x \<in> set ls. i \<notin> Z x) \<longrightarrow> s1 i = s0 i) \<and>
    (\<forall>r l. (r, Some l) \<in> set ls \<longrightarrow> Q r l s1)"
  using assms(2-)
proof (induction ls arbitrary: s0)
  case (Cons x ls)
  obtain r l where x: "x = (r, Some l)" using Cons.prems(4) by (cases x) auto
  obtain s1 where s1: "f l r s0 = Some s1" "\<forall>i. i \<notin> Z x \<longrightarrow> s1 i = s0 i" "Q r l s1"
    using Cons.prems(1) [of r l s0] Cons.prems(5,6) unfolding x by auto
  have ty: "same_types s0 s1" using s1(1) assms(1) by blast
  have dis: "Z x \<inter> Z y = {}" if "y \<in> set ls" for y using Cons.prems(3) that by simp
  have "\<forall>y \<in> set ls. \<forall>i \<in> Z y. s1 i = s i"
  proof (intro ballI)
    fix y i assume y: "y \<in> set ls" "i \<in> Z y"
    then have "i \<notin> Z x" using dis [OF y(1)] by blast
    then show "s1 i = s i" using s1(2) Cons.prems(6) y by auto
  qed
  moreover have "same_types s s1" using Cons.prems(5) ty by (rule same_types_trans)
  moreover have "sorted_wrt (\<lambda>x y. Z x \<inter> Z y = {}) ls" "\<forall>(r, lo) \<in> set ls. lo \<noteq> None"
    using Cons.prems(3,4) by simp_all
  ultimately have "\<exists>s2. through f ls s1 = Some s2 \<and> (\<forall>i. (\<forall>x \<in> set ls. i \<notin> Z x) \<longrightarrow> s2 i = s1 i) \<and>
    (\<forall>r l. (r, Some l) \<in> set ls \<longrightarrow> Q r l s2)"
  proof (elim Cons.IH [rotated -1])
    fix q k s' assume "(q, Some k) \<in> set ls" "same_types s s'" "\<forall>i \<in> Z (q, Some k). s' i = s i"
    then show "\<exists>s1. f k q s' = Some s1 \<and> (\<forall>i. i \<notin> Z (q, Some k) \<longrightarrow> s1 i = s' i) \<and> Q q k s1"
      by (intro Cons.prems(1)) simp_all
  next
    fix q k s' s'' assume "(q, Some k) \<in> set ls" "Q q k s'" "same_types s' s''" "\<forall>i \<in> Z (q, Some k). s'' i = s' i"
    then show "Q q k s''" by (intro Cons.prems(2) [of q k s' s'']) simp_all
  qed
  then obtain s2 where s2: "through f ls s1 = Some s2"
      "\<forall>i. (\<forall>x \<in> set ls. i \<notin> Z x) \<longrightarrow> s2 i = s1 i" "\<forall>r l. (r, Some l) \<in> set ls \<longrightarrow> Q r l s2"
    by blast
  have "Q r l s2"
  proof (rule Cons.prems(2) [OF _ s1(3)])
    show "(r, Some l) \<in> set (x # ls)" using x by simp
    show "same_types s1 s2" by (rule through_types [OF assms(1) s2(1)])
    show "\<forall>i \<in> Z (r, Some l). s2 i = s1 i"
    proof
      fix i assume "i \<in> Z (r, Some l)"
      then have "\<forall>y \<in> set ls. i \<notin> Z y" using dis x by blast
      then show "s2 i = s1 i" using s2(2) by blast
    qed
  qed
  then have "\<forall>r l. (r, Some l) \<in> set (x # ls) \<longrightarrow> Q r l s2" using s2(3) x by auto
  moreover have "\<forall>i. (\<forall>y \<in> set (x # ls). i \<notin> Z y) \<longrightarrow> s2 i = s0 i" using s1(2) s2(2) by simp
  moreover have "through f (x # ls) s0 = Some s2" unfolding x through.simps s1(1) by (simp add: s2(1))
  ultimately show ?case by blast
qed simp

text \<open>Both passes walk the bridges in the same way: a contract they share.\<close>

locale bus_pass =
  fixes pass :: "dev bus \<Rightarrow> nat \<Rightarrow> u32 \<Rightarrow> u32 \<Rightarrow> store \<Rightarrow> store option"
    and pass_devices :: "dev list \<Rightarrow> u32 \<Rightarrow> u32 \<Rightarrow> store \<Rightarrow> store option"
    and pass_bridges :: "dev \<Rightarrow> nat list \<Rightarrow> u32 \<Rightarrow> u32 \<Rightarrow> store \<Rightarrow> store option"
  assumes types: "pass b br m t s = Some s' \<Longrightarrow> same_types s s'"
    and devices: "pass_devices [] m t s = Some s"
      "pass_devices (d # ds) m t s = (if link_list d = [] then pass_devices ds m t s
        else Option.bind (pass_bridges d (resources d) m t s) (pass_devices ds m t))"
    and bridges: "pass_bridges d [] m t s = Some s"
      "pass_bridges d (r # rs) m t s =
        (if res_flags (s r) AND IORESOURCE_BRIDGE = 0 \<or> res_flags (s r) AND m \<noteq> t then pass_bridges d rs m t s
         else case find_link (IOINDEX_LINK (res_index (s r))) (link_list d) of None \<Rightarrow> None
           | Some l \<Rightarrow> Option.bind (pass l r (sub_mask m) (sub_type t (s r)) s) (pass_bridges d rs m t))"
begin

definition sub_pass :: "u32 \<Rightarrow> u32 \<Rightarrow> dev bus \<Rightarrow> nat \<Rightarrow> store \<Rightarrow> store option" where
  "sub_pass m t l r s = pass l r (sub_mask m) (sub_type t (s r)) s"

lemma sub_pass_types: "\<forall>l r s s'. sub_pass m t l r s = Some s' \<longrightarrow> same_types s s'"
  unfolding sub_pass_def using types by blast

lemma bridges_through:
  assumes "type_bits m" "link_list d \<noteq> []"
  shows "pass_bridges d rs m t s = through (sub_pass m t) (dev_links m t s (Dev True True rs (link_list d))) s"
proof (induction rs arbitrary: s)
  case Nil
  then show ?case by (simp add: bridges dev_links_def)
next
  case (Cons r rs)
  let ?d = "\<lambda>rs. Dev True True rs (link_list d)"
  have "pass_bridges d rs m t s' = through (sub_pass m t) (dev_links m t s (?d rs)) s'"
    if "sub_pass m t l r s = Some s'" for l s'
  proof -
    have "same_types s s'" using that unfolding sub_pass_def by (rule types)
    then show ?thesis using Cons [of s'] same_types_cong(1) [OF assms(1)] by simp
  qed
  then have "Option.bind (sub_pass m t l r s) (pass_bridges d rs m t) =
      Option.bind (sub_pass m t l r s) (through (sub_pass m t) (dev_links m t s (?d rs)))" for l
    by (cases "sub_pass m t l r s") simp_all
  then show ?case
    using Cons [of s] assms(2)
    by (auto simp: bridges(2) [folded sub_pass_def] dev_links_def split: option.split)
qed

lemma devices_through:
  assumes "type_bits m"
  shows "pass_devices ds m t s = through (sub_pass m t) (concat (map (dev_links m t s) ds)) s"
proof (induction ds arbitrary: s)
  case (Cons d ds)
  show ?case
  proof (cases "link_list d = []")
    case True
    then show ?thesis using Cons by (simp add: devices dev_links_def)
  next
    case False
    then have b: "pass_bridges d (resources d) m t s = through (sub_pass m t) (dev_links m t s d) s"
      using bridges_through [OF assms] by (simp add: dev_links_def)
    have "pass_devices ds m t s' = through (sub_pass m t) (concat (map (dev_links m t s) ds)) s'"
      if "through (sub_pass m t) (dev_links m t s d) s = Some s'" for s'
      using Cons [of s'] dev_links_cong [OF assms through_types [OF sub_pass_types that]] by simp
    then show ?thesis
      using False b by (cases "through (sub_pass m t) (dev_links m t s d) s") (simp_all add: devices through_append)
  qed
qed (simp add: devices)

lemmas links_run = through_run [where f = "sub_pass m t" and Z = "zone m t s" and s = s for m t s, OF sub_pass_types]

end

interpretation comp: bus_pass compute_resources compute_devices compute_bridges
  by unfold_locales
    (auto simp del: compute_resources.simps simp: sub_mask_def sub_type_def intro: compute_types split: option.split)

interpretation alloc: bus_pass allocate_resources allocate_devices allocate_bridges
  by unfold_locales
    (auto simp del: allocate_resources.simps simp: sub_mask_def sub_type_def intro: allocate_types split: option.split)

end
