(* ===== verification/Allocator_Fit.thy ===== *)
theory Allocator_Fit
  imports Allocator_Tree
begin

text \<open>
  The two passes together: the size and alignment that the first pass computes for a bridge
  are enough for the second pass to place everything behind it.
\<close>

section \<open>Well-formed trees\<close>

text \<open>
  The records of a tree do not clash: the resources of a bus are distinct, its bridge is not
  among them, every bridge has its link, and what a pass touches behind two bridges, or
  behind a bridge and on the bus, is different.
\<close>

inductive wf_bus :: "dev bus \<Rightarrow> nat \<Rightarrow> u32 \<Rightarrow> u32 \<Rightarrow> store \<Rightarrow> bool" where
  "type_bits m \<Longrightarrow> br \<notin> set (bus_ids b) \<Longrightarrow> unat (res_base (s br)) < 4611686018427387904 \<Longrightarrow>
   distinct (map snd (bus_items m t s b)) \<Longrightarrow>
   sorted_wrt (\<lambda>x y. zone m t s x \<inter> zone m t s y = {}) (bus_links m t s b) \<Longrightarrow>
   \<forall>(r, lo) \<in> set (bus_links m t s b). lo \<noteq> None \<Longrightarrow>
   (\<And>r l. (r, Some l) \<in> set (bus_links m t s b) \<Longrightarrow> wf_bus l r (sub_mask m) (sub_type t (s r)) s) \<Longrightarrow>
   (\<And>r l. (r, Some l) \<in> set (bus_links m t s b) \<Longrightarrow>
     set (map snd (bus_items m t s b)) \<inter> touched (sub_mask m) (sub_type t (s r)) s l = {}) \<Longrightarrow>
   wf_bus b br m t s"

text \<open>A property of every bus that a bridge with a size leads to.\<close>

definition used :: "u32 \<Rightarrow> u32 \<Rightarrow> store \<Rightarrow> dev bus \<Rightarrow> nat \<Rightarrow> bool" where
  "used m t s b r \<longleftrightarrow> r \<in> set (map snd (bus_items m t s b)) \<and> movable s r \<and> res_size (s r) \<noteq> 0"

inductive bus_tree :: "(dev bus \<Rightarrow> nat \<Rightarrow> u32 \<Rightarrow> u32 \<Rightarrow> store \<Rightarrow> bool) \<Rightarrow>
    dev bus \<Rightarrow> nat \<Rightarrow> u32 \<Rightarrow> u32 \<Rightarrow> store \<Rightarrow> bool" for P where
  "P b br m t s \<Longrightarrow>
   (\<And>r l. (r, Some l) \<in> set (bus_links m t s b) \<Longrightarrow> used m t s b r \<Longrightarrow>
      bus_tree P l r (sub_mask m) (sub_type t (s r)) s) \<Longrightarrow>
   bus_tree P b br m t s"

inductive_cases bus_treeE: "bus_tree P b br m t s"

lemma bus_tree_root: "bus_tree P b br m t s \<Longrightarrow> P b br m t s"
  by (erule bus_treeE)

lemma bus_tree_link:
  "bus_tree P b br m t s \<Longrightarrow> (r, Some l) \<in> set (bus_links m t s b) \<Longrightarrow> used m t s b r \<Longrightarrow>
    bus_tree P l r (sub_mask m) (sub_type t (s r)) s"
  by (erule bus_treeE) blast

lemma movable_cong: "same_types s s' \<Longrightarrow> movable s r = movable s' r"
  unfolding movable_def same_types_def using same_type_flags [OF _ type_bits_simps(1)] by metis

lemma items_touched: "r \<in> set (map snd (bus_items m t s b)) \<Longrightarrow> r \<in> touched m t s b"
  using bus_items_sound by (simp add: touched_def)

lemma used_cong:
  assumes "type_bits m" "same_types s s'" "\<forall>i \<in> touched m t s b. res_size (s i) = res_size (s' i)"
  shows "used m t s b r = used m t s' b r"
  using same_types_cong(3) [OF assms(1,2), of t b] movable_cong [OF assms(2), of r] assms(3) items_touched
  unfolding used_def by metis

text \<open>A property that only depends on the records touched behind a bridge is kept by changes elsewhere.\<close>

lemma bus_tree_local:
  assumes "bus_tree P b br m t s" "type_bits m" "same_types s s'"
    "\<forall>i \<in> touched m t s b. A (s i) (s' i)" "N (s br) (s' br)"
    and "\<And>b br m t. P b br m t s \<Longrightarrow> type_bits m \<Longrightarrow> \<forall>i \<in> touched m t s b. A (s i) (s' i) \<Longrightarrow> N (s br) (s' br) \<Longrightarrow> P b br m t s'"
    "\<And>r r'. A r r' \<Longrightarrow> N r r'" "\<And>r r'. A r r' \<Longrightarrow> res_size r = res_size r'"
  shows "bus_tree P b br m t s'"
  using assms
proof (induction rule: bus_tree.induct)
  case (1 b br m t s)
  have size: "\<forall>i \<in> touched m t s b. res_size (s i) = res_size (s' i)" using "1.prems"(3,7) by blast
  show ?case
  proof (rule bus_tree.intros)
    show "P b br m t s'" using 1 by blast
  next
    fix r l assume r: "(r, Some l) \<in> set (bus_links m t s' b)" "used m t s' b r"
    have r': "(r, Some l) \<in> set (bus_links m t s b)" "used m t s b r"
      using r same_types_cong(2) [OF "1.prems"(1,2)] used_cong [OF "1.prems"(1,2) size] by simp_all
    have z: "zone m t s (r, Some l) \<subseteq> touched m t s b" by (rule zone_touched [OF r'(1)])
    then have "\<forall>i \<in> touched (sub_mask m) (sub_type t (s r)) s l. A (s i) (s' i)" "N (s r) (s' r)"
      using "1.prems"(3,6) by auto
    then have "bus_tree P l r (sub_mask m) (sub_type t (s r)) s'"
      using "1.IH" [OF r'] "1.prems"(1,2,5,6,7) by simp
    then show "bus_tree P l r (sub_mask m) (sub_type t (s' r)) s'"
      using same_types_cong(4) [OF "1.prems"(1,2)] by simp
  qed
qed

section \<open>What the first pass computes\<close>

text \<open>
  The resources of every bus fit between its base and the size computed for its bridge.
\<close>

definition fitting :: "dev bus \<Rightarrow> nat \<Rightarrow> u32 \<Rightarrow> u32 \<Rightarrow> store \<Rightarrow> bool" where
  "fitting b br m t s \<longleftrightarrow>
     need s (visit_order m t s b) < 4611686018427387904 \<and>
     (\<forall>r. used m t s b r \<longrightarrow> res_align (s r) \<le> res_align (s br) \<and> res_limit (s br) \<le> res_limit (s r) \<and>
        (is_io (s r) \<longrightarrow> 10 \<le> res_align (s br))) \<and>
     layout_end s (visit_order m t s b) 0 \<le> unat (res_size (s br))"

text \<open>The numbers stay in range, and a bridge for port ranges covers whole kilobytes.\<close>

definition moderate :: "dev bus \<Rightarrow> nat \<Rightarrow> u32 \<Rightarrow> u32 \<Rightarrow> store \<Rightarrow> bool" where
  "moderate b br m t s \<longleftrightarrow>
     need s (visit_order m t s b) < 4611686018427387904 \<and> res_align (s br) < 62 \<and> res_gran (s br) < 62 \<and>
     (\<forall>r. used m t s b r \<and> is_io (s r) \<longrightarrow> 10 \<le> res_align (s br))"

lemma visit_order_touched:
  assumes "type_bits m" "same_types s s'" "\<forall>i \<in> touched m t s b. res_size (s i) = res_size (s' i) \<and> res_align (s i) = res_align (s' i)"
  shows "visit_order m t s b = visit_order m t s' b"
proof -
  have key: "need_key s r = need_key s' r" if "r \<in> set (map snd (bus_items m t s b))" for r
    using assms(3) items_touched [OF that] by (simp add: need_key_def)
  have mv: "movable s' = movable s" using movable_cong [OF assms(2)] by auto
  show ?thesis
    unfolding visit_order_def same_types_cong(3) [OF assms(1,2), of t b, symmetric] mv
    by (rule sort_key_cong) (use key in auto)
qed

lemma set_visit_order: "set (visit_order m t s b) = {r. r \<in> set (map snd (bus_items m t s b)) \<and> movable s r}"
  by (auto simp: visit_order_def)

lemma is_io_cong: "same_types s s' \<Longrightarrow> is_io (s r) = is_io (s' r)"
  unfolding same_types_def using same_type_flags [OF _ type_bits_simps(5)] by metis

lemma moderate_local:
  assumes "moderate b br m t s" "type_bits m" "same_types s s'"
    "\<forall>i \<in> touched m t s b. res_size (s i) = res_size (s' i) \<and> res_align (s i) = res_align (s' i)"
    "res_align (s br) = res_align (s' br)"
  shows "moderate b br m t s'"
proof -
  have v: "visit_order m t s' b = visit_order m t s b" using visit_order_touched [OF assms(2-4)] by simp
  have "\<forall>r \<in> set (visit_order m t s b). r \<in> touched m t s b" using items_touched by (auto simp: set_visit_order)
  then have n: "need s' (visit_order m t s b) = need s (visit_order m t s b)"
    using assms(4) by (intro need_cong) auto
  have u: "used m t s' b r = used m t s b r" for r using used_cong [OF assms(2,3)] assms(4) by simp
  have "res_gran (s' br) = res_gran (s br)" using assms(3) by (simp add: same_types_def same_type_def)
  then show ?thesis
    using assms(1,5) is_io_cong [OF assms(3)] unfolding moderate_def v n u by simp
qed

lemma fitting_local:
  assumes "fitting b br m t s" "type_bits m" "same_types s s'"
    "\<forall>i \<in> touched m t s b. res_size (s i) = res_size (s' i) \<and> res_align (s i) = res_align (s' i) \<and> res_limit (s i) = res_limit (s' i)"
    "res_size (s br) = res_size (s' br) \<and> res_align (s br) = res_align (s' br) \<and> res_limit (s' br) \<le> res_limit (s br)"
  shows "fitting b br m t s'"
proof -
  have v: "visit_order m t s' b = visit_order m t s b" using visit_order_touched [OF assms(2,3)] assms(4) by simp
  have t: "\<forall>r \<in> set (visit_order m t s b). r \<in> touched m t s b" using items_touched by (auto simp: set_visit_order)
  then have n: "need s' (visit_order m t s b) = need s (visit_order m t s b)"
    using assms(4) by (intro need_cong) auto
  have l: "layout_end s' (visit_order m t s b) 0 = layout_end s (visit_order m t s b) 0"
    using t assms(4) is_io_cong [OF assms(3)] by (intro conjunct2 [OF layout_cong]) auto
  have u: "used m t s' b r = used m t s b r" for r using used_cong [OF assms(2,3)] assms(4) by simp
  have "r \<in> touched m t s b" if "used m t s b r" for r using that items_touched by (simp add: used_def)
  then show ?thesis
    using assms(1,4,5) is_io_cong [OF assms(3)] unfolding fitting_def v n u l by (metis order_trans)
qed

section \<open>The start of a layout\<close>

lemma top_align_simps [simp]:
  "top_align s [] a = a"
  "top_align s (q # rs) a = top_align s rs (if res_size (s q) = 0 then a else max a (res_align (s q)))"
  by (simp_all add: top_align_def)

lemma low_limit_simps [simp]:
  "low_limit s [] l = l"
  "low_limit s (q # rs) l = low_limit s rs (if res_size (s q) = 0 then l else min l (res_limit (s q)))"
  by (simp_all add: low_limit_def)

lemma top_align_base: "a \<le> top_align s rs a"
proof (induction rs arbitrary: a)
  case (Cons q rs)
  show ?case using Cons [of a] Cons [of "max a (res_align (s q))"] by simp
qed simp

lemma top_align_ge: "r \<in> set rs \<Longrightarrow> res_size (s r) \<noteq> 0 \<Longrightarrow> res_align (s r) \<le> top_align s rs a"
proof (induction rs arbitrary: a)
  case (Cons q rs)
  then show ?case using top_align_base [of "max a (res_align (s q))" s rs] by (cases "r = q") auto
qed simp

lemma low_limit_base: "low_limit s rs l \<le> l"
proof (induction rs arbitrary: l)
  case (Cons q rs)
  show ?case using Cons [of l] Cons [of "min l (res_limit (s q))"] by simp
qed simp

lemma low_limit_le: "r \<in> set rs \<Longrightarrow> res_size (s r) \<noteq> 0 \<Longrightarrow> low_limit s rs l \<le> res_limit (s r)"
proof (induction rs arbitrary: l)
  case (Cons q rs)
  then show ?case using low_limit_base [of s rs "min l (res_limit (s q))"] by (cases "r = q") auto
qed simp

lemma top_align_fixed: "\<forall>r \<in> set rs. res_align (s r) \<le> a \<Longrightarrow> top_align s rs a = a"
  by (induction rs) (auto simp: max_def)

text \<open>
  The first resource with a size has the largest alignment: where the base is rounded to
  the old alignment of the bridge or to its final one makes no difference.
\<close>

lemma layout_start:
  assumes "sorted_wrt (\<lambda>r q. res_align (s q) \<le> res_align (s r)) rs" "\<exists>r \<in> set rs. res_size (s r) \<noteq> 0"
    "\<forall>r \<in> set rs. res_size (s r) \<noteq> 0 \<and> is_io (s r) \<longrightarrow> 10 \<le> top_align s rs a"
  shows "layout_end s rs (rup a n) = layout_end s rs (rup (top_align s rs a) n)"
  using assms
proof (induction rs)
  case (Cons r rs)
  show ?case
  proof (cases "res_size (s r) = 0")
    case True
    then show ?thesis using Cons by auto
  next
    case False
    have A: "top_align s (r # rs) a = max a (res_align (s r))"
      using False Cons.prems(1) by (simp add: top_align_fixed max.coboundedI2)
    show ?thesis
    proof (cases "res_align (s r) \<le> a")
      case True
      then show ?thesis using A by (simp add: max_def)
    next
      case less: False
      let ?A = "res_align (s r)"
      have io: "10 \<le> ?A" if "is_io (s r)" using Cons.prems(3) False that less A by auto
      have "place_pos (s r) (rup a n) = rup ?A n"
        using less io rup_rup [of a ?A n] rup_rup [of 10 ?A "rup a n"] by (auto simp: place_pos_def skip_alias_def)
      moreover have "place_pos (s r) (rup ?A n) = rup ?A n"
        using io rup_rup [of 10 ?A "rup ?A n"] rup_id [of ?A "rup ?A n"] by (auto simp: place_pos_def skip_alias_def)
      ultimately show ?thesis using less A False by (simp add: max_def del: top_align_simps)
    qed
  qed
qed simp

lemma visit_order_sorted:
  "sorted_wrt (\<lambda>r q. res_align (s q) \<le> res_align (s r)) (visit_order m t s b)"
proof -
  have "sorted_wrt (\<lambda>r q. need_key s r \<le> need_key s q) (visit_order m t s b)"
    using sorted_sort_key [of "need_key s"] unfolding visit_order_def by (simp add: sorted_wrt_map)
  moreover have "res_align (s q) \<le> res_align (s r)" if "need_key s r \<le> need_key s q" for r q
    using that need_key_less [of s r q] need_key_eq [of s r q] by (auto simp: order_le_less)
  ultimately show ?thesis by (rule sorted_wrt_mono_rel [rotated]) blast
qed

text \<open>The size that the first pass stores in the bridge covers the layout.\<close>

lemma bridge_size:
  fixes base :: resource_t
  assumes "unat base < 4611686018427387904" "need s rs < 4611686018427387904" "distinct rs"
    "sorted_wrt (\<lambda>r q. res_align (s q) \<le> res_align (s r)) rs"
    "\<forall>r \<in> set rs. res_size (s r) \<noteq> 0 \<and> is_io (s r) \<longrightarrow> 10 \<le> top_align s rs a"
    "top_align s rs a < 62" "gran < 62"
    "unat base' = layout_end s rs (unat (round_pow base a))"
  shows "layout_end s rs 0 \<le> unat (round_pow base' gran - round_pow base (top_align s rs a))"
proof -
  let ?A = "top_align s rs a"
  have p: "(2::nat) ^ k \<le> 4611686018427387904" if "k < 62" for k
    using power_increasing [of k 62 "2::nat"] that by simp
  have a: "a < 62" using top_align_base [of a s rs] assms(6) by linarith
  have r: "unat (round_pow base k) = rup k (unat base)" "rup k (unat base) < 9223372036854775808" if "k < 62" for k
    using p [OF that] assms(1) that rup_less [of k "unat base"] by (auto intro!: unat_round_pow)
  have e: "unat base' = layout_end s rs (rup a (unat base))" using assms(8) r(1) [OF a] by simp
  show ?thesis
  proof (cases "\<exists>r \<in> set rs. res_size (s r) \<noteq> 0")
    case False
    then have "layout_end s rs 0 = 0" by (induction rs) auto
    then show ?thesis by simp
  next
    case True
    have mv: "aligned_move s rs (rup ?A (unat base))"
      unfolding aligned_move_def
    proof (intro ballI impI conjI)
      fix r assume r: "r \<in> set rs" "res_size (s r) \<noteq> 0"
      show "2 ^ res_align (s r) dvd rup ?A (unat base)"
        using top_align_ge [of r rs s a] r by (meson dvd_trans le_imp_power_dvd rup_dvd)
      assume "is_io (s r)"
      then have "10 \<le> ?A" using assms(5) r by blast
      then have "(2::nat) ^ 10 dvd rup ?A (unat base)" by (meson dvd_trans le_imp_power_dvd rup_dvd)
      then show "1024 dvd rup ?A (unat base)" by simp
    qed
    have e': "unat base' = rup ?A (unat base) + layout_end s rs 0"
      using e layout_start [OF assms(4) True assms(5)] layout_move [OF mv, of 0] by simp
    have "layout_end s rs 0 \<le> need s rs" using layout_end_bounds [of 0 s rs] by simp
    then have small: "unat base' < 13835058055282163712" using e' r(2) [OF assms(6)] assms(2) by linarith
    have "unat base' + 2 ^ gran \<le> 18446744073709551616" using small p [OF assms(7)] by linarith
    then have g: "unat (round_pow base' gran) = rup gran (unat base')" using assms(7) by (intro unat_round_pow) simp_all
    have "unat base' \<le> rup gran (unat base')" by (rule rup_ge)
    then have "round_pow base ?A \<le> round_pow base' gran"
      unfolding word_le_nat_alt g r(1) [OF assms(6)] using e' by linarith
    then have "unat (round_pow base' gran - round_pow base ?A) = rup gran (unat base') - rup ?A (unat base)"
      by (simp add: unat_minus_no_wrap g r(1) [OF assms(6)])
    then show ?thesis using \<open>unat base' \<le> rup gran (unat base')\<close> e' by linarith
  qed
qed

section \<open>The first pass on a tree\<close>

lemma compute_fold_frame:
  assumes "fold (compute_place br) rs (base, s) = (base', s')" "br \<notin> set rs"
  shows "\<forall>i. i \<notin> set rs \<longrightarrow> i \<noteq> br \<longrightarrow> s' i = s i"
    "\<forall>i. i \<noteq> br \<longrightarrow> (\<exists>v. s' i = (s i)\<lparr>res_base := v\<rparr>)"
    "res_base (s' br) = res_base (s br) \<and> res_size (s' br) = res_size (s br) \<and> res_align (s br) \<le> res_align (s' br)"
proof -
  have "(\<forall>i. i \<notin> set rs \<longrightarrow> i \<noteq> br \<longrightarrow> s' i = s i) \<and> (\<forall>i. i \<noteq> br \<longrightarrow> (\<exists>v. s' i = (s i)\<lparr>res_base := v\<rparr>)) \<and>
    res_base (s' br) = res_base (s br) \<and> res_size (s' br) = res_size (s br) \<and> res_align (s br) \<le> res_align (s' br)"
    using assms
  proof (induction rs arbitrary: base s)
    case Nil
    have "\<exists>v. r = r\<lparr>res_base := v\<rparr>" for r :: resource by (rule exI [of _ "res_base r"]) simp
    then show ?case using Nil by simp
  next
    case (Cons r rs)
    obtain b1 s1 where p: "compute_place br r (base, s) = (b1, s1)" by fastforce
    have s1: "(\<forall>i. i \<noteq> r \<longrightarrow> i \<noteq> br \<longrightarrow> s1 i = s i) \<and> (\<exists>v. s1 r = (s r)\<lparr>res_base := v\<rparr>) \<and>
      res_base (s1 br) = res_base (s br) \<and> res_size (s1 br) = res_size (s br) \<and> res_align (s br) \<le> res_align (s1 br)"
    proof (cases "res_size (s r) = 0")
      case True
      then have "s1 = s" using p by (simp add: compute_place_def)
      moreover have "\<exists>v. s r = (s r)\<lparr>res_base := v\<rparr>" by (rule exI [of _ "res_base (s r)"]) simp
      ultimately show ?thesis by simp
    next
      case False
      have "r \<noteq> br" using Cons.prems(2) by auto
      with False show ?thesis using p compute_step [of r br s base] by (auto simp: Let_def)
    qed
    have IH: "(\<forall>i. i \<notin> set rs \<longrightarrow> i \<noteq> br \<longrightarrow> s' i = s1 i) \<and> (\<forall>i. i \<noteq> br \<longrightarrow> (\<exists>v. s' i = (s1 i)\<lparr>res_base := v\<rparr>)) \<and>
      res_base (s' br) = res_base (s1 br) \<and> res_size (s' br) = res_size (s1 br) \<and> res_align (s1 br) \<le> res_align (s' br)"
      using Cons.IH [of b1 s1] Cons.prems p by simp
    have "\<exists>v. s' i = (s i)\<lparr>res_base := v\<rparr>" if "i \<noteq> br" for i
    proof -
      have "\<exists>u. s1 i = (s i)\<lparr>res_base := u\<rparr>"
      proof (cases "i = r")
        case False
        then have "s1 i = (s i)\<lparr>res_base := res_base (s i)\<rparr>" using s1 that by simp
        then show ?thesis ..
      qed (use s1 in simp)
      moreover have "\<exists>v. s' i = (s1 i)\<lparr>res_base := v\<rparr>" using IH that by blast
      ultimately show ?thesis by auto
    qed
    then show ?case using IH s1 by simp
  qed
  then show "\<forall>i. i \<notin> set rs \<longrightarrow> i \<noteq> br \<longrightarrow> s' i = s i"
    "\<forall>i. i \<noteq> br \<longrightarrow> (\<exists>v. s' i = (s i)\<lparr>res_base := v\<rparr>)"
    "res_base (s' br) = res_base (s br) \<and> res_size (s' br) = res_size (s br) \<and> res_align (s br) \<le> res_align (s' br)" by blast+
qed

lemma compute_place_need:
  "br \<notin> set (bus_ids b) \<Longrightarrow> i \<in> set (bus_ids b) \<Longrightarrow> same_need (snd bs i) (snd (compute_place br r bs) i)"
  by (cases bs) (auto simp: compute_place_def Let_def same_need_def same_type_def)

lemma alloc_place_need:
  "same_need (snd bs i) (snd (alloc_place br r bs) i)"
  by (cases bs) (auto simp: alloc_place_def Let_def same_need_def same_type_def flags_masked)

lemma loop_order_cong:
  assumes "type_bits m" "same_types s s'" "\<forall>i \<in> set (bus_ids b). res_size (s i) = res_size (s' i) \<and> res_align (s i) = res_align (s' i)"
  shows "visit_order m t s b = visit_order m t s' b"
  using assms(3) by (intro visit_order_touched [OF assms(1,2)]) (simp add: touched_def)

lemma same_typesD: "same_types s s' \<Longrightarrow> res_gran (s i) = res_gran (s' i)"
  by (simp add: same_types_def same_type_def)

lemma bus_tree_moderate_cong:
  assumes "bus_tree moderate b br m t s" "type_bits m" "same_types s s'"
    "\<forall>i \<in> touched m t s b. res_size (s i) = res_size (s' i) \<and> res_align (s i) = res_align (s' i)"
    "res_align (s br) = res_align (s' br)"
  shows "bus_tree moderate b br m t s'"
  by (rule bus_tree_local [where P = moderate and s = s and s' = s' and
      A = "\<lambda>r r'. res_size r = res_size r' \<and> res_align r = res_align r'" and
      N = "\<lambda>r r'. res_align r = res_align r'", OF assms]) (simp_all add: moderate_local [OF _ _ assms(3)])

lemma bus_tree_fitting_cong:
  assumes "bus_tree fitting b br m t s" "type_bits m" "same_types s s'"
    "\<forall>i \<in> touched m t s b. res_size (s i) = res_size (s' i) \<and> res_align (s i) = res_align (s' i) \<and> res_limit (s i) = res_limit (s' i)"
    "res_size (s br) = res_size (s' br) \<and> res_align (s br) = res_align (s' br) \<and> res_limit (s' br) \<le> res_limit (s br)"
  shows "bus_tree fitting b br m t s'"
  by (rule bus_tree_local [where P = fitting and s = s and s' = s' and
      A = "\<lambda>r r'. res_size r = res_size r' \<and> res_align r = res_align r' \<and> res_limit r = res_limit r'" and
      N = "\<lambda>r r'. res_size r = res_size r' \<and> res_align r = res_align r' \<and> res_limit r' \<le> res_limit r", OF assms])
    (simp_all add: fitting_local [OF _ _ assms(3)])

text \<open>The loop of the first pass and the size it gives the bridge.\<close>

lemma compute_loop_fits:
  assumes "type_bits m" "br \<notin> set (bus_ids b)" "distinct (map snd (bus_items m t s b))"
    "unat (res_base (s br)) < 4611686018427387904"
  shows "\<exists>base' s'. largest_loop (compute_place br) b m t None (round_pow (res_base (s br)) (res_align (s br)), s) = Some (base', s') \<and>
    same_types s s' \<and> visit_order m t s' b = visit_order m t s b \<and>
    (\<forall>i. i \<notin> set (map snd (bus_items m t s b)) \<longrightarrow> i \<noteq> br \<longrightarrow> s' i = s i) \<and>
    (\<forall>i. i \<noteq> br \<longrightarrow> (\<exists>v. s' i = (s i)\<lparr>res_base := v\<rparr>)) \<and>
    (moderate b br m t s' \<longrightarrow> fitting b br m t (s'(br := (s' br)\<lparr>res_size :=
       round_pow base' (res_gran (s' br)) - round_pow (res_base (s' br)) (res_align (s' br))\<rparr>)))"
proof -
  define rs where "rs = visit_order m t s b"
  let ?b = "round_pow (res_base (s br)) (res_align (s br))"
  have sub: "set rs \<subseteq> set (map snd (bus_items m t s b))" by (auto simp: rs_def set_visit_order)
  then have br: "br \<notin> set rs" using assms(2) bus_items_sound by blast
  have dist: "distinct rs" using assms(3) by (simp add: rs_def visit_order_def)
  obtain base' s' where f: "fold (compute_place br) rs (?b, s) = (base', s')" by fastforce
  have loop: "largest_loop (compute_place br) b m t None (?b, s) = Some (base', s')"
    using largest_loop_order [OF assms(1), of t "(?b, s)" b "compute_place br"] assms(3)
      compute_place_need [OF assms(2)] f by (simp add: rs_def)
  note frame = compute_fold_frame [OF f br]
  have ty: "same_types s s'" by (rule loop_types [OF loop compute_place_types])
  have same: "res_size (s' i) = res_size (s i)" "res_align (s' i) = res_align (s i)" "res_limit (s' i) = res_limit (s i)"
    if "i \<noteq> br" for i
    using frame(2) that by (metis resource.select_convs(2,3,6) resource.surjective resource.update_convs(1))+
  have same_bus: "\<forall>i \<in> set (bus_ids b). res_size (s i) = res_size (s' i) \<and> res_align (s i) = res_align (s' i)"
    using same assms(2) by metis
  have vo: "visit_order m t s' b = rs" unfolding rs_def by (rule loop_order_cong [OF assms(1) ty same_bus, symmetric])
  have need: "need s' rs = need s rs" using same br by (intro need_cong) metis
  define s2 where "s2 = s'(br := (s' br)\<lparr>res_size := round_pow base' (res_gran (s' br)) - round_pow (res_base (s' br)) (res_align (s' br))\<rparr>)"
  have "fitting b br m t s2" if mod: "moderate b br m t s'"
  proof -
    have num: "need s rs < 4611686018427387904" "res_align (s' br) < 62" "res_gran (s' br) < 62"
      "\<And>r. used m t s' b r \<Longrightarrow> is_io (s' r) \<Longrightarrow> 10 \<le> res_align (s' br)"
      using mod by (auto simp: moderate_def vo need)
    have "2 ^ res_align (s br) \<le> (4611686018427387904 :: nat)"
      using power_increasing [of "res_align (s br)" 62 "2::nat"] frame(3) num(2) by simp
    then have b: "unat ?b = rup (res_align (s br)) (unat (res_base (s br)))" "unat ?b < 9223372036854775808"
      using unat_round_pow [of "res_align (s br)" "res_base (s br)"] rup_less [of "res_align (s br)" "unat (res_base (s br))"]
        frame(3) num(2) assms(4) by simp_all
    then have "unat ?b + need s rs < 18446744073709551616" using num(1) by linarith
    from compute_fold [OF dist br this] f
    have cf: "unat base' = layout_end s rs (unat ?b)"
      "s' br = (s br)\<lparr>res_align := top_align s rs (res_align (s br)), res_limit := low_limit s rs (res_limit (s br))\<rparr>"
      by simp_all
    have io: "is_io (s' r) = is_io (s r)" for r using is_io_cong [OF ty] by metis
    have us: "used m t s' b r \<longleftrightarrow> r \<in> set rs \<and> res_size (s r) \<noteq> 0" for r
    proof -
      have "used m t s' b r \<longleftrightarrow> r \<in> set (visit_order m t s' b) \<and> res_size (s' r) \<noteq> 0"
        by (auto simp: used_def set_visit_order)
      then show ?thesis using vo same(1) br by metis
    qed
    have ty2: "same_types s' s2" unfolding s2_def by (intro same_types_upd) (simp_all add: same_type_def)
    have eq2: "s2 i = s' i" if "i \<noteq> br" for i using that by (simp add: s2_def)
    have same2: "\<forall>i \<in> set (bus_ids b). res_size (s' i) = res_size (s2 i) \<and> res_align (s' i) = res_align (s2 i)"
      using eq2 assms(2) by metis
    have vo2: "visit_order m t s2 b = rs"
      using loop_order_cong [OF assms(1) ty2 same2] vo by simp
    have us2: "used m t s2 b r = used m t s' b r" for r
      using used_cong [OF assms(1) ty2, of t b r] same2 by (simp add: touched_def)
    have "\<forall>r \<in> set rs. res_size (s r) \<noteq> 0 \<and> is_io (s r) \<longrightarrow> 10 \<le> top_align s rs (res_align (s br))"
      using num(4) us io cf(2) by auto
    then have "layout_end s rs 0 \<le> unat (round_pow base' (res_gran (s' br)) -
        round_pow (res_base (s br)) (top_align s rs (res_align (s br))))"
      using num(2) cf(2) visit_order_sorted [of s m t b]
      by (intro bridge_size [OF assms(4) num(1) dist _ _ _ num(3) cf(1)]) (simp_all add: rs_def)
    then have "layout_end s rs 0 \<le> unat (res_size (s2 br))" unfolding s2_def by (simp add: cf(2))
    moreover have "layout_end s2 rs 0 = layout_end s rs 0"
      using same eq2 br io by (intro conjunct2 [OF layout_cong]) metis
    moreover have "need s2 rs = need s rs" using same eq2 br by (intro need_cong) metis
    moreover have "res_align (s2 r) \<le> res_align (s2 br) \<and> res_limit (s2 br) \<le> res_limit (s2 r) \<and> (is_io (s2 r) \<longrightarrow> 10 \<le> res_align (s2 br))"
      if "used m t s2 b r" for r
    proof -
      have u: "used m t s' b r" "r \<in> set rs" "res_size (s r) \<noteq> 0" "r \<noteq> br" using that us us2 br by auto
      then have "res_align (s r) \<le> res_align (s' br)" "res_limit (s' br) \<le> res_limit (s r)"
        unfolding cf(2) by (simp_all add: top_align_ge low_limit_le)
      then show ?thesis using u num(4) [OF u(1)] same [OF u(4)] eq2 [OF u(4)] by (simp add: s2_def)
    qed
    ultimately show ?thesis unfolding fitting_def vo2 using num(1) by simp
  qed
  moreover have "\<forall>i. i \<notin> set (map snd (bus_items m t s b)) \<longrightarrow> i \<noteq> br \<longrightarrow> s' i = s i"
    using frame(1) sub by blast
  ultimately show ?thesis using loop ty vo frame(2) unfolding s2_def rs_def by blast
qed

text \<open>
  The pass ends, touches nothing but the bridge and the records of the type behind it, and
  what it leaves fits, provided the numbers stay in range.
\<close>

definition fit_promise :: "u32 \<Rightarrow> u32 \<Rightarrow> store \<Rightarrow> nat \<Rightarrow> dev bus \<Rightarrow> store \<Rightarrow> bool" where
  "fit_promise m t s r l s' \<longleftrightarrow> same_types s s' \<and> (bus_tree moderate l r (sub_mask m) (sub_type t (s r)) s' \<longrightarrow>
    bus_tree fitting l r (sub_mask m) (sub_type t (s r)) s')"

lemma fit_keep:
  assumes "bus_tree moderate l r m t s1 \<longrightarrow> bus_tree fitting l r m t s1" "type_bits m" "same_types s1 s2"
    "\<forall>i \<in> insert r (touched m t s1 l). \<exists>v. s2 i = (s1 i)\<lparr>res_base := v\<rparr>"
  shows "bus_tree moderate l r m t s2 \<longrightarrow> bus_tree fitting l r m t s2"
proof
  have ty: "same_types s2 s1" using assms(3) same_type_sym unfolding same_types_def by blast
  have tc: "touched m t s2 l = touched m t s1 l" by (rule touched_cong [OF assms(2,3), symmetric])
  have ag: "res_size (s2 i) = res_size (s1 i) \<and> res_align (s2 i) = res_align (s1 i) \<and> res_limit (s2 i) = res_limit (s1 i)"
    if "i \<in> insert r (touched m t s1 l)" for i
    using that assms(4) by fastforce
  assume "bus_tree moderate l r m t s2"
  then have "bus_tree moderate l r m t s1"
    by (rule bus_tree_moderate_cong [OF _ assms(2) ty]) (simp_all add: tc ag)
  then have "bus_tree fitting l r m t s1" using assms(1) by simp
  then show "bus_tree fitting l r m t s2"
    by (rule bus_tree_fitting_cong [OF _ assms(2,3)]) (simp_all add: ag)
qed

lemma fit_promise_keep:
  assumes "fit_promise m t s r l s1" "type_bits m" "same_types s1 s2"
    "\<forall>i \<in> zone m t s (r, Some l). \<exists>v. s2 i = (s1 i)\<lparr>res_base := v\<rparr>"
  shows "fit_promise m t s r l s2"
proof -
  have ty: "same_types s s1" using assms(1) by (simp add: fit_promise_def)
  have tm: "type_bits (sub_mask m)" using assms(2) by simp
  have tc: "touched (sub_mask m) (sub_type t (s r)) s1 l = touched (sub_mask m) (sub_type t (s r)) s l"
    by (rule touched_cong [OF tm ty, symmetric])
  have "bus_tree moderate l r (sub_mask m) (sub_type t (s r)) s2 \<longrightarrow> bus_tree fitting l r (sub_mask m) (sub_type t (s r)) s2"
  proof (rule fit_keep [OF _ tm assms(3)])
    show "bus_tree moderate l r (sub_mask m) (sub_type t (s r)) s1 \<longrightarrow> bus_tree fitting l r (sub_mask m) (sub_type t (s r)) s1"
      using assms(1) unfolding fit_promise_def by blast
    show "\<forall>i \<in> insert r (touched (sub_mask m) (sub_type t (s r)) s1 l). \<exists>v. s2 i = (s1 i)\<lparr>res_base := v\<rparr>"
      using assms(4) unfolding zone.simps tc .
  qed
  then show ?thesis using same_types_trans [OF ty assms(3)] by (simp add: fit_promise_def)
qed

lemma resource_upd_same: "\<exists>v. x = (x::resource)\<lparr>res_base := v\<rparr>"
  by (rule exI [of _ "res_base x"]) simp

lemma compute_links:
  assumes "type_bits m" "same_types s s0" "\<forall>x \<in> set (bus_links m t s b). \<forall>i \<in> zone m t s x. s0 i = s i"
    "\<And>r l s'. (r, Some l) \<in> set (bus_links m t s b) \<Longrightarrow> same_types s s' \<Longrightarrow> \<forall>i \<in> zone m t s (r, Some l). s' i = s i \<Longrightarrow>
      \<exists>s1. compute_resources l r (sub_mask m) (sub_type t (s r)) s' = Some s1 \<and>
        (\<forall>i. i \<notin> zone m t s (r, Some l) \<longrightarrow> s1 i = s' i) \<and>
        (bus_tree moderate l r (sub_mask m) (sub_type t (s r)) s1 \<longrightarrow> bus_tree fitting l r (sub_mask m) (sub_type t (s r)) s1)"
    "sorted_wrt (\<lambda>x y. zone m t s x \<inter> zone m t s y = {}) (bus_links m t s b)"
    "\<forall>(r, lo) \<in> set (bus_links m t s b). lo \<noteq> None"
  shows "\<exists>s1. compute_devices (children b) m t s0 = Some s1 \<and>
    (\<forall>i. (\<forall>x \<in> set (bus_links m t s b). i \<notin> zone m t s x) \<longrightarrow> s1 i = s0 i) \<and>
    (\<forall>r l. (r, Some l) \<in> set (bus_links m t s b) \<longrightarrow> fit_promise m t s r l s1)"
proof -
  have "\<exists>s1. through (comp.sub_pass m t) (bus_links m t s b) s0 = Some s1 \<and>
    (\<forall>i. (\<forall>x \<in> set (bus_links m t s b). i \<notin> zone m t s x) \<longrightarrow> s1 i = s0 i) \<and>
    (\<forall>r l. (r, Some l) \<in> set (bus_links m t s b) \<longrightarrow> fit_promise m t s r l s1)"
  proof (rule comp.links_run)
    fix r l s' assume r: "(r, Some l) \<in> set (bus_links m t s b)" and ty: "same_types s s'"
      and ag: "\<forall>i \<in> zone m t s (r, Some l). s' i = s i"
    from assms(4) [OF r ty ag]
    obtain s1 where s1: "compute_resources l r (sub_mask m) (sub_type t (s r)) s' = Some s1"
      "\<forall>i. i \<notin> zone m t s (r, Some l) \<longrightarrow> s1 i = s' i"
      "bus_tree moderate l r (sub_mask m) (sub_type t (s r)) s1 \<longrightarrow> bus_tree fitting l r (sub_mask m) (sub_type t (s r)) s1"
      by blast
    then have "fit_promise m t s r l s1"
      using same_types_trans [OF ty compute_types(1) [OF s1(1)]] by (simp only: fit_promise_def)
    then show "\<exists>s1. comp.sub_pass m t l r s' = Some s1 \<and> (\<forall>i. i \<notin> zone m t s (r, Some l) \<longrightarrow> s1 i = s' i) \<and>
        fit_promise m t s r l s1"
      using s1(1,2) unfolding comp.sub_pass_def same_types_cong(4) [OF assms(1) ty, of t r] by blast
  next
    fix r l s1 s2 assume r: "fit_promise m t s r l s1" "same_types s1 s2" "\<forall>i \<in> zone m t s (r, Some l). s2 i = s1 i"
    have "\<forall>i \<in> zone m t s (r, Some l). \<exists>v. s2 i = (s1 i)\<lparr>res_base := v\<rparr>" using r(3) resource_upd_same by metis
    then show "fit_promise m t s r l s2" by (rule fit_promise_keep [OF r(1) assms(1) r(2)])
  qed (fact assms)+
  moreover have "compute_devices (children b) m t s0 = through (comp.sub_pass m t) (bus_links m t s b) s0"
    using comp.devices_through [OF assms(1), of "children b" t s0] same_types_cong(2) [OF assms(1,2), of t b]
    by (simp add: bus_links_def)
  ultimately show ?thesis by simp
qed

lemma compute_run:
  assumes "wf_bus b br m t s"
  shows "same_types s s0 \<Longrightarrow> \<forall>i \<in> insert br (touched m t s b). s0 i = s i \<Longrightarrow>
    \<exists>s1. compute_resources b br m t s0 = Some s1 \<and> (\<forall>i. i \<notin> insert br (touched m t s b) \<longrightarrow> s1 i = s0 i) \<and>
      (bus_tree moderate b br m t s1 \<longrightarrow> bus_tree fitting b br m t s1)"
  using assms
proof (induction arbitrary: s0 rule: wf_bus.induct)
  case (1 m br b s t)
  note tb = "1.hyps"(1) and brb = "1.hyps"(2)
  let ?links = "bus_links m t s b"
  have z: "zone m t s x \<subseteq> touched m t s b" if "x \<in> set ?links" for x using zone_touched that by (cases x) auto
  have "\<exists>sc. compute_devices (children b) m t s0 = Some sc \<and>
    (\<forall>i. (\<forall>x \<in> set ?links. i \<notin> zone m t s x) \<longrightarrow> sc i = s0 i) \<and>
    (\<forall>r l. (r, Some l) \<in> set ?links \<longrightarrow> fit_promise m t s r l sc)"
  proof (rule compute_links [OF tb "1.prems"(1) _ _ "1.hyps"(5,6)])
    show "\<forall>x \<in> set ?links. \<forall>i \<in> zone m t s x. s0 i = s i" using z "1.prems"(2) by blast
  qed (use "1.IH" in simp)
  then obtain sc where dev: "compute_devices (children b) m t s0 = Some sc" and
    sc: "\<forall>i. (\<forall>x \<in> set ?links. i \<notin> zone m t s x) \<longrightarrow> sc i = s0 i" "\<forall>r l. (r, Some l) \<in> set ?links \<longrightarrow> fit_promise m t s r l sc"
    by blast
  have ty: "same_types s sc" using same_types_trans [OF "1.prems"(1) compute_types(2) [OF dev]] .
  have out: "br \<notin> touched m t s b" using brb by (simp add: touched_def)
  then have scbr: "sc br = s br" using sc(1) z "1.prems"(2) by (metis insertI1 subsetD)
  have items: "bus_items m t sc b = bus_items m t s b" using same_types_cong(3) [OF tb ty] by simp
  obtain base' s' where loop: "largest_loop (compute_place br) b m t None (round_pow (res_base (sc br)) (res_align (sc br)), sc) = Some (base', s')"
    "same_types sc s'" "\<forall>i. i \<notin> set (map snd (bus_items m t sc b)) \<longrightarrow> i \<noteq> br \<longrightarrow> s' i = sc i"
    "\<forall>i. i \<noteq> br \<longrightarrow> (\<exists>v. s' i = (sc i)\<lparr>res_base := v\<rparr>)"
    "moderate b br m t s' \<longrightarrow> fitting b br m t (s'(br := (s' br)\<lparr>res_size :=
       round_pow base' (res_gran (s' br)) - round_pow (res_base (s' br)) (res_align (s' br))\<rparr>))"
    using compute_loop_fits [OF tb brb, of t sc] "1.hyps"(3,4) scbr items by auto
  define s1 where "s1 = s'(br := (s' br)\<lparr>res_size :=
       round_pow base' (res_gran (s' br)) - round_pow (res_base (s' br)) (res_align (s' br))\<rparr>)"
  have run: "compute_resources b br m t s0 = Some s1"
    using dev loop(1) scbr "1.prems"(2) by (simp add: s1_def)
  have eq1: "s1 i = s' i" if "i \<noteq> br" for i using that by (simp add: s1_def)
  have ty1: "same_types s' s1" unfolding s1_def by (intro same_types_upd) (simp_all add: same_type_def)
  have "s1 i = s0 i" if "i \<notin> insert br (touched m t s b)" for i
  proof -
    have "i \<notin> set (map snd (bus_items m t sc b))" using that items_touched items by fastforce
    moreover have "\<forall>x \<in> set ?links. i \<notin> zone m t s x" using that z by blast
    ultimately show ?thesis using that eq1 loop(3) sc(1) by auto
  qed
  moreover have "bus_tree fitting b br m t s1" if mod: "bus_tree moderate b br m t s1"
  proof (rule bus_tree.intros)
    have ty1': "same_types s1 s'" using ty1 same_type_sym unfolding same_types_def by blast
    have "moderate b br m t s'"
      by (rule moderate_local [OF bus_tree_root [OF mod] tb ty1']) (use eq1 brb in \<open>auto simp: s1_def touched_def\<close>)
    then show "fitting b br m t s1" using loop(5) by (simp add: s1_def)
  next
    fix r l assume r: "(r, Some l) \<in> set (bus_links m t s1 b)" "used m t s1 b r"
    have ty2: "same_types s s1" "same_types sc s1"
      using ty loop(2) ty1 same_types_trans by blast+
    have r': "(r, Some l) \<in> set ?links" using r(1) same_types_cong(2) [OF tb ty2(1)] by simp
    have "zone m t s (r, Some l) \<subseteq> touched m t s b" by (rule z [OF r'])
    then have zb: "br \<notin> zone m t s (r, Some l)" using out by blast
    have "\<exists>v. s1 i = (sc i)\<lparr>res_base := v\<rparr>" if "i \<in> zone m t s (r, Some l)" for i
    proof -
      have "i \<noteq> br" using zb that by blast
      then show ?thesis using eq1 loop(4) by simp
    qed
    then have "fit_promise m t s r l s1" using sc(2) r' by (intro fit_promise_keep [OF _ tb ty2(2)]) simp_all
    moreover have "bus_tree moderate l r (sub_mask m) (sub_type t (s1 r)) s1" by (rule bus_tree_link [OF mod r])
    ultimately show "bus_tree fitting l r (sub_mask m) (sub_type t (s1 r)) s1"
      using same_types_cong(4) [OF tb ty2(1), of t r] by (simp add: fit_promise_def)
  qed
  ultimately show ?case using run by blast
qed

end
