(* ===== verification/Allocator_Place.thy ===== *)
theory Allocator_Place
  imports Allocator_Fit
begin

text \<open>
  The second pass on the tree, and the two passes together.
\<close>

section \<open>The second pass\<close>

definition positioned :: "resource \<Rightarrow> bool" where
  "positioned r \<longleftrightarrow> 2 ^ res_align r dvd unat (res_base r) \<and>
     unat (res_base r) + unat (res_size r) \<le> Suc (unat (res_limit r)) \<and> unat (res_limit r) < 4611686018427387904"

text \<open>Every resource of the bus has an aligned range of its own inside the range of the bridge.\<close>

definition placed :: "dev bus \<Rightarrow> nat \<Rightarrow> u32 \<Rightarrow> u32 \<Rightarrow> store \<Rightarrow> bool" where
  "placed b br m t s \<longleftrightarrow> (\<forall>r. used m t s b r \<longrightarrow>
     res_flags (s r) AND IORESOURCE_ASSIGNED \<noteq> 0 \<and> 2 ^ res_align (s r) dvd unat (res_base (s r)) \<and>
     unat (res_base (s br)) \<le> unat (res_base (s r)) \<and>
     unat (res_base (s r)) + unat (res_size (s r)) \<le> unat (res_base (s br)) + unat (res_size (s br)) \<and>
     (\<forall>q. used m t s b q \<longrightarrow> q \<noteq> r \<longrightarrow>
       unat (res_base (s r)) + unat (res_size (s r)) \<le> unat (res_base (s q)) \<or>
       unat (res_base (s q)) + unat (res_size (s q)) \<le> unat (res_base (s r))))"

lemma alloc_fold_frame:
  "i \<notin> set rs \<Longrightarrow> snd (fold (alloc_place br) rs bs) i = snd bs i"
proof (induction rs arbitrary: bs)
  case (Cons r rs)
  then have "snd (alloc_place br r bs) i = snd bs i"
    by (cases bs) (simp add: alloc_place_def Let_def)
  then show ?case using Cons by simp
qed simp

lemma assigned_flag:
  "(f OR IORESOURCE_ASSIGNED) AND IORESOURCE_ASSIGNED \<noteq> 0"
  "((f OR IORESOURCE_ASSIGNED) AND NOT IORESOURCE_STORED) AND IORESOURCE_ASSIGNED \<noteq> 0"
proof -
  have "(f OR IORESOURCE_ASSIGNED) AND IORESOURCE_ASSIGNED = IORESOURCE_ASSIGNED"
    by (rule bit_eqI) (auto simp only: bit_and_iff bit_or_iff)
  moreover have "((f OR IORESOURCE_ASSIGNED) AND NOT IORESOURCE_STORED) AND IORESOURCE_ASSIGNED = IORESOURCE_ASSIGNED"
  proof -
    have "NOT IORESOURCE_STORED AND IORESOURCE_ASSIGNED = IORESOURCE_ASSIGNED"
      by (simp add: IORESOURCE_STORED_def IORESOURCE_ASSIGNED_def)
    then show ?thesis using calculation by (metis and.assoc and.commute)
  qed
  ultimately show "(f OR IORESOURCE_ASSIGNED) AND IORESOURCE_ASSIGNED \<noteq> 0"
    "((f OR IORESOURCE_ASSIGNED) AND NOT IORESOURCE_STORED) AND IORESOURCE_ASSIGNED \<noteq> 0"
    by (simp_all add: IORESOURCE_ASSIGNED_def)
qed

lemma used_iff: "used m t s b r \<longleftrightarrow> r \<in> set (visit_order m t s b) \<and> res_size (s r) \<noteq> 0"
  by (auto simp: used_def set_visit_order)

lemma fitting_layout:
  assumes "fitting b br m t s" "positioned (s br)"
  shows "layout_end s (visit_order m t s b) (unat (res_base (s br))) \<le> unat (res_base (s br)) + unat (res_size (s br))"
proof -
  let ?rs = "visit_order m t s b" and ?n = "unat (res_base (s br))"
  have al: "2 ^ res_align (s br) dvd ?n" using assms(2) by (simp add: positioned_def)
  have "aligned_move s ?rs ?n"
    unfolding aligned_move_def
  proof (intro ballI impI conjI)
    fix r assume "r \<in> set ?rs" "res_size (s r) \<noteq> 0"
    then have u: "used m t s b r" by (simp add: used_iff)
    then have "res_align (s r) \<le> res_align (s br)" using assms(1) by (simp add: fitting_def)
    then show "2 ^ res_align (s r) dvd ?n" using al by (meson dvd_trans le_imp_power_dvd)
    assume "is_io (s r)"
    then have "10 \<le> res_align (s br)" using assms(1) u by (simp add: fitting_def)
    then have "2 ^ 10 dvd ?n" using al by (meson dvd_trans le_imp_power_dvd)
    then show "1024 dvd ?n" by simp
  qed
  then show ?thesis using layout_move [of s ?rs ?n 0] assms(1) by (simp add: fitting_def)
qed

lemma unat_of_nat_u64: "n < 18446744073709551616 \<Longrightarrow> unat (word_of_nat n :: u64) = n"
  by (simp add: unat_of_nat)

lemma assigned_at_fields:
  assumes "p + unat (res_size r) < 18446744073709551616"
  shows "unat (res_base (assigned_at r p)) = p" "unat (res_limit (assigned_at r p)) = p + unat (res_size r) - 1"
    "res_size (assigned_at r p) = res_size r" "res_align (assigned_at r p) = res_align r"
    "res_flags (assigned_at r p) AND IORESOURCE_ASSIGNED \<noteq> 0"
proof -
  have "res_base (assigned_at r p) = word_of_nat p"
    "res_limit (assigned_at r p) = word_of_nat (p + unat (res_size r) - 1)" by (simp_all add: assigned_at_def)
  then show "unat (res_base (assigned_at r p)) = p" "unat (res_limit (assigned_at r p)) = p + unat (res_size r) - 1"
    using assms by (simp_all only: unat_of_nat_u64)
  show "res_size (assigned_at r p) = res_size r" "res_align (assigned_at r p) = res_align r"
    "res_flags (assigned_at r p) AND IORESOURCE_ASSIGNED \<noteq> 0"
    using assigned_flag(2) by (simp_all add: assigned_at_def)
qed

lemma alloc_loop_places:
  assumes "type_bits m" "br \<notin> set (bus_ids b)" "distinct (map snd (bus_items m t s b))"
  shows "\<exists>base' s'. largest_loop (alloc_place br) b m t None (res_base (s br), s) = Some (base', s') \<and>
    same_types s s' \<and> (\<forall>i. i \<notin> set (map snd (bus_items m t s b)) \<longrightarrow> s' i = s i) \<and>
    (fitting b br m t s \<and> positioned (s br) \<longrightarrow> placed b br m t s' \<and>
      (\<forall>r. used m t s b r \<longrightarrow> positioned (s' r) \<and> res_limit (s' r) \<le> res_limit (s r)))"
proof -
  define rs where "rs = visit_order m t s b"
  let ?n = "unat (res_base (s br))"
  have sub: "set rs \<subseteq> set (map snd (bus_items m t s b))" by (auto simp: rs_def set_visit_order)
  then have br: "br \<notin> set rs" using assms(2) bus_items_sound by blast
  have dist: "distinct rs" using assms(3) by (simp add: rs_def visit_order_def)
  obtain base' s' where f: "fold (alloc_place br) rs (res_base (s br), s) = (base', s')" by fastforce
  have loop: "largest_loop (alloc_place br) b m t None (res_base (s br), s) = Some (base', s')"
    using largest_loop_order [OF assms(1), of t "(res_base (s br), s)" b "alloc_place br"] assms(3)
      alloc_place_need f by (simp add: rs_def)
  have frame: "s' i = s i" if "i \<notin> set rs" for i using alloc_fold_frame [OF that, of br] f by (metis snd_conv)
  have ty: "same_types s s'" by (rule loop_types [OF loop alloc_place_types])
  have "placed b br m t s' \<and> (\<forall>r. used m t s b r \<longrightarrow> positioned (s' r) \<and> res_limit (s' r) \<le> res_limit (s r))"
    if fit: "fitting b br m t s" and pos: "positioned (s br)"
  proof -
    note le = fitting_layout [OF fit pos, folded rs_def]
    have lim: "?n + unat (res_size (s br)) \<le> Suc (unat (res_limit (s br)))" "unat (res_limit (s br)) < 4611686018427387904"
      using pos by (simp_all add: positioned_def)
    have rng: "p + unat (res_size (s r)) \<le> ?n + unat (res_size (s br))" "?n \<le> p" "used m t s b r" "2 ^ res_align (s r) dvd p"
      if "(r, p) \<in> set (layout s rs ?n)" for r p
      using layout_range [OF that] layout_ids [OF that] le by (auto simp: used_iff rs_def)
    have lims: "res_limit (s br) \<le> res_limit (s r)" if "used m t s b r" for r using fit that by (simp add: fitting_def)
    have "\<forall>(r, p) \<in> set (layout s rs ?n). p + unat (res_size (s r)) \<le> Suc (unat (min (res_limit (s r)) (res_limit (s br))))"
    proof safe
      fix r p assume rp: "(r, p) \<in> set (layout s rs ?n)"
      have "min (res_limit (s r)) (res_limit (s br)) = res_limit (s br)" using lims [OF rng(3) [OF rp]] by simp
      then show "p + unat (res_size (s r)) \<le> Suc (unat (min (res_limit (s r)) (res_limit (s br))))"
        using rng(1) [OF rp] lim(1) by simp
    qed
    moreover have "?n + need s rs < 18446744073709551616"
      using fit lim by (simp add: fitting_def rs_def)
    ultimately have at: "\<forall>(r, p) \<in> set (layout s rs ?n). s' r = assigned_at (s r) p"
      using alloc_fold [OF dist br, of "res_base (s br)" s] f by simp
    have pl: "\<exists>p. (r, p) \<in> set (layout s rs ?n) \<and> s' r = assigned_at (s r) p \<and> p + unat (res_size (s r)) < 18446744073709551616"
      if "used m t s b r" for r
    proof -
      have r: "r \<in> set rs" "res_size (s r) \<noteq> 0" using that by (simp_all add: used_iff rs_def)
      obtain p where p: "(r, p) \<in> set (layout s rs ?n)" using layout_complete [of r rs s ?n] r by blast
      moreover have "p + unat (res_size (s r)) < 18446744073709551616" using rng(1) [OF p] lim by linarith
      moreover have "s' r = assigned_at (s r) p" using at p by blast
      ultimately show ?thesis by blast
    qed
    have "\<forall>i. same_need (s i) (snd (base', s') i)"
      by (rule largest_loop_inv [OF loop]) (use alloc_place_need same_need_trans in \<open>simp, blast\<close>)
    then have us: "used m t s' b r \<longleftrightarrow> used m t s b r" for r
      using used_cong [OF assms(1) ty, of t b r] by (simp add: same_need_def)
    have brs: "s' br = s br" using frame br by blast
    have "placed b br m t s'"
      unfolding placed_def us brs
    proof (intro allI impI conjI)
      fix r assume "used m t s b r"
      then obtain p where p: "(r, p) \<in> set (layout s rs ?n)" "s' r = assigned_at (s r) p" "p + unat (res_size (s r)) < 18446744073709551616"
        using pl by blast
      note fl = assigned_at_fields [OF p(3), folded p(2)]
      show "res_flags (s' r) AND IORESOURCE_ASSIGNED \<noteq> 0" by (rule fl)
      show "2 ^ res_align (s' r) dvd unat (res_base (s' r))" "?n \<le> unat (res_base (s' r))"
        "unat (res_base (s' r)) + unat (res_size (s' r)) \<le> ?n + unat (res_size (s br))"
        using rng [OF p(1)] fl by simp_all
      fix q assume "used m t s b q" "q \<noteq> r"
      then obtain p' where p': "(q, p') \<in> set (layout s rs ?n)" "s' q = assigned_at (s q) p'" "p' + unat (res_size (s q)) < 18446744073709551616"
        using pl by blast
      note fl' = assigned_at_fields [OF p'(3), folded p'(2)]
      show "unat (res_base (s' r)) + unat (res_size (s' r)) \<le> unat (res_base (s' q)) \<or>
        unat (res_base (s' q)) + unat (res_size (s' q)) \<le> unat (res_base (s' r))"
        using layout_apart [OF p(1) p'(1)] \<open>q \<noteq> r\<close> fl fl' by auto
    qed
    moreover have "positioned (s' r) \<and> res_limit (s' r) \<le> res_limit (s r)" if u: "used m t s b r" for r
    proof -
      obtain p where p: "(r, p) \<in> set (layout s rs ?n)" "s' r = assigned_at (s r) p" "p + unat (res_size (s r)) < 18446744073709551616"
        using pl [OF u] by blast
      note fl = assigned_at_fields [OF p(3), folded p(2)]
      have "0 < unat (res_size (s r))" using u by (simp add: used_def unat_gt_0)
      then show ?thesis
        using rng [OF p(1)] fl lim lims [OF u] unfolding positioned_def word_le_nat_alt
        by simp (intro conjI; linarith)
    qed
    ultimately show ?thesis by blast
  qed
  then show ?thesis using loop ty frame sub by blast
qed

text \<open>Placements survive changes elsewhere.\<close>

definition same_place :: "resource \<Rightarrow> resource \<Rightarrow> bool" where
  "same_place r r' \<longleftrightarrow> res_base r = res_base r' \<and> res_size r = res_size r' \<and> res_align r = res_align r' \<and>
     (res_flags r AND IORESOURCE_ASSIGNED \<noteq> 0 \<longrightarrow> res_flags r' AND IORESOURCE_ASSIGNED \<noteq> 0)"

lemma same_place_refl [simp]: "same_place r r"
  by (simp add: same_place_def)

lemma placed_used:
  assumes "placed b br m t s" "\<And>r. used m t s' b r \<longleftrightarrow> used m t s b r"
    "\<And>r. used m t s b r \<Longrightarrow> same_place (s r) (s' r)" "same_place (s br) (s' br)"
  shows "placed b br m t s'"
  using assms(1,3,4) unfolding placed_def assms(2) same_place_def by metis

lemma placed_local:
  assumes "placed b br m t s" "type_bits m" "same_types s s'"
    "\<forall>i \<in> touched m t s b. same_place (s i) (s' i)" "same_place (s br) (s' br)"
  shows "placed b br m t s'"
  using assms(1)
proof (rule placed_used)
  show "used m t s' b r \<longleftrightarrow> used m t s b r" for r
    using used_cong [OF assms(2,3), of t b r] assms(4) by (simp add: same_place_def)
  show "same_place (s r) (s' r)" if "used m t s b r" for r
    using that items_touched assms(4) by (simp add: used_def)
qed (rule assms(5))

lemma bus_tree_placed_cong:
  assumes "bus_tree placed b br m t s" "type_bits m" "same_types s s'"
    "\<forall>i \<in> insert br (touched m t s b). same_place (s i) (s' i)"
  shows "bus_tree placed b br m t s'"
  by (rule bus_tree_local [where P = placed and s = s and s' = s' and A = same_place and N = same_place,
      OF assms(1-3)]) (use assms(4) in \<open>simp_all add: placed_local [OF _ _ assms(3)] same_place_def\<close>)

section \<open>The second pass on a tree\<close>

abbreviation assigned :: "resource \<Rightarrow> resource" where
  "assigned r \<equiv> r\<lparr>res_flags := res_flags r OR IORESOURCE_ASSIGNED\<rparr>"

lemma same_place_assigned [simp]: "same_place r (assigned r)"
  using assigned_flag(1) by (simp add: same_place_def)

definition promise :: "u32 \<Rightarrow> u32 \<Rightarrow> store \<Rightarrow> nat \<Rightarrow> dev bus \<Rightarrow> store \<Rightarrow> bool" where
  "promise m t s r l s' \<longleftrightarrow> same_types s s' \<and> s' r = assigned (s r) \<and>
     (bus_tree fitting l r (sub_mask m) (sub_type t (s r)) s \<and> positioned (s r) \<longrightarrow>
      bus_tree placed l r (sub_mask m) (sub_type t (s r)) s')"

lemma promise_keep:
  assumes "promise m t s r l s1" "type_bits m" "same_types s1 s2" "\<forall>i \<in> zone m t s (r, Some l). s2 i = s1 i"
  shows "promise m t s r l s2"
proof -
  have tc: "touched (sub_mask m) (sub_type t (s r)) s1 l = touched (sub_mask m) (sub_type t (s r)) s l"
    using assms(1,2) by (intro touched_cong [symmetric]) (simp_all add: promise_def)
  have ag: "\<forall>i \<in> insert r (touched (sub_mask m) (sub_type t (s r)) s1 l). same_place (s1 i) (s2 i)"
    unfolding tc using assms(4) unfolding zone.simps by simp
  have tm: "type_bits (sub_mask m)" using assms(2) by simp
  have "bus_tree placed l r (sub_mask m) (sub_type t (s r)) s2"
    if "bus_tree placed l r (sub_mask m) (sub_type t (s r)) s1"
    by (rule bus_tree_placed_cong [OF that tm assms(3) ag])
  moreover have "same_types s s2" using assms(1) same_types_trans [OF _ assms(3)] by (simp add: promise_def)
  moreover have "s2 r = assigned (s r)" using assms(1,4) by (simp add: promise_def)
  ultimately show ?thesis using assms(1) unfolding promise_def by blast
qed

lemma allocate_links:
  assumes "type_bits m" "same_types s0 s"
    "\<And>r l s'. (r, Some l) \<in> set (bus_links m t s0 b) \<Longrightarrow> same_types s0 s' \<Longrightarrow>
      \<exists>s1. allocate_resources l r (sub_mask m) (sub_type t (s0 r)) s' = Some s1 \<and>
        (\<forall>i. i \<notin> insert r (touched (sub_mask m) (sub_type t (s0 r)) s0 l) \<longrightarrow> s1 i = s' i) \<and> s1 r = assigned (s' r) \<and>
        (bus_tree fitting l r (sub_mask m) (sub_type t (s0 r)) s' \<and> positioned (s' r) \<longrightarrow>
          bus_tree placed l r (sub_mask m) (sub_type t (s0 r)) s1)"
    "sorted_wrt (\<lambda>x y. zone m t s0 x \<inter> zone m t s0 y = {}) (bus_links m t s0 b)"
    "\<forall>(r, lo) \<in> set (bus_links m t s0 b). lo \<noteq> None"
  shows "\<exists>s1. allocate_devices (children b) m t s = Some s1 \<and>
    (\<forall>i. (\<forall>x \<in> set (bus_links m t s0 b). i \<notin> zone m t s0 x) \<longrightarrow> s1 i = s i) \<and>
    (\<forall>r l. (r, Some l) \<in> set (bus_links m t s0 b) \<longrightarrow> promise m t s r l s1)"
proof -
  have zc: "zone m t s x = zone m t s0 x" for x by (rule zone_cong [OF assms(1,2), symmetric])
  have lc: "bus_links m t s b = bus_links m t s0 b" by (rule same_types_cong(2) [OF assms(1,2), symmetric])
  have "\<exists>s1. through (alloc.sub_pass m t) (bus_links m t s b) s = Some s1 \<and>
    (\<forall>i. (\<forall>x \<in> set (bus_links m t s b). i \<notin> zone m t s x) \<longrightarrow> s1 i = s i) \<and>
    (\<forall>r l. (r, Some l) \<in> set (bus_links m t s b) \<longrightarrow> promise m t s r l s1)"
  proof (rule alloc.links_run)
    fix r l s' assume r: "(r, Some l) \<in> set (bus_links m t s b)" and ty: "same_types s s'"
      and ag: "\<forall>i \<in> zone m t s (r, Some l). s' i = s i"
    have tc: "sub_type t (s0 r) = sub_type t (s r)" "sub_type t (s' r) = sub_type t (s r)"
      using same_types_cong(4) [OF assms(1)] assms(2) ty by metis+
    have "same_types s0 s'" using assms(2) ty by (rule same_types_trans)
    from assms(3) [OF r [unfolded lc] this] obtain s1 where
      s1: "allocate_resources l r (sub_mask m) (sub_type t (s r)) s' = Some s1"
        "\<forall>i. i \<notin> zone m t s0 (r, Some l) \<longrightarrow> s1 i = s' i" "s1 r = assigned (s' r)"
        "bus_tree fitting l r (sub_mask m) (sub_type t (s r)) s' \<and> positioned (s' r) \<longrightarrow>
          bus_tree placed l r (sub_mask m) (sub_type t (s r)) s1"
      unfolding zone.simps tc(1) by blast
    have "bus_tree fitting l r (sub_mask m) (sub_type t (s r)) s'" if "bus_tree fitting l r (sub_mask m) (sub_type t (s r)) s"
      using that ag by (intro bus_tree_fitting_cong [OF that _ ty]) (simp_all add: assms(1))
    then have "promise m t s r l s1"
      using s1(3,4) ag same_types_trans [OF ty allocate_types(1) [OF s1(1)]] by (simp add: promise_def)
    then show "\<exists>s1. alloc.sub_pass m t l r s' = Some s1 \<and> (\<forall>i. i \<notin> zone m t s (r, Some l) \<longrightarrow> s1 i = s' i) \<and> promise m t s r l s1"
      using s1(1,2) unfolding alloc.sub_pass_def tc(2) zc by blast
  next
    fix r l s1 s2 assume "promise m t s r l s1" "same_types s1 s2" "\<forall>i \<in> zone m t s (r, Some l). s2 i = s1 i"
    then show "promise m t s r l s2" using promise_keep assms(1) by blast
  qed (use assms(4,5) in \<open>simp_all add: zc lc\<close>)
  then show ?thesis
    using alloc.devices_through [OF assms(1), of "children b" t s] unfolding bus_links_def [symmetric] zc lc by simp
qed

lemma used_items_cong:
  assumes "type_bits m" "same_types s s'" "\<forall>i \<in> set (map snd (bus_items m t s b)). res_size (s i) = res_size (s' i)"
  shows "used m t s b r = used m t s' b r"
  using same_types_cong(3) [OF assms(1,2), of t b] movable_cong [OF assms(2), of r] assms(3)
  unfolding used_def by metis

lemma allocate_run:
  assumes "wf_bus b br m t s"
  shows "same_types s s0 \<Longrightarrow>
    \<exists>s1. allocate_resources b br m t s0 = Some s1 \<and> (\<forall>i. i \<notin> insert br (touched m t s b) \<longrightarrow> s1 i = s0 i) \<and>
      s1 br = assigned (s0 br) \<and>
      (bus_tree fitting b br m t s0 \<and> positioned (s0 br) \<longrightarrow> bus_tree placed b br m t s1)"
  using assms
proof (induction arbitrary: s0 rule: wf_bus.induct)
  case (1 m br b s t)
  note tb = "1.hyps"(1) and brb = "1.hyps"(2)
  let ?links = "bus_links m t s b"
  have z: "zone m t s x \<subseteq> touched m t s b" if "x \<in> set ?links" for x using zone_touched that by (cases x) auto
  have out: "br \<notin> touched m t s b" using brb by (simp add: touched_def)
  have items: "bus_items m t s0 b = bus_items m t s b" using same_types_cong(3) [OF tb "1.prems"] by simp
  obtain base' s' where loop: "largest_loop (alloc_place br) b m t None (res_base (s0 br), s0) = Some (base', s')"
    "same_types s0 s'" "\<forall>i. i \<notin> set (map snd (bus_items m t s b)) \<longrightarrow> s' i = s0 i"
    "fitting b br m t s0 \<and> positioned (s0 br) \<longrightarrow> placed b br m t s' \<and>
      (\<forall>r. used m t s0 b r \<longrightarrow> positioned (s' r) \<and> res_limit (s' r) \<le> res_limit (s0 r))"
    using alloc_loop_places [OF tb brb, of t s0] "1.hyps"(4) unfolding items by blast
  have need: "\<forall>i. same_need (s0 i) (s' i)"
    using largest_loop_inv [OF loop(1), of "\<lambda>bs. \<forall>i. same_need (s0 i) (snd bs i)"] alloc_place_need same_need_trans
    by (simp, blast)
  have br': "s' br = s0 br" using loop(3) brb bus_items_sound by blast
  define s2 where "s2 = s'(br := assigned (s' br))"
  have ty2: "same_types s' s2" unfolding s2_def by (intro same_types_upd) (simp_all add: same_type_def flags_masked)
  have ty: "same_types s s2" using same_types_trans [OF "1.prems" same_types_trans [OF loop(2) ty2]] .
  have "\<exists>s1. allocate_devices (children b) m t s2 = Some s1 \<and>
    (\<forall>i. (\<forall>x \<in> set ?links. i \<notin> zone m t s x) \<longrightarrow> s1 i = s2 i) \<and>
    (\<forall>r l. (r, Some l) \<in> set ?links \<longrightarrow> promise m t s2 r l s1)"
    by (rule allocate_links [OF tb ty "1.IH" "1.hyps"(5,6)])
  then obtain s1 where s1: "allocate_devices (children b) m t s2 = Some s1"
    "\<forall>i. (\<forall>x \<in> set ?links. i \<notin> zone m t s x) \<longrightarrow> s1 i = s2 i"
    "\<forall>r l. (r, Some l) \<in> set ?links \<longrightarrow> promise m t s2 r l s1" by blast
  have run: "allocate_resources b br m t s0 = Some s1" using loop(1) s1(1) by (simp add: s2_def)
  have s1br: "s1 br = assigned (s0 br)" using s1(2) z out br' by (metis fun_upd_same s2_def subsetD)
  have eq2: "s2 i = s' i" if "i \<noteq> br" for i using that by (simp add: s2_def)
  have frame: "s1 i = s0 i" if "i \<notin> insert br (touched m t s b)" for i
  proof -
    have "i \<notin> set (map snd (bus_items m t s b))" using that items_touched by blast
    moreover have "\<forall>x \<in> set ?links. i \<notin> zone m t s x" using that z by blast
    ultimately show ?thesis using that eq2 loop(3) s1(2) by simp
  qed
  have ty21: "same_types s2 s1" by (rule allocate_types(2) [OF s1(1)])
  have ty1: "same_types s s1" using ty ty21 by (rule same_types_trans)
  have ty01: "same_types s0 s1" using same_types_trans [OF loop(2) same_types_trans [OF ty2 ty21]] .
  have item: "s1 r = s2 r \<or> s1 r = assigned (s2 r)" if "r \<in> set (map snd (bus_items m t s b))" for r
  proof (cases "\<exists>x \<in> set ?links. r \<in> zone m t s x")
    case True
    then obtain q lo where qlo: "(q, lo) \<in> set ?links" "r \<in> zone m t s (q, lo)" by auto
    then have "lo \<noteq> None" using "1.hyps"(6) by blast
    then obtain l where "lo = Some l" by blast
    with qlo have q: "(q, Some l) \<in> set ?links" "r \<in> zone m t s (q, Some l)" by simp_all
    have "r \<notin> touched (sub_mask m) (sub_type t (s q)) s l" using "1.hyps"(8) [OF q(1)] that by blast
    then have "r = q" using q(2) by simp
    then show ?thesis using s1(3) q(1) by (simp add: promise_def)
  qed (use s1(2) in blast)
  have size: "res_size (s1 r) = res_size (s0 r)" if "r \<in> set (map snd (bus_items m t s b))" for r
  proof -
    have "r \<noteq> br" using that brb bus_items_sound by blast
    then show ?thesis using item [OF that] eq2 need by (auto simp: same_need_def)
  qed
  have us: "used m t s1 b r \<longleftrightarrow> used m t s0 b r" for r
    by (rule used_items_cong [OF tb ty01, symmetric]) (simp add: items size)
  have us': "used m t s' b r \<longleftrightarrow> used m t s0 b r" for r
    by (rule used_items_cong [OF tb loop(2), symmetric]) (use need in \<open>simp add: same_need_def\<close>)
  have "bus_tree placed b br m t s1" if fit: "bus_tree fitting b br m t s0" and pos: "positioned (s0 br)"
  proof (rule bus_tree.intros)
    have "placed b br m t s'" using loop(4) bus_tree_root [OF fit] pos by blast
    then show "placed b br m t s1"
    proof (rule placed_used)
      show "used m t s1 b r \<longleftrightarrow> used m t s' b r" for r by (simp add: us us')
      show "same_place (s' br) (s1 br)" by (simp add: s1br br')
      show "same_place (s' r) (s1 r)" if "used m t s' b r" for r
      proof -
        have r: "r \<in> set (map snd (bus_items m t s b))" using that us' items by (simp add: used_def)
        then have "r \<noteq> br" using brb bus_items_sound by blast
        then show ?thesis using item [OF r] eq2 [of r] by (metis same_place_refl same_place_assigned)
      qed
    qed
  next
    fix r l assume r: "(r, Some l) \<in> set (bus_links m t s1 b)" "used m t s1 b r"
    have r': "(r, Some l) \<in> set ?links" "(r, Some l) \<in> set (bus_links m t s0 b)"
      using r(1) same_types_cong(2) [OF tb ty1, of t b] same_types_cong(2) [OF tb "1.prems", of t b] by simp_all
    have u: "used m t s0 b r" using r(2) us by simp
    have zb: "br \<notin> zone m t s (r, Some l)" using z [OF r'(1)] out by blast
    have st: "sub_type t (s1 r) = sub_type t (s2 r)" "sub_type t (s0 r) = sub_type t (s2 r)" "sub_type t (s r) = sub_type t (s2 r)"
      using same_types_cong(4) [OF tb] ty ty1 "1.prems" by metis+
    have pr: "promise m t s2 r l s1" using s1(3) r'(1) by blast
    have rb: "r \<noteq> br" using zb by auto
    have "positioned (s2 r)" "res_limit (s2 r) \<le> res_limit (s0 r)"
      using loop(4) bus_tree_root [OF fit] pos u eq2 [OF rb] by auto
    moreover have "bus_tree fitting l r (sub_mask m) (sub_type t (s2 r)) s2"
    proof (rule bus_tree_fitting_cong)
      show "bus_tree fitting l r (sub_mask m) (sub_type t (s2 r)) s0"
        using bus_tree_link [OF fit r'(2) u] st(2) by simp
      show "type_bits (sub_mask m)" using tb by simp
      show "same_types s0 s2" using loop(2) ty2 by (rule same_types_trans)
      have tc: "touched (sub_mask m) (sub_type t (s2 r)) s0 l = touched (sub_mask m) (sub_type t (s r)) s l"
        using touched_cong [OF _ "1.prems", of "sub_mask m"] tb st(3) by simp
      show "\<forall>i \<in> touched (sub_mask m) (sub_type t (s2 r)) s0 l. res_size (s0 i) = res_size (s2 i) \<and>
          res_align (s0 i) = res_align (s2 i) \<and> res_limit (s0 i) = res_limit (s2 i)"
        unfolding tc
      proof
        fix i assume i: "i \<in> touched (sub_mask m) (sub_type t (s r)) s l"
        then have "i \<notin> set (map snd (bus_items m t s b))" "i \<noteq> br" using "1.hyps"(8) [OF r'(1)] zb by auto
        then show "res_size (s0 i) = res_size (s2 i) \<and> res_align (s0 i) = res_align (s2 i) \<and> res_limit (s0 i) = res_limit (s2 i)"
          using eq2 loop(3) by simp
      qed
      show "res_size (s0 r) = res_size (s2 r) \<and> res_align (s0 r) = res_align (s2 r) \<and> res_limit (s2 r) \<le> res_limit (s0 r)"
        using need eq2 [OF rb] calculation(2) by (simp add: same_need_def)
    qed
    ultimately show "bus_tree placed l r (sub_mask m) (sub_type t (s1 r)) s1"
      using pr unfolding promise_def st(1) by blast
  qed
  then show ?case using run frame s1br by blast
qed

end
