(* ===== verification/Allocator_Windows.thy ===== *)
theory Allocator_Windows
  imports Allocator
begin

text \<open>
  The windows of a domain: \<open>constrain_resources\<close> moves the limits of a domain away from the
  fixed resources of the devices below it.
\<close>

section \<open>One fixed resource\<close>

lemma sint_difference:
  fixes a c :: u64
  assumes "unat a \<le> 4611686018427387904" "unat c \<le> 4611686018427387904"
  shows "sint (a - c) = int (unat a) - int (unat c)"
proof -
  have lo: "- 9223372036854775808 \<le> int (unat a) - int (unat c)" and hi: "int (unat a) - int (unat c) < 9223372036854775808"
    using assms by linarith+
  have "a - c = word_of_int (int (unat a) - int (unat c))" by simp
  then show ?thesis using int_word_sint [of "int (unat a) - int (unat c)", where ?'a = 64] lo hi
    by (simp add: mod_pos_pos_trivial)
qed

text \<open>
  What the arithmetic carries: a resource that ends below \<open>2 ^ 62\<close>, and a window below \<open>2 ^ 62\<close>.
  A resource that starts at address 0 moves the lower end of the window, not the upper one to
  before 0, exactly when it is no longer than the two ends of the window together; when it lies
  below the middle of a window, or below the window, this always holds.
\<close>

definition small :: "resource \<Rightarrow> bool" where
  "small r \<longleftrightarrow> unat (res_base r) + unat (res_size r) \<le> 4611686018427387904"

definition small_window :: "window \<Rightarrow> bool" where
  "small_window w \<longleftrightarrow> unat (win_base w) \<le> 4611686018427387904 \<and> unat (win_limit w) < 4611686018427387904"

definition passes_zero :: "resource \<Rightarrow> window \<Rightarrow> bool" where
  "passes_zero r w \<longleftrightarrow> (res_base r = 0 \<longrightarrow> unat (res_size r) \<le> unat (win_base w) + unat (win_limit w))"

definition clear_of :: "resource \<Rightarrow> window \<Rightarrow> bool" where
  "clear_of r w \<longleftrightarrow> unat (res_base r) + unat (res_size r) \<le> unat (win_base w) \<or> unat (win_limit w) < unat (res_base r)"

definition shrunk :: "window \<Rightarrow> window \<Rightarrow> bool" where
  "shrunk w w' \<longleftrightarrow> win_base w \<le> win_base w' \<and> win_limit w' \<le> win_limit w"

lemma shrunk_refl [simp]: "shrunk w w"
  by (simp add: shrunk_def)

lemma shrunk_trans: "shrunk u v \<Longrightarrow> shrunk v w \<Longrightarrow> shrunk u w"
  by (auto simp: shrunk_def)

lemma clear_of_shrunk: "clear_of r w \<Longrightarrow> shrunk w w' \<Longrightarrow> clear_of r w'"
  unfolding clear_of_def shrunk_def word_le_nat_alt by linarith

lemma unat_last:
  fixes x y :: u64
  assumes "y \<noteq> 0" "unat x + unat y \<le> 4611686018427387904"
  shows "unat (x + y - 1) = unat x + unat y - 1" "unat (x + y) = unat x + unat y"
proof -
  show u: "unat (x + y) = unat x + unat y" 
    using assms(2) by (simp add: unat_word_ariths)
  have "0 < unat y" using assms(1) by (simp add: unat_gt_0)
  then have "x + y \<noteq> 0" using u by (metis add_is_0 not_gr_zero unat_0)
  then show "unat (x + y - 1) = unat x + unat y - 1" using u by (simp add: unat_minus_one)
qed

lemma constrain_window:
  assumes "small r" "passes_zero r w" "res_size r \<noteq> 0" "small_window w"
  shows "small_window (constrain_window r w)" "shrunk w (constrain_window r w)" "clear_of r (constrain_window r w)"
proof -
  let ?b = "unat (res_base r)" and ?n = "unat (res_size r)" and ?wb = "unat (win_base w)" and ?wl = "unat (win_limit w)"
  have n: "0 < ?n" using assms(3) by (simp add: unat_gt_0)
  have fits: "?b + ?n \<le> 4611686018427387904" using assms(1) by (simp add: small_def)
  note last = unat_last [OF assms(3) fits]
  have win: "?wb \<le> 4611686018427387904" "?wl < 4611686018427387904"
    using assms(4) by (simp_all add: small_window_def)
  have out: "(res_base r + res_size r - 1 < win_base w) = (?b + ?n \<le> ?wb)" "(res_base r > win_limit w) = (?wl < ?b)"
    unfolding word_less_nat_alt last using n by linarith+
  have side: "sint (win_limit w - (res_base r + res_size r - 1)) > sint (res_base r - win_base w) \<longleftrightarrow>
      int ?b - int ?wb < int ?wl - int (?b + ?n - 1)"
    using sint_difference [of "win_limit w" "res_base r + res_size r - 1"] sint_difference [of "res_base r" "win_base w"]
      win fits n last by simp
  consider (off) "?b + ?n \<le> ?wb \<or> ?wl < ?b"
    | (above) "\<not> (?b + ?n \<le> ?wb \<or> ?wl < ?b)" "int ?b - int ?wb < int ?wl - int (?b + ?n - 1)"
    | (below) "\<not> (?b + ?n \<le> ?wb \<or> ?wl < ?b)" "\<not> (int ?b - int ?wb < int ?wl - int (?b + ?n - 1))" by blast
  then have "small_window (constrain_window r w) \<and> shrunk w (constrain_window r w) \<and> clear_of r (constrain_window r w)"
  proof cases
    case off
    then have "constrain_window r w = w" unfolding constrain_window_def out by simp
    then show ?thesis using off assms(4) by (simp add: clear_of_def)
  next
    case above
    then have "constrain_window r w = w\<lparr>win_base := res_base r + res_size r\<rparr>"
      unfolding constrain_window_def out side by simp
    then show ?thesis using above fits win by (simp add: clear_of_def shrunk_def small_window_def word_le_nat_alt last)
  next
    case below
    have e: "constrain_window r w = w\<lparr>win_limit := res_base r - 1\<rparr>"
      unfolding constrain_window_def out side using below by simp
    have nz: "res_base r \<noteq> 0"
    proof
      assume z: "res_base r = 0"
      then have "?n \<le> ?wb + ?wl" using assms(2) by (simp add: passes_zero_def)
      moreover have "?b = 0" using z by simp
      ultimately show False using below(2) n by linarith
    qed
    then have "0 < ?b" "unat (res_base r - 1) = ?b - 1" by (simp_all add: unat_gt_0 unat_minus_one)
    moreover have "?b - 1 < 4611686018427387904" "?b - 1 \<le> ?wl" "?b - 1 < ?b"
      using calculation(1) below(1) win by linarith+
    ultimately show ?thesis using win(1) unfolding e clear_of_def shrunk_def small_window_def word_le_nat_alt by simp
  qed
  then show "small_window (constrain_window r w)" "shrunk w (constrain_window r w)" "clear_of r (constrain_window r w)"
    by simp_all
qed

text \<open>A resource at address 0 that would cover the window is the only one the test gets wrong.\<close>

lemma passes_zero_exact:
  assumes "small r" "res_size r \<noteq> 0" "small_window w"
  shows "passes_zero r w \<longleftrightarrow> shrunk w (constrain_window r w)"
proof
  assume sh: "shrunk w (constrain_window r w)"
  let ?n = "unat (res_size r)" and ?wb = "unat (win_base w)" and ?wl = "unat (win_limit w)"
  have win: "?wb \<le> 4611686018427387904" "?wl < 4611686018427387904"
    using assms(3) by (simp_all add: small_window_def)
  show "passes_zero r w"
  proof (rule ccontr)
    assume "\<not> passes_zero r w"
    then have z: "res_base r = 0" and big: "?wb + ?wl < ?n" by (simp_all add: passes_zero_def)
    have fits: "unat (res_base r) + ?n \<le> 4611686018427387904" using assms(1) by (simp add: small_def)
    note last = unat_last [OF assms(2) fits]
    have "sint (win_limit w - (res_base r + res_size r - 1)) = int ?wl - int (unat (res_base r) + ?n - 1)"
      using sint_difference [of "win_limit w" "res_base r + res_size r - 1"] win fits last by simp
    moreover have "sint (res_base r - win_base w) = int (unat (res_base r)) - int ?wb"
      using sint_difference [of "res_base r" "win_base w"] win fits by simp
    ultimately have "\<not> sint (win_limit w - (res_base r + res_size r - 1)) > sint (res_base r - win_base w)"
      using big z unat_0 [where 'a = 64] by linarith
    moreover have "\<not> (res_base r + res_size r - 1 < win_base w)" "\<not> (res_base r > win_limit w)"
      unfolding word_less_nat_alt last using big z by simp_all
    ultimately have "constrain_window r w = w\<lparr>win_limit := - 1\<rparr>" by (simp add: constrain_window_def z)
    then have "(- 1 :: u64) \<le> win_limit w" using sh by (simp add: shrunk_def)
    moreover have "(- 1 :: u64) = 0xffffffffffffffff" by simp
    ultimately show False using win(2) by (simp add: word_le_nat_alt)
  qed
qed (use constrain_window [OF assms(1) _ assms(2,3)] in blast)

section \<open>The tree below a device\<close>

text \<open>The resources that \<open>constrain_resources\<close> reads: those of the device and of the enabled devices below it.\<close>

inductive seen :: "dev \<Rightarrow> nat \<Rightarrow> bool" where
  seen_own: "r \<in> set (resources d) \<Longrightarrow> seen d r"
| seen_child: "l \<in> set (link_list d) \<Longrightarrow> c \<in> set (children l) \<Longrightarrow> enabled c \<Longrightarrow> seen c r \<Longrightarrow> seen d r"

inductive_simps seen_iff: "seen d r"

text \<open>The same resources in the order in which \<open>constrain_resources\<close> reads them.\<close>

function walk :: "dev \<Rightarrow> nat list" where
  "walk d = resources d @
     concat (map (\<lambda>l. concat (map (\<lambda>c. if enabled c then walk c else []) (children l))) (link_list d))"
  by pat_completeness auto

termination
proof (relation "measure dev_height")
  fix d :: dev and l c
  assume "l \<in> set (link_list d)" "c \<in> set (children l)"
  then show "(c, d) \<in> measure dev_height" using bus_height_less [of l d] dev_height_le [of c l] by simp
qed simp

declare walk.simps [simp del]

definition holds_space :: "resource \<Rightarrow> bool" where
  "holds_space r \<longleftrightarrow> res_flags r AND IORESOURCE_FIXED \<noteq> 0 \<and> res_size r \<noteq> 0"

text \<open>
  The condition for the arithmetic along the walk: every fixed resource is small, and one at
  address 0 passes the window as it is when the walk comes to it.
\<close>

definition steady_fixed :: "resource \<Rightarrow> constraints \<Rightarrow> bool" where
  "steady_fixed r L \<longleftrightarrow> (holds_space r \<longrightarrow> (\<forall>w. resource_limit L r = Some w \<longrightarrow> small r \<and> passes_zero r w))"

primrec steady_walk :: "store \<Rightarrow> nat list \<Rightarrow> constraints \<Rightarrow> bool" where
  "steady_walk s [] L \<longleftrightarrow> True"
| "steady_walk s (r # rs) L \<longleftrightarrow> steady_fixed (s r) L \<and> steady_walk s rs (constrain_fixed (s r) L)"

definition small_limits :: "constraints \<Rightarrow> bool" where
  "small_limits L \<longleftrightarrow> small_window (c_io L) \<and> small_window (c_mem L)"

definition clear_limits :: "resource \<Rightarrow> constraints \<Rightarrow> bool" where
  "clear_limits r L \<longleftrightarrow> (holds_space r \<longrightarrow> (\<forall>w. resource_limit L r = Some w \<longrightarrow> clear_of r w))"

definition shrunk_limits :: "constraints \<Rightarrow> constraints \<Rightarrow> bool" where
  "shrunk_limits L L' \<longleftrightarrow> shrunk (c_io L) (c_io L') \<and> shrunk (c_mem L) (c_mem L')"

lemma shrunk_limits_refl [simp]: "shrunk_limits L L"
  by (simp add: shrunk_limits_def)

lemma shrunk_limits_trans: "shrunk_limits L M \<Longrightarrow> shrunk_limits M N \<Longrightarrow> shrunk_limits L N"
  unfolding shrunk_limits_def using shrunk_trans by blast

lemma clear_limits_shrunk: "clear_limits r L \<Longrightarrow> shrunk_limits L L' \<Longrightarrow> clear_limits r L'"
  unfolding clear_limits_def shrunk_limits_def resource_limit_def
  by (auto split: if_splits intro: clear_of_shrunk)

lemma io_not_mem: "resource_is r IORESOURCE_IO \<Longrightarrow> \<not> resource_is r IORESOURCE_MEM"
  by (simp add: resource_is_def IORESOURCE_IO_def IORESOURCE_MEM_def)

definition constrained :: "resource set \<Rightarrow> constraints \<Rightarrow> constraints \<Rightarrow> bool" where
  "constrained R L L' \<longleftrightarrow> small_limits L' \<and> shrunk_limits L L' \<and> (\<forall>r \<in> R. clear_limits r L')"

lemma constrained_empty: "small_limits L \<Longrightarrow> constrained {} L L"
  by (simp add: constrained_def)

lemma constrained_seq: "constrained R L M \<Longrightarrow> constrained S M N \<Longrightarrow> constrained (R \<union> S) L N"
  unfolding constrained_def using shrunk_limits_trans clear_limits_shrunk by blast

lemma constrained_small: "constrained R L M \<Longrightarrow> small_limits M"
  by (simp add: constrained_def)

lemma constrain_fixed:
  assumes "steady_fixed r L" "small_limits L"
  shows "constrained {r} L (constrain_fixed r L)"
proof (cases "holds_space r \<and> resource_limit L r \<noteq> None")
  case False
  then have "constrain_fixed r L = L" by (auto simp: constrain_fixed_def holds_space_def)
  moreover have "clear_limits r L" using False by (auto simp: clear_limits_def)
  ultimately show ?thesis using assms by (simp add: constrained_def)
next
  case True
  then obtain w where w: "resource_limit L r = Some w" and n: "res_size r \<noteq> 0" by (auto simp: holds_space_def)
  have st: "small r" "passes_zero r w" using assms(1) True w by (simp_all add: steady_fixed_def)
  have "small_window w" using assms(2) w by (auto simp: small_limits_def resource_limit_def split: if_splits)
  note one = constrain_window [OF st n this]
  have e: "constrain_fixed r L = put_limit r (constrain_window r w) L"
    using True w by (simp add: constrain_fixed_def holds_space_def)
  show ?thesis
  proof (cases "resource_is r IORESOURCE_MEM")
    case mem: True
    then have "w = c_mem L" using w by (simp add: resource_limit_def)
    then show ?thesis unfolding e using one assms(2) mem
      by (simp add: constrained_def small_limits_def shrunk_limits_def clear_limits_def resource_limit_def put_limit_def)
  next
    case mem: False
    then have "resource_is r IORESOURCE_IO" "w = c_io L" using w by (simp_all add: resource_limit_def split: if_splits)
    then show ?thesis unfolding e using one assms(2) mem
      by (simp add: constrained_def small_limits_def shrunk_limits_def clear_limits_def resource_limit_def put_limit_def)
  qed
qed

lemma constrain_list:
  assumes "steady_walk s rs L" "small_limits L"
  shows "constrained (s ` set rs) L (fold (\<lambda>r. constrain_fixed (s r)) rs L)"
  using assms
proof (induction rs arbitrary: L)
  case Nil
  then show ?case by (simp add: constrained_empty)
next
  case (Cons r rs)
  have one: "constrained {s r} L (constrain_fixed (s r) L)" using Cons.prems by (intro constrain_fixed) simp_all
  have "constrained (s ` set rs) (constrain_fixed (s r) L) (fold (\<lambda>r. constrain_fixed (s r)) rs (constrain_fixed (s r) L))"
    using Cons.prems constrained_small [OF one] by (intro Cons.IH) simp_all
  from constrained_seq [OF one this] show ?case by simp
qed

text \<open>The recursion over links and children is one run along the walk.\<close>

lemma constrain_walk:
  shows "constrain_resources s d L = fold (\<lambda>r. constrain_fixed (s r)) (walk d) L"
    and "constrain_links s ls L = fold (\<lambda>r. constrain_fixed (s r))
      (concat (map (\<lambda>l. concat (map (\<lambda>c. if enabled c then walk c else []) (children l))) ls)) L"
    and "constrain_children s ds L = fold (\<lambda>r. constrain_fixed (s r))
      (concat (map (\<lambda>c. if enabled c then walk c else []) ds)) L"
proof (induction s d L and s ls L and s ds L rule: constrain_resources_constrain_links_constrain_children.induct)
  case (1 s d L)
  then show ?case by (simp add: walk.simps [of d])
qed simp_all

lemma walk_seen: "r \<in> set (walk d) \<Longrightarrow> seen d r"
proof (induction d rule: walk.induct)
  case (1 d)
  show ?case using "1.prems" "1.IH" unfolding walk.simps [of d]
    by (auto split: if_splits intro: seen.intros)
qed

lemma seen_walk: "seen d r \<Longrightarrow> r \<in> set (walk d)"
proof (induction rule: seen.induct)
  case (seen_own r d)
  then show ?case by (simp add: walk.simps [of d])
next
  case (seen_child l d c r)
  then show ?case unfolding walk.simps [of d] by auto
qed

lemma walk_set: "set (walk d) = {r. seen d r}"
  using walk_seen seen_walk by blast

lemma constrain_tree:
  assumes "steady_walk s (walk d) L" "small_limits L"
  shows "constrained (s ` {r. seen d r}) L (constrain_resources s d L)"
  using constrain_list [OF assms] unfolding constrain_walk(1) walk_set .

end
