(* ===== verification/Allocator_Domains.thy ===== *)
theory Allocator_Domains
  imports Allocator_Place Allocator_Windows
begin

text \<open>
  The domains: \<open>dev_configure\<close> runs both passes on the first link of every domain, once for
  each of its port and memory windows, and moves the windows away from the fixed resources
  between the passes.
\<close>

section \<open>The windows of the domains as a list of bridges\<close>

definition is_root :: "resource \<Rightarrow> bool" where
  "is_root r \<longleftrightarrow> res_flags r AND IORESOURCE_FIXED = 0 \<and>
     (res_flags r AND IORESOURCE_MEM \<noteq> 0 \<or> res_flags r AND IORESOURCE_IO \<noteq> 0)"

definition root_type :: "resource \<Rightarrow> u32" where
  "root_type r = (if res_flags r AND IORESOURCE_MEM \<noteq> 0 then IORESOURCE_MEM else IORESOURCE_IO)"

definition first_link :: "dev \<Rightarrow> dev bus option" where
  "first_link d = (case link_list d of [] \<Rightarrow> None | l # _ \<Rightarrow> Some l)"

definition domain_roots :: "store \<Rightarrow> dev \<Rightarrow> nat list \<Rightarrow> (nat \<times> dev bus option) list" where
  "domain_roots s d rs = map (\<lambda>r. (r, first_link d)) (filter (\<lambda>r. is_root (s r)) rs)"

definition roots :: "store \<Rightarrow> dev list \<Rightarrow> (nat \<times> dev bus option) list" where
  "roots s ds = concat (map (\<lambda>d. domain_roots s d (resources d)) (filter is_domain ds))"

lemma root_cong:
  assumes "same_types s s'"
  shows "is_root (s' r) = is_root (s r)" "root_type (s' r) = root_type (s r)"
proof -
  have "res_flags (s r) AND m = res_flags (s' r) AND m" if "type_bits m" for m
    using assms same_type_flags [OF _ that] unfolding same_types_def by blast
  from this [of IORESOURCE_FIXED] this [of IORESOURCE_MEM] this [of IORESOURCE_IO]
  show "is_root (s' r) = is_root (s r)" "root_type (s' r) = root_type (s r)"
    by (simp_all add: is_root_def root_type_def)
qed

lemma roots_cong: "same_types s s' \<Longrightarrow> domain_roots s' d rs = domain_roots s d rs" "same_types s s' \<Longrightarrow> roots s' ds = roots s ds"
  by (simp_all add: domain_roots_def roots_def root_cong)

context bus_pass
begin

definition root_pass :: "dev bus \<Rightarrow> nat \<Rightarrow> store \<Rightarrow> store option" where
  "root_pass l r s = pass l r IORESOURCE_TYPE_MASK (root_type (s r)) s"

lemma root_pass_types: "\<forall>l r s s'. root_pass l r s = Some s' \<longrightarrow> same_types s s'"
  unfolding root_pass_def using types by blast

lemma domain_through: "domain_resources pass d rs s = through root_pass (domain_roots s d rs) s"
proof (induction rs arbitrary: s)
  case Nil
  then show ?case by (simp add: domain_roots_def)
next
  case (Cons r rs)
  have nxt: "domain_resources pass d rs s' = through root_pass (domain_roots s d rs) s'"
    if "root_pass l r s = Some s'" for l s'
    using Cons [of s'] roots_cong(1) [of s s'] root_pass_types that by metis
  have step: "Option.bind (root_pass l r s) (domain_resources pass d rs) =
      Option.bind (root_pass l r s) (through root_pass (domain_roots s d rs))" for l
    using nxt by (cases "root_pass l r s") simp_all
  show ?case
  proof (cases "is_root (s r)")
    case False
    then show ?thesis using Cons [of s] by (auto simp: is_root_def domain_roots_def)
  next
    case root: True
    show ?thesis
    proof (cases "link_list d")
      case Nil
      then show ?thesis using root by (auto simp: is_root_def domain_roots_def first_link_def)
    next
      case (Cons l ls)
      then have "domain_resources pass d (r # rs) s = Option.bind (root_pass l r s) (domain_resources pass d rs)"
        using root by (auto simp: is_root_def root_pass_def root_type_def)
      then show ?thesis using step Cons root by (simp add: domain_roots_def first_link_def)
    qed
  qed
qed

lemma domains_through: "domains_pass pass ds s = through root_pass (roots s ds) s"
proof (induction ds arbitrary: s)
  case (Cons d ds)
  have "domains_pass pass ds s' = through root_pass (roots s ds) s'"
    if "through root_pass (domain_roots s d (resources d)) s = Some s'" for s'
    using Cons [of s'] roots_cong(2) [OF through_types [OF root_pass_types that]] by simp
  then show ?case
    using Cons [of s] unfolding domains_pass.simps domain_through
    by (cases "through root_pass (domain_roots s d (resources d)) s") (simp_all add: roots_def through_append)
qed (simp add: roots_def)

end

fun root_zone :: "store \<Rightarrow> nat \<times> dev bus option \<Rightarrow> nat set" where
  "root_zone s (r, None) = {r}"
| "root_zone s (r, Some l) = insert r (touched IORESOURCE_TYPE_MASK (root_type (s r)) s l)"

lemma root_zone_cong: "same_types s s' \<Longrightarrow> root_zone s' x = root_zone s x"
  using touched_cong [of IORESOURCE_TYPE_MASK s s'] root_cong(2) [of s s']
  by (cases "(s, x)" rule: root_zone.cases) auto

text \<open>The windows of the domains have disjoint zones, and the buses behind them are well formed.\<close>

definition wf_domains :: "dev list \<Rightarrow> store \<Rightarrow> bool" where
  "wf_domains ds s \<longleftrightarrow> (\<forall>(r, lo) \<in> set (roots s ds). lo \<noteq> None) \<and>
     sorted_wrt (\<lambda>x y. root_zone s x \<inter> root_zone s y = {}) (roots s ds) \<and>
     (\<forall>r l. (r, Some l) \<in> set (roots s ds) \<longrightarrow> wf_bus l r IORESOURCE_TYPE_MASK (root_type (s r)) s)"

section \<open>The passes keep the fixed resources\<close>

definition kept_fixed :: "store \<Rightarrow> nat \<Rightarrow> bool" where
  "kept_fixed s i \<longleftrightarrow> \<not> movable s i \<and> res_flags (s i) AND IORESOURCE_BRIDGE = 0"

lemma kept_fixed_cong: "same_types s s' \<Longrightarrow> kept_fixed s' i = kept_fixed s i"
  using movable_cong [of s s' i] same_type_flags [OF _ type_bits_simps(3), of "s i" "s' i"]
  unfolding kept_fixed_def same_types_def by metis

definition keeps :: "store \<Rightarrow> nat \<Rightarrow> store \<Rightarrow> bool" where
  "keeps s br s' \<longleftrightarrow> same_types s s' \<and> (\<forall>i. kept_fixed s i \<longrightarrow> i \<noteq> br \<longrightarrow> s' i = s i)"

lemma largest_movable:
  assumes "largest_resource b prev m t s = Some (d, r)"
  shows "movable s r"
proof -
  have inv: "\<forall>d r. pl_result st = Some (d, r) \<longrightarrow> movable s r \<Longrightarrow>
      \<forall>d r. pl_result (fold (\<lambda>(d, r). pick_largest_resource s d r) xs st) = Some (d, r) \<longrightarrow> movable s r" for xs st
  proof (induction xs arbitrary: st)
    case (Cons x xs)
    obtain d r where x: "x = (d, r)" by fastforce
    have "\<forall>d' r'. pl_result (pick_largest_resource s d r st) = Some (d', r') \<longrightarrow> movable s r'"
      using Cons.prems by (auto simp: pick_largest_resource_def movable_def)
    then show ?case using Cons.IH by (simp add: x)
  qed simp
  have "\<forall>d r. pl_result (fold (\<lambda>(d, r). pick_largest_resource s d r) (bus_items m t s b)
      \<lparr>pl_last = prev, pl_result = None, seen_last = False\<rparr>) = Some (d, r) \<longrightarrow> movable s r"
    by (rule inv) simp
  then show ?thesis using assms unfolding largest_resource_def search_fold by blast
qed

lemma largest_loop_movable:
  assumes "largest_loop place b m t res bs = Some bs'" "P bs" "\<And>r bs. movable (snd bs) r \<Longrightarrow> P bs \<Longrightarrow> P (place r bs)"
  shows "P bs'"
  using assms
proof (induction rule: largest_loop.raw_induct [rotated 1, consumes 1, case_names step])
  case (step loop place' b' m' t' res' bs0 bs1)
  show ?case
  proof (cases "largest_resource b' res' m' t' (snd bs0)")
    case None
    then show ?thesis using step by simp
  next
    case (Some p)
    then have "movable (snd bs0) (snd p)" using largest_movable by (metis surjective_pairing)
    note P = step.prems(2) [OF this step.prems(1)]
    have "loop place' b' m' t' (Some (snd p)) (place' (snd p) bs0) = Some bs1"
      using Some step.hyps by (simp add: case_prod_beta)
    then show ?thesis by (rule step.IH [OF _ P step.prems(2)])
  qed
qed

lemma keeps_refl [simp]: "keeps s br s"
  by (simp add: keeps_def)

lemma keeps_trans: "keeps a br b \<Longrightarrow> keeps b br c \<Longrightarrow> keeps a br c"
  unfolding keeps_def using same_types_trans kept_fixed_cong by metis

lemma keeps_bridge: "keeps s r s' \<Longrightarrow> res_flags (s r) AND IORESOURCE_BRIDGE \<noteq> 0 \<Longrightarrow> keeps s br s'"
  unfolding keeps_def kept_fixed_def by blast

lemma place_keeps:
  "movable s r \<Longrightarrow> keeps s br (snd (compute_place br r (base, s)))"
  "movable s r \<Longrightarrow> keeps s br (snd (alloc_place br r (base, s)))"
  using compute_place_types alloc_place_types
  by (auto simp: keeps_def kept_fixed_def compute_place_def alloc_place_def Let_def)

lemma loop_keeps:
  assumes "largest_loop place b m t None (base, s) = Some (base', s')"
    "\<And>r base s. movable s r \<Longrightarrow> keeps s br (snd (place r (base, s)))"
  shows "keeps s br s'"
proof -
  have "keeps s br (snd (base', s'))"
  proof (rule largest_loop_movable [OF assms(1)])
    fix r and bs :: "resource_t \<times> store" assume bs: "movable (snd bs) r" "keeps s br (snd bs)"
    obtain base1 s1 where e: "bs = (base1, s1)" by fastforce
    have "keeps s1 br (snd (place r (base1, s1)))" using bs(1) e by (intro assms(2)) simp
    then show "keeps s br (snd (place r bs))" using bs(2) e keeps_trans by fastforce
  qed simp
  then show ?thesis by simp
qed

lemma upd_keeps: "same_type (s br) x \<Longrightarrow> keeps s br (s(br := x))"
  by (simp add: keeps_def same_types_upd)

lemma compute_keeps:
  shows "compute_resources b br m t s = Some s' \<Longrightarrow> keeps s br s'"
    and "compute_devices ds m t s = Some s' \<Longrightarrow> keeps s br s'"
    and "compute_bridges d rs m t s = Some s' \<Longrightarrow> keeps s br s'"
proof (induction b br m t s and ds m t s and d rs m t s arbitrary: s' and s' br and s' br
    rule: compute_resources_compute_devices_compute_bridges.induct)
  case (1 b br m t s)
  then obtain s1 base2 s2 v where c: "compute_devices (children b) m t s = Some s1"
    "largest_loop (compute_place br) b m t None (round_pow (res_base (s br)) (res_align (s br)), s1) = Some (base2, s2)"
    "s' = s2(br := (s2 br)\<lparr>res_size := v\<rparr>)"
    by (auto simp: Let_def bind_eq_Some_conv)
  have "keeps s2 br s'" unfolding c(3) by (rule upd_keeps) (simp add: same_type_def)
  then show ?case
    using "1.IH" [OF refl c(1)] loop_keeps [OF c(2) place_keeps(1)] by (blast intro: keeps_trans)
next
  case (3 d ds m t s)
  show ?case
  proof (cases "link_list d = []")
    case False
    then obtain s1 where s1: "compute_bridges d (resources d) m t s = Some s1" "compute_devices ds m t s1 = Some s'"
      using "3.prems" by (auto simp: bind_eq_Some_conv)
    show ?thesis by (rule keeps_trans [OF "3.IH"(2) [OF False s1(1)] "3.IH"(3) [OF False s1]])
  qed (use 3 in simp)
next
  case (5 d r rs m t s)
  then show ?case
    by (auto simp del: compute_resources.simps simp: bind_eq_Some_conv split: if_splits option.splits)
      (blast intro: keeps_trans keeps_bridge)+
qed simp_all

lemma allocate_keeps:
  shows "allocate_resources b br m t s = Some s' \<Longrightarrow> keeps s br s'"
    and "allocate_devices ds m t s = Some s' \<Longrightarrow> keeps s br s'"
    and "allocate_bridges d rs m t s = Some s' \<Longrightarrow> keeps s br s'"
proof (induction b br m t s and ds m t s and d rs m t s arbitrary: s' and s' br and s' br
    rule: allocate_resources_allocate_devices_allocate_bridges.induct)
  case (1 b br m t s)
  then obtain base2 s2 where l: "largest_loop (alloc_place br) b m t None (res_base (s br), s) = Some (base2, s2)"
    "allocate_devices (children b) m t (s2(br := (s2 br)\<lparr>res_flags := res_flags (s2 br) OR IORESOURCE_ASSIGNED\<rparr>)) = Some s'"
    by (auto simp: bind_eq_Some_conv)
  moreover have "keeps s2 br (s2(br := (s2 br)\<lparr>res_flags := res_flags (s2 br) OR IORESOURCE_ASSIGNED\<rparr>))"
    by (intro upd_keeps) (simp_all add: same_type_def flags_masked)
  ultimately show ?case
    using "1.IH" [OF _ refl l(2)] loop_keeps [OF l(1) place_keeps(2)] by (blast intro: keeps_trans)
next
  case (3 d ds m t s)
  show ?case
  proof (cases "link_list d = []")
    case False
    then obtain s1 where s1: "allocate_bridges d (resources d) m t s = Some s1" "allocate_devices ds m t s1 = Some s'"
      using "3.prems" by (auto simp: bind_eq_Some_conv)
    show ?thesis by (rule keeps_trans [OF "3.IH"(2) [OF False s1(1)] "3.IH"(3) [OF False s1]])
  qed (use 3 in simp)
next
  case (5 d r rs m t s)
  then show ?case
    by (auto simp del: allocate_resources.simps simp: bind_eq_Some_conv split: if_splits option.splits)
      (blast intro: keeps_trans keeps_bridge)+
qed simp_all

end
