(* ===== verification/Allocator_Configure.thy ===== *)
theory Allocator_Configure
  imports Allocator_Domains
begin

text \<open>
  Both passes over all domains, and the step between them: where \<open>avoid_fixed_resources\<close> moves
  the windows of a domain.
\<close>

section \<open>The windows of a domain\<close>

definition own_limits :: "dev \<Rightarrow> store \<Rightarrow> constraints" where
  "own_limits d s = fold (\<lambda>r. limit_by (s r)) (resources d)
     \<lparr>c_io = \<lparr>win_base = 0, win_limit = 0xffffffffffffffff\<rparr>, c_mem = \<lparr>win_base = 0, win_limit = 0xffffffffffffffff\<rparr>\<rparr>"

definition domain_windows :: "dev \<Rightarrow> store \<Rightarrow> constraints" where
  "domain_windows d s = constrain_resources s d (own_limits d s)"

lemma fold_update:
  assumes "distinct rs"
  shows "fold (\<lambda>r s. s(r := g (s r))) rs s = (\<lambda>i. if i \<in> set rs then g (s i) else s i)"
  using assms by (induction rs arbitrary: s) (auto simp: fun_eq_iff)

lemma avoid_at:
  assumes "distinct (resources d)"
  shows "avoid_fixed_resources d s i = (if i \<in> set (resources d) then move_into (domain_windows d s) (s i) else s i)"
  using fold_update [OF assms, of "move_into (domain_windows d s)" s]
  by (simp add: avoid_fixed_resources_def Let_def domain_windows_def own_limits_def)

definition inside_own :: "resource \<Rightarrow> constraints \<Rightarrow> bool" where
  "inside_own r L \<longleftrightarrow> (res_flags r AND IORESOURCE_FIXED = 0 \<longrightarrow>
     (\<forall>w. resource_limit L r = Some w \<longrightarrow> res_base r \<le> win_base w \<and> win_limit w \<le> res_limit r))"

lemma inside_own_shrunk: "inside_own r L \<Longrightarrow> shrunk_limits L L' \<Longrightarrow> inside_own r L'"
  unfolding inside_own_def shrunk_limits_def shrunk_def resource_limit_def by (fastforce split: if_splits)

lemma limit_by_own:
  shows "inside_own r (limit_by r L)" "shrunk_limits L (limit_by r L)"
  using io_not_mem [of r]
  by (auto simp: inside_own_def limit_by_def resource_limit_def put_limit_def shrunk_limits_def shrunk_def Let_def)

lemma limit_list:
  "shrunk_limits L (fold (\<lambda>r. limit_by (s r)) rs L) \<and> (\<forall>r \<in> set rs. inside_own (s r) (fold (\<lambda>r. limit_by (s r)) rs L))"
proof (induction rs arbitrary: L)
  case (Cons r rs)
  let ?M = "limit_by (s r) L"
  have "shrunk_limits ?M (fold (\<lambda>r. limit_by (s r)) rs ?M)" using Cons by blast
  then show ?case
    using Cons [of ?M] limit_by_own [where r = "s r" and L = L] inside_own_shrunk shrunk_limits_trans by fastforce
qed simp

lemma own_limits_inside: "r \<in> set (resources d) \<Longrightarrow> inside_own (s r) (own_limits d s)"
  unfolding own_limits_def by (simp add: limit_list)

lemma unat_align_down:
  fixes x :: u64
  assumes "pw < 64"
  shows "unat (align_down x pw) = unat x - unat x mod 2 ^ pw"
proof -
  have "align_down x pw = x AND NOT (mask pw)"
    by (simp add: align_down_def Let_def mask_eq_exp_minus_1 push_bit_eq_mult)
  then show ?thesis using unat_and_not_mask [of x pw] assms by simp
qed

text \<open>
  Room for a resource in a window: an aligned range of its size. A memory window takes the
  highest such range, a port window the lowest addresses, which must be aligned.
\<close>

definition room :: "resource \<Rightarrow> window \<Rightarrow> bool" where
  "room r w \<longleftrightarrow> res_align r < 62 \<and> unat (win_limit w) < 4611686018427387904 \<and>
     (if resource_is r IORESOURCE_MEM
      then rup (res_align r) (unat (win_base w)) + unat (res_size r) \<le> Suc (unat (win_limit w))
      else 2 ^ res_align r dvd unat (win_base w) \<and> unat (win_base w) + unat (res_size r) \<le> Suc (unat (win_limit w)))"

lemma type_of_mem: "resource_is r IORESOURCE_MEM \<Longrightarrow> res_flags r AND IORESOURCE_MEM \<noteq> 0"
  and type_of_io: "resource_is r IORESOURCE_IO \<Longrightarrow> res_flags r AND IORESOURCE_MEM = 0 \<and> res_flags r AND IORESOURCE_IO \<noteq> 0"
proof -
  have m: "f AND IORESOURCE_MEM = (f AND IORESOURCE_TYPE_MASK) AND IORESOURCE_MEM"
    "f AND IORESOURCE_IO = (f AND IORESOURCE_TYPE_MASK) AND IORESOURCE_IO" for f :: u32
    by (simp_all add: and.assoc IORESOURCE_TYPE_MASK_def IORESOURCE_MEM_def IORESOURCE_IO_def
      IORESOURCE_IRQ_def IORESOURCE_DRQ_def)
  show "resource_is r IORESOURCE_MEM \<Longrightarrow> res_flags r AND IORESOURCE_MEM \<noteq> 0"
    using m(1) [of "res_flags r"] by (simp add: resource_is_def IORESOURCE_MEM_def)
  show "resource_is r IORESOURCE_IO \<Longrightarrow> res_flags r AND IORESOURCE_MEM = 0 \<and> res_flags r AND IORESOURCE_IO \<noteq> 0"
    using m [of "res_flags r"] by (simp add: resource_is_def IORESOURCE_MEM_def IORESOURCE_IO_def)
qed

lemma move_into_room:
  assumes "res_flags r AND IORESOURCE_FIXED = 0" "resource_limit L r = Some w" "inside_own r L" "room r w"
  shows "positioned (move_into L r)" "unat (win_base w) \<le> unat (res_base (move_into L r))"
    "res_limit (move_into L r) = win_limit w" "res_limit (move_into L r) \<le> res_limit r"
proof -
  have own: "res_base r \<le> win_base w" "win_limit w \<le> res_limit r" using assms(1-3) by (simp_all add: inside_own_def)
  let ?m = "r\<lparr>res_base := win_base w, res_limit := win_limit w\<rparr>"
  have mv: "move_into L r = (if res_flags r AND IORESOURCE_MEM \<noteq> 0 then ?m\<lparr>res_base := resource_max ?m\<rparr> else ?m)"
    using assms(1,2) own by (auto simp: move_into_def Let_def resource_max_def)
  have lim: "unat (win_limit w) < 4611686018427387904" "res_align r < 62" using assms(4) by (simp_all add: room_def)
  have "positioned (move_into L r) \<and> unat (win_base w) \<le> unat (res_base (move_into L r))"
  proof (cases "resource_is r IORESOURCE_MEM")
    case False
    then have "resource_is r IORESOURCE_IO" using assms(2) by (simp add: resource_limit_def split: if_splits)
    then have "move_into L r = ?m" using mv type_of_io by simp
    then show ?thesis using assms(4) False by (simp add: room_def positioned_def)
  next
    case True
    let ?x = "win_limit w - res_size r + 1"
    have fits: "rup (res_align r) (unat (win_base w)) + unat (res_size r) \<le> Suc (unat (win_limit w))"
      using assms(4) True by (simp add: room_def)
    have "?x = word_of_nat (Suc (unat (win_limit w)) - unat (res_size r))"
      using fits by (simp add: of_nat_diff)
    then have x: "unat ?x = Suc (unat (win_limit w)) - unat (res_size r)"
      using lim(1) by (simp add: unat_of_nat_u64)
    have b: "unat (resource_max ?m) = unat ?x - unat ?x mod 2 ^ res_align r"
      using lim(2) by (simp add: resource_max_def unat_align_down)
    have "rup (res_align r) (unat (win_base w)) \<le> unat ?x - unat ?x mod 2 ^ res_align r"
    proof -
      have le: "rup (res_align r) (unat (win_base w)) \<le> unat ?x" using x fits by linarith
      obtain k where k: "rup (res_align r) (unat (win_base w)) = 2 ^ res_align r * k" using rup_dvd by blast
      have "2 ^ res_align r * k div 2 ^ res_align r \<le> unat ?x div 2 ^ res_align r"
        using le k by (intro div_le_mono) simp
      then have "k \<le> unat ?x div 2 ^ res_align r" by simp
      then show ?thesis using k by (simp add: minus_mod_eq_mult_div)
    qed
    moreover have "unat (win_base w) \<le> rup (res_align r) (unat (win_base w))" by (rule rup_ge)
    moreover have "2 ^ res_align r dvd unat ?x - unat ?x mod 2 ^ res_align r" by (simp add: minus_mod_eq_mult_div)
    ultimately show ?thesis
      using mv type_of_mem [OF True] b x fits lim(1) by (simp add: positioned_def)
  qed
  then show "positioned (move_into L r)" "unat (win_base w) \<le> unat (res_base (move_into L r))" by simp_all
  show "res_limit (move_into L r) = win_limit w" "res_limit (move_into L r) \<le> res_limit r" using mv own by simp_all
qed

section \<open>Both passes over all domains\<close>

lemma roots_member:
  assumes "(r, lo) \<in> set (roots s ds)"
  obtains d where "d \<in> set ds" "is_domain d" "r \<in> set (resources d)" "is_root (s r)"
  using assms by (auto simp: roots_def domain_roots_def)

lemma roots_of: "d \<in> set ds \<Longrightarrow> is_domain d \<Longrightarrow> r \<in> set (resources d) \<Longrightarrow> is_root (s r) \<Longrightarrow> (r, first_link d) \<in> set (roots s ds)"
  by (auto simp: roots_def domain_roots_def)

lemma disjoint_members:
  "sorted_wrt (\<lambda>x y. f x \<inter> f y = {}) xs \<Longrightarrow> x \<in> set xs \<Longrightarrow> y \<in> set xs \<Longrightarrow> x \<noteq> y \<Longrightarrow> f x \<inter> f y = {}"
  by (induction xs) auto

lemma wf_domains_zone:
  assumes "wf_domains ds s" "(r, Some l) \<in> set (roots s ds)"
  shows "wf_bus l r IORESOURCE_TYPE_MASK (root_type (s r)) s"
    "r \<notin> touched IORESOURCE_TYPE_MASK (root_type (s r)) s l"
    "(q, lo) \<in> set (roots s ds) \<Longrightarrow> q \<notin> touched IORESOURCE_TYPE_MASK (root_type (s r)) s l"
proof -
  show wf: "wf_bus l r IORESOURCE_TYPE_MASK (root_type (s r)) s" using assms by (simp add: wf_domains_def)
  then show own: "r \<notin> touched IORESOURCE_TYPE_MASK (root_type (s r)) s l" by (auto elim: wf_bus.cases simp: touched_def)
  assume q: "(q, lo) \<in> set (roots s ds)"
  show "q \<notin> touched IORESOURCE_TYPE_MASK (root_type (s r)) s l"
  proof (cases "(q, lo) = (r, Some l)")
    case False
    have "sorted_wrt (\<lambda>x y. root_zone s x \<inter> root_zone s y = {}) (roots s ds)" using assms(1) by (simp add: wf_domains_def)
    then have "root_zone s (q, lo) \<inter> root_zone s (r, Some l) = {}"
      using disjoint_members [OF _ q assms(2) False] by blast
    moreover have "q \<in> root_zone s (q, lo)" by (cases lo) simp_all
    ultimately show ?thesis by auto
  qed (use own in simp)
qed

lemma compute_domains:
  assumes "wf_domains ds s"
  shows "\<exists>s1. domains_pass compute_resources ds s = Some s1 \<and>
    (\<forall>r l. (r, Some l) \<in> set (roots s ds) \<longrightarrow> bus_tree moderate l r IORESOURCE_TYPE_MASK (root_type (s r)) s1 \<longrightarrow>
      bus_tree fitting l r IORESOURCE_TYPE_MASK (root_type (s r)) s1)"
proof -
  define Q where "Q r l s' \<longleftrightarrow> same_types s s' \<and> (bus_tree moderate l r IORESOURCE_TYPE_MASK (root_type (s r)) s' \<longrightarrow>
      bus_tree fitting l r IORESOURCE_TYPE_MASK (root_type (s r)) s')" for r l s'
  have "\<exists>s1. through comp.root_pass (roots s ds) s = Some s1 \<and>
    (\<forall>i. (\<forall>x \<in> set (roots s ds). i \<notin> root_zone s x) \<longrightarrow> s1 i = s i) \<and>
    (\<forall>r l. (r, Some l) \<in> set (roots s ds) \<longrightarrow> Q r l s1)"
  proof (rule through_run [OF comp.root_pass_types])
    fix r l s0 assume r: "(r, Some l) \<in> set (roots s ds)" and ty: "same_types s s0"
      and ag: "\<forall>i \<in> root_zone s (r, Some l). s0 i = s i"
    have "\<forall>i \<in> insert r (touched IORESOURCE_TYPE_MASK (root_type (s r)) s l). s0 i = s i" using ag unfolding root_zone.simps .
    from compute_run [OF wf_domains_zone(1) [OF assms r] ty this] obtain s1 where
      s1: "compute_resources l r IORESOURCE_TYPE_MASK (root_type (s r)) s0 = Some s1"
        "\<forall>i. i \<notin> root_zone s (r, Some l) \<longrightarrow> s1 i = s0 i"
        "bus_tree moderate l r IORESOURCE_TYPE_MASK (root_type (s r)) s1 \<longrightarrow>
          bus_tree fitting l r IORESOURCE_TYPE_MASK (root_type (s r)) s1"
      unfolding root_zone.simps by blast
    have "Q r l s1" using s1(3) same_types_trans [OF ty compute_types(1) [OF s1(1)]] unfolding Q_def by blast
    then show "\<exists>s1. comp.root_pass l r s0 = Some s1 \<and> (\<forall>i. i \<notin> root_zone s (r, Some l) \<longrightarrow> s1 i = s0 i) \<and> Q r l s1"
      using s1(1,2) unfolding comp.root_pass_def root_cong(2) [OF ty] by blast
  next
    fix r l s1 s2 assume k: "Q r l s1" "same_types s1 s2" "\<forall>i \<in> root_zone s (r, Some l). s2 i = s1 i"
    have ty: "same_types s s1" using k(1) by (simp add: Q_def)
    have tc: "touched IORESOURCE_TYPE_MASK (root_type (s r)) s1 l = touched IORESOURCE_TYPE_MASK (root_type (s r)) s l"
      by (rule touched_cong [OF _ ty, symmetric]) simp
    have "\<forall>i \<in> insert r (touched IORESOURCE_TYPE_MASK (root_type (s r)) s1 l). \<exists>v. s2 i = (s1 i)\<lparr>res_base := v\<rparr>"
      using k(3) resource_upd_same unfolding root_zone.simps tc by metis
    note fit_keep [OF _ _ k(2) this]
    then show "Q r l s2" using k(1) same_types_trans [OF ty k(2)] by (simp add: Q_def)
  qed (use assms in \<open>simp_all add: wf_domains_def\<close>)
  then show ?thesis unfolding comp.domains_through Q_def by blast
qed

lemma allocate_domains:
  assumes "wf_domains ds s" "same_types s s2"
    "\<forall>r l. (r, Some l) \<in> set (roots s ds) \<longrightarrow>
      bus_tree fitting l r IORESOURCE_TYPE_MASK (root_type (s r)) s2 \<and> positioned (s2 r)"
  shows "\<exists>s3. domains_pass allocate_resources ds s2 = Some s3 \<and>
    (\<forall>r l. (r, Some l) \<in> set (roots s ds) \<longrightarrow>
      bus_tree placed l r IORESOURCE_TYPE_MASK (root_type (s r)) s3 \<and> s3 r = assigned (s2 r))"
proof -
  define Q where "Q r l s' \<longleftrightarrow> same_types s s' \<and> bus_tree placed l r IORESOURCE_TYPE_MASK (root_type (s r)) s' \<and>
    s' r = assigned (s2 r)" for r l s'
  have rz: "root_zone s2 x = root_zone s x" for x by (rule root_zone_cong [OF assms(2)])
  have rt: "roots s2 ds = roots s ds" by (rule roots_cong(2) [OF assms(2)])
  have "\<exists>s3. through alloc.root_pass (roots s2 ds) s2 = Some s3 \<and>
    (\<forall>i. (\<forall>x \<in> set (roots s2 ds). i \<notin> root_zone s2 x) \<longrightarrow> s3 i = s2 i) \<and>
    (\<forall>r l. (r, Some l) \<in> set (roots s2 ds) \<longrightarrow> Q r l s3)"
  proof (rule through_run [OF alloc.root_pass_types])
    fix r l s0 assume r: "(r, Some l) \<in> set (roots s2 ds)" and ty: "same_types s2 s0"
      and ag: "\<forall>i \<in> root_zone s2 (r, Some l). s0 i = s2 i"
    have r': "(r, Some l) \<in> set (roots s ds)" using r rt by simp
    have ty0: "same_types s s0" using assms(2) ty by (rule same_types_trans)
    have tc: "touched IORESOURCE_TYPE_MASK (root_type (s r)) s2 l = touched IORESOURCE_TYPE_MASK (root_type (s r)) s l"
      by (rule touched_cong [OF _ assms(2), symmetric]) simp
    have ag': "\<forall>i \<in> insert r (touched IORESOURCE_TYPE_MASK (root_type (s r)) s2 l). s0 i = s2 i"
      using ag unfolding rz unfolding root_zone.simps tc .
    have "bus_tree fitting l r IORESOURCE_TYPE_MASK (root_type (s r)) s0"
      by (rule bus_tree_fitting_cong [OF _ _ ty]) (use assms(3) r' ag' in auto)
    moreover have at: "s0 r = s2 r" using ag' by simp
    ultimately obtain s1 where
      s1: "allocate_resources l r IORESOURCE_TYPE_MASK (root_type (s r)) s0 = Some s1"
        "\<forall>i. i \<notin> root_zone s (r, Some l) \<longrightarrow> s1 i = s0 i" "s1 r = assigned (s0 r)"
        "bus_tree placed l r IORESOURCE_TYPE_MASK (root_type (s r)) s1"
      using allocate_run [OF wf_domains_zone(1) [OF assms(1) r'] ty0] assms(3) r' unfolding root_zone.simps by fastforce
    have "Q r l s1" using s1(3,4) at same_types_trans [OF ty0 allocate_types(1) [OF s1(1)]] by (simp add: Q_def)
    then show "\<exists>s1. alloc.root_pass l r s0 = Some s1 \<and> (\<forall>i. i \<notin> root_zone s2 (r, Some l) \<longrightarrow> s1 i = s0 i) \<and> Q r l s1"
      using s1(1,2) unfolding alloc.root_pass_def root_cong(2) [OF ty0] rz by blast
  next
    fix r l s1 s1' assume k: "Q r l s1" "same_types s1 s1'" "\<forall>i \<in> root_zone s2 (r, Some l). s1' i = s1 i"
    have ty: "same_types s s1" using k(1) by (simp add: Q_def)
    have tc: "touched IORESOURCE_TYPE_MASK (root_type (s r)) s1 l = touched IORESOURCE_TYPE_MASK (root_type (s r)) s l"
      by (rule touched_cong [OF _ ty, symmetric]) simp
    have "\<forall>i \<in> insert r (touched IORESOURCE_TYPE_MASK (root_type (s r)) s1 l). same_place (s1 i) (s1' i)"
      using k(3) unfolding rz unfolding root_zone.simps tc by simp
    note bus_tree_placed_cong [OF _ _ k(2) this]
    then show "Q r l s1'" using k same_types_trans [OF ty k(2)] unfolding rz by (simp add: Q_def)
  qed (use assms(1) in \<open>simp_all add: wf_domains_def rz rt\<close>)
  then show ?thesis unfolding alloc.domains_through Q_def rt by blast
qed

section \<open>The windows of all domains\<close>

lemma move_into_type: "same_type r (move_into L r)"
  by (auto simp: move_into_def Let_def same_type_def split: option.split)

lemma move_into_other: "\<not> is_root r \<Longrightarrow> move_into L r = r"
  using type_of_mem [of r] type_of_io [of r]
  by (auto simp: move_into_def is_root_def resource_limit_def split: if_splits option.split)

text \<open>States with the same fixed resources have the same windows.\<close>

definition same_fixed :: "store \<Rightarrow> store \<Rightarrow> bool" where
  "same_fixed s s' \<longleftrightarrow> (\<forall>i. movable s' i = movable s i \<and> (\<not> movable s i \<longrightarrow> s' i = s i))"

lemma constrain_fixed_cong: "same_fixed s s' \<Longrightarrow> constrain_fixed (s' r) = constrain_fixed (s r)"
  by (cases "movable s r") (auto simp: same_fixed_def movable_def constrain_fixed_def fun_eq_iff)

lemma constrain_cong:
  assumes "same_fixed s s'"
  shows "constrain_resources s' d L = constrain_resources s d L"
    and "constrain_links s' ls L = constrain_links s ls L"
    and "constrain_children s' ds L = constrain_children s ds L"
  using assms
  by (induction s d L and s ls L and s ds L rule: constrain_resources_constrain_links_constrain_children.induct)
    (simp_all add: constrain_fixed_cong split: if_splits)

lemma windows_cong:
  assumes "same_fixed s s'" "\<forall>i \<in> set (resources d). s' i = s i"
  shows "domain_windows d s' = domain_windows d s"
proof -
  have "own_limits d s' = own_limits d s"
    unfolding own_limits_def by (rule fold_cong) (use assms(2) in simp_all)
  then show ?thesis by (simp only: domain_windows_def constrain_cong(1) [OF assms(1)])
qed

lemma avoid_domains:
  assumes "distinct (concat (map resources (filter is_domain ds)))"
  defines "s2 \<equiv> \<lambda>ds s. fold (\<lambda>d s. if is_domain d then avoid_fixed_resources d s else s) ds s"
  shows "(\<forall>d \<in> set ds. is_domain d \<longrightarrow> (\<forall>i \<in> set (resources d). s2 ds s i = move_into (domain_windows d s) (s i))) \<and>
    (\<forall>i. (\<forall>d \<in> set ds. is_domain d \<longrightarrow> i \<notin> set (resources d)) \<longrightarrow> s2 ds s i = s i)"
  using assms(1)
proof (induction ds arbitrary: s)
  case Nil
  then show ?case by (simp add: s2_def)
next
  case (Cons d ds)
  show ?case
  proof (cases "is_domain d")
    case False
    then show ?thesis using Cons by (simp add: s2_def)
  next
    case True
    let ?s = "avoid_fixed_resources d s"
    have dist: "distinct (resources d)" "distinct (concat (map resources (filter is_domain ds)))"
      and out: "\<And>e. e \<in> set ds \<Longrightarrow> is_domain e \<Longrightarrow> set (resources d) \<inter> set (resources e) = {}"
      using Cons.prems True by auto
    have fold: "s2 (d # ds) s = s2 ds ?s" using True by (simp add: s2_def)
    note at = avoid_at [OF dist(1), of s]
    have "movable ?s i = movable s i \<and> (\<not> movable s i \<longrightarrow> ?s i = s i)" for i
      by (auto simp: at movable_def move_into_def Let_def split: option.split)
    then have fx: "same_fixed s ?s" by (simp add: same_fixed_def)
    have "domain_windows e ?s = domain_windows e s" if "e \<in> set ds" "is_domain e" for e
      by (rule windows_cong [OF fx]) (use out [OF that] at in auto)
    note win = this
    note IH = Cons.IH [OF dist(2), of ?s]
    have "s2 ds ?s i = move_into (domain_windows e s) (s i)"
      if "e \<in> set (d # ds)" "is_domain e" "i \<in> set (resources e)" for e i
    proof (cases "e \<in> set ds")
      case e: True
      then have "s2 ds ?s i = move_into (domain_windows e ?s) (?s i)" using IH that by blast
      moreover have "?s i = s i" using out [OF e that(2)] that(3) at by auto
      ultimately show ?thesis using win [OF e that(2)] by simp
    next
      case False
      then have e: "e = d" using that(1) by simp
      then have "\<forall>c \<in> set ds. is_domain c \<longrightarrow> i \<notin> set (resources c)" using out that(3) by blast
      then have "s2 ds ?s i = ?s i" using IH by blast
      then show ?thesis using at that(3) e by simp
    qed
    moreover have "s2 ds ?s i = s i" if "\<forall>c \<in> set (d # ds). is_domain c \<longrightarrow> i \<notin> set (resources c)" for i
    proof -
      have "i \<notin> set (resources d)" using that True by simp
      then have "?s i = s i" by (simp add: at)
      moreover have "s2 ds ?s i = ?s i" using IH that by simp
      ultimately show ?thesis by simp
    qed
    ultimately show ?thesis unfolding fold by blast
  qed
qed

section \<open>The fixed resources\<close>

lemma through_keeps:
  assumes "\<And>l r s s'. f l r s = Some s' \<Longrightarrow> keeps s r s'"
  shows "through f ls s = Some s' \<Longrightarrow> \<forall>(r, lo) \<in> set ls. movable s r \<Longrightarrow> kept_fixed s i \<Longrightarrow> s' i = s i"
proof (induction ls arbitrary: s)
  case (Cons x ls)
  obtain r l where x: "x = (r, Some l)" using Cons.prems(1) by (cases x; cases "snd x") auto
  then obtain s1 where s1: "f l r s = Some s1" "through f ls s1 = Some s'"
    using Cons.prems(1) by (auto simp: bind_eq_Some_conv)
  have k: "keeps s r s1" by (rule assms [OF s1(1)])
  then have ty: "same_types s s1" by (simp add: keeps_def)
  have "movable s r" using Cons.prems(2) x by simp
  then have "i \<noteq> r" using Cons.prems(3) by (auto simp: kept_fixed_def)
  then have "s1 i = s i" using k Cons.prems(3) by (simp add: keeps_def)
  moreover have "\<forall>(r, lo) \<in> set ls. movable s1 r" using Cons.prems(2) movable_cong [OF ty] by auto
  moreover have "kept_fixed s1 i" using Cons.prems(3) kept_fixed_cong [OF ty] by simp
  ultimately show ?case using Cons.IH [OF s1(2)] by simp
qed simp

lemma roots_movable: "\<forall>(r, lo) \<in> set (roots s ds). movable s r"
  by (auto simp: roots_def domain_roots_def is_root_def movable_def)

lemma domains_keep:
  shows "domains_pass compute_resources ds s = Some s' \<Longrightarrow> kept_fixed s i \<Longrightarrow> s' i = s i"
    and "domains_pass allocate_resources ds s = Some s' \<Longrightarrow> kept_fixed s i \<Longrightarrow> s' i = s i"
proof -
  show "domains_pass compute_resources ds s = Some s' \<Longrightarrow> kept_fixed s i \<Longrightarrow> s' i = s i"
    unfolding comp.domains_through
    by (rule through_keeps [OF _ _ roots_movable]) (simp_all add: comp.root_pass_def compute_keeps(1))
  show "domains_pass allocate_resources ds s = Some s' \<Longrightarrow> kept_fixed s i \<Longrightarrow> s' i = s i"
    unfolding alloc.domains_through
    by (rule through_keeps [OF _ _ roots_movable]) (simp_all add: alloc.root_pass_def allocate_keeps(1))
qed

end
