(* ===== verification/Allocator_Correct.thy ===== *)
theory Allocator_Correct
  imports Allocator_Configure
begin

text \<open>
  What the configuration of the devices achieves: the theorem on all domains with its example,
  the order of the visits, what the passes leave unchanged, and the limits of the windows.
\<close>

section \<open>The configuration of all domains\<close>

definition roomy :: "dev list \<Rightarrow> store \<Rightarrow> bool" where
  "roomy ds s \<longleftrightarrow> (\<forall>d \<in> set ds. is_domain d \<longrightarrow> (\<forall>r \<in> set (resources d). is_root (s r) \<longrightarrow>
     (\<exists>w. resource_limit (domain_windows d s) (s r) = Some w \<and> room (s r) w)))"

text \<open>The arithmetic of \<open>constrain_resources\<close> is safe in every domain.\<close>

definition steady_domains :: "dev list \<Rightarrow> store \<Rightarrow> bool" where
  "steady_domains ds s \<longleftrightarrow> (\<forall>d \<in> set ds. is_domain d \<longrightarrow>
     small_limits (own_limits d s) \<and> steady_walk s (walk d) (own_limits d s))"

lemma domain_constrained:
  assumes "steady_domains ds s" "d \<in> set ds" "is_domain d"
  shows "constrained (s ` {r. seen d r}) (own_limits d s) (domain_windows d s)"
  using assms constrain_tree unfolding steady_domains_def domain_windows_def by blast

definition apart :: "resource \<Rightarrow> resource \<Rightarrow> bool" where
  "apart r q \<longleftrightarrow> unat (res_base r) + unat (res_size r) \<le> unat (res_base q) \<or>
     unat (res_base q) + unat (res_size q) \<le> unat (res_base r)"

definition fixed_apart :: "dev \<Rightarrow> store \<Rightarrow> bool" where
  "fixed_apart d s \<longleftrightarrow> (\<forall>r \<in> set (resources d). is_root (s r) \<longrightarrow> (\<forall>q. seen d q \<longrightarrow> kept_fixed s q \<longrightarrow>
     res_flags (s q) AND IORESOURCE_TYPE_MASK = res_flags (s r) AND IORESOURCE_TYPE_MASK \<longrightarrow> res_size (s q) \<noteq> 0 \<longrightarrow>
     apart (s r) (s q)))"

lemma same_kind_limit:
  "res_flags q AND IORESOURCE_TYPE_MASK = res_flags r AND IORESOURCE_TYPE_MASK \<Longrightarrow> resource_limit L q = resource_limit L r"
  by (simp add: resource_limit_def resource_is_def)

lemma moved_fitting:
  assumes "type_bits m" "same_types s1 s2" "\<forall>i \<in> touched m t s1 l. s2 i = s1 i"
    "s2 r = move_into L (s1 r)" "res_limit (s2 r) \<le> res_limit (s1 r)" "bus_tree fitting l r m t s1"
  shows "bus_tree fitting l r m t s2"
proof (rule bus_tree_fitting_cong [OF assms(6,1,2)])
  show "res_size (s1 r) = res_size (s2 r) \<and> res_align (s1 r) = res_align (s2 r) \<and> res_limit (s2 r) \<le> res_limit (s1 r)"
    using assms(4,5) by (auto simp: move_into_def Let_def split: option.split)
qed (use assms(3) in simp)

lemma window_clear:
  assumes "steady_domains ds s" "d \<in> set ds" "is_domain d" "seen d q" "holds_space (s q)"
    "resource_limit (domain_windows d s) (s q) = Some w"
  shows "clear_of (s q) w"
proof -
  have "clear_limits (s q) (domain_windows d s)"
    using domain_constrained [OF assms(1-3)] assms(4) by (simp add: constrained_def)
  then show ?thesis using assms(5,6) by (simp add: clear_limits_def)
qed

lemma apart_window:
  assumes "clear_of q w" "unat (win_base w) \<le> unat (res_base r)" "positioned r" "res_limit r = win_limit w"
  shows "apart r q"
  using assms unfolding clear_of_def positioned_def apart_def by auto

text \<open>The step between the passes, as one function on the store.\<close>

definition avoid_all :: "dev list \<Rightarrow> store \<Rightarrow> store" where
  "avoid_all ds s = fold (\<lambda>d s. if is_domain d then avoid_fixed_resources d s else s) ds s"

lemma avoid_all:
  assumes "distinct (concat (map resources (filter is_domain ds)))"
  shows "d \<in> set ds \<Longrightarrow> is_domain d \<Longrightarrow> i \<in> set (resources d) \<Longrightarrow> avoid_all ds s i = move_into (domain_windows d s) (s i)"
    and "\<forall>lo. (i, lo) \<notin> set (roots s ds) \<Longrightarrow> avoid_all ds s i = s i"
    and "same_types s (avoid_all ds s)"
proof -
  note all = avoid_domains [OF assms, of s, folded avoid_all_def]
  show at: "d \<in> set ds \<Longrightarrow> is_domain d \<Longrightarrow> i \<in> set (resources d) \<Longrightarrow> avoid_all ds s i = move_into (domain_windows d s) (s i)" for d i
    using all by blast
  have cases: "(\<exists>d \<in> set ds. is_domain d \<and> i \<in> set (resources d)) \<or> avoid_all ds s i = s i" for i using all by blast
  have "same_type (s i) (avoid_all ds s i)" for i
    using cases [of i] at [of _ i] move_into_type [of "s i"] by (metis same_type_refl)
  then show "same_types s (avoid_all ds s)" by (simp add: same_types_def)
  assume no: "\<forall>lo. (i, lo) \<notin> set (roots s ds)"
  show "avoid_all ds s i = s i"
  proof (cases "\<exists>d \<in> set ds. is_domain d \<and> i \<in> set (resources d)")
    case True
    then obtain d where d: "d \<in> set ds" "is_domain d" "i \<in> set (resources d)" by blast
    then have "\<not> is_root (s i)" using no roots_of [of d ds i s] by blast
    then show ?thesis using at [OF d] move_into_other by simp
  qed (use cases in blast)
qed

lemma avoid_all_fixed:
  assumes "distinct (concat (map resources (filter is_domain ds)))" "kept_fixed s i"
  shows "avoid_all ds s i = s i"
proof -
  have "\<not> is_root (s i)" using assms(2) by (simp add: kept_fixed_def is_root_def movable_def)
  then have "\<forall>lo. (i, lo) \<notin> set (roots s ds)" using roots_member by blast
  then show ?thesis by (rule avoid_all(2) [OF assms(1)])
qed

lemma avoid_all_root:
  assumes "distinct (concat (map resources (filter is_domain ds)))" "roomy ds s" "steady_domains ds s"
    "d \<in> set ds" "is_domain d" "r \<in> set (resources d)" "is_root (s r)"
  obtains w where "resource_limit (domain_windows d s) (s r) = Some w" "positioned (avoid_all ds s r)"
    "unat (win_base w) \<le> unat (res_base (avoid_all ds s r))" "res_limit (avoid_all ds s r) = win_limit w"
    "res_limit (avoid_all ds s r) \<le> res_limit (s r)"
proof -
  obtain w where w: "resource_limit (domain_windows d s) (s r) = Some w" "room (s r) w"
    using assms(2,4-7) unfolding roomy_def by blast
  have "inside_own (s r) (domain_windows d s)"
    using inside_own_shrunk [OF own_limits_inside [OF assms(6)]] domain_constrained [OF assms(3-5)]
    by (simp add: constrained_def)
  note move_into_room [OF _ w(1) this w(2)]
  then show thesis
    using assms(7) w(1) avoid_all(1) [OF assms(1,4-6)] by (intro that [of w]) (simp_all add: is_root_def)
qed

lemma avoid_all_fits:
  assumes "distinct (concat (map resources (filter is_domain ds)))" "roomy ds s1" "steady_domains ds s1"
    "wf_domains ds s" "same_types s s1" "(r, Some l) \<in> set (roots s ds)"
    "bus_tree fitting l r IORESOURCE_TYPE_MASK (root_type (s r)) s1"
  shows "bus_tree fitting l r IORESOURCE_TYPE_MASK (root_type (s r)) (avoid_all ds s1)" "positioned (avoid_all ds s1 r)"
proof -
  obtain d where d: "d \<in> set ds" "is_domain d" "r \<in> set (resources d)" "is_root (s r)" using roots_member [OF assms(6)] .
  have root: "is_root (s1 r)" using d(4) root_cong(1) [OF assms(5)] by simp
  from avoid_all_root [OF assms(1-3) d(1-3) root]
  have ow: "positioned (avoid_all ds s1 r)" "res_limit (avoid_all ds s1 r) \<le> res_limit (s1 r)" by blast+
  show "bus_tree fitting l r IORESOURCE_TYPE_MASK (root_type (s r)) (avoid_all ds s1)"
  proof (rule moved_fitting [OF _ avoid_all(3) [OF assms(1)] _ avoid_all(1) [OF assms(1) d(1-3)] ow(2) assms(7)])
    show "\<forall>i \<in> touched IORESOURCE_TYPE_MASK (root_type (s r)) s1 l. avoid_all ds s1 i = s1 i"
    proof
      fix i assume "i \<in> touched IORESOURCE_TYPE_MASK (root_type (s r)) s1 l"
      then have "i \<in> touched IORESOURCE_TYPE_MASK (root_type (s r)) s l"
        using touched_cong [OF type_bits_simps(7) assms(5)] by simp
      then have "\<forall>lo. (i, lo) \<notin> set (roots s1 ds)"
        using wf_domains_zone(3) [OF assms(4,6)] roots_cong(2) [OF assms(5)] by auto
      then show "avoid_all ds s1 i = s1 i" by (rule avoid_all(2) [OF assms(1)])
    qed
  qed simp
  show "positioned (avoid_all ds s1 r)" by (rule ow)
qed

lemma avoid_all_apart:
  assumes "distinct (concat (map resources (filter is_domain ds)))" "roomy ds s" "steady_domains ds s"
    "d \<in> set ds" "is_domain d"
  shows "fixed_apart d (avoid_all ds s)"
  unfolding fixed_apart_def
proof (intro ballI allI impI)
  let ?s = "avoid_all ds s"
  have ty: "same_types s ?s" by (rule avoid_all(3) [OF assms(1)])
  fix r q assume r: "r \<in> set (resources d)" "is_root (?s r)" and q: "seen d q" "kept_fixed ?s q"
    "res_flags (?s q) AND IORESOURCE_TYPE_MASK = res_flags (?s r) AND IORESOURCE_TYPE_MASK" "res_size (?s q) \<noteq> 0"
  have k: "kept_fixed s q" using q(2) kept_fixed_cong [OF ty] by simp
  note qs = avoid_all_fixed [OF assms(1) k]
  have root: "is_root (s r)" using r(2) root_cong(1) [OF ty] by simp
  obtain w where w: "resource_limit (domain_windows d s) (s r) = Some w" "positioned (?s r)"
    "unat (win_base w) \<le> unat (res_base (?s r))" "res_limit (?s r) = win_limit w"
    using avoid_all_root [OF assms r(1) root] by blast
  have "res_flags (s r) AND IORESOURCE_TYPE_MASK = res_flags (?s r) AND IORESOURCE_TYPE_MASK"
    using ty same_type_flags [OF _ type_bits_simps(7)] unfolding same_types_def by blast
  then have "resource_limit (domain_windows d s) (s q) = Some w" using w(1) same_kind_limit q(3) qs by metis
  moreover have "holds_space (s q)"
    using q(4) k qs by (simp add: holds_space_def kept_fixed_def movable_def)
  ultimately have "clear_of (s q) w" by (intro window_clear [OF assms(3-5) q(1)])
  then show "apart (?s r) (?s q)" unfolding qs by (rule apart_window [OF _ w(3,2,4)])
qed

lemma fixed_apart_keep:
  assumes "fixed_apart d s" "same_types s s'" "\<And>i. kept_fixed s i \<Longrightarrow> s' i = s i"
    "\<And>r. r \<in> set (resources d) \<Longrightarrow> is_root (s r) \<Longrightarrow> \<exists>f. s' r = (s r)\<lparr>res_flags := f\<rparr>"
  shows "fixed_apart d s'"
  unfolding fixed_apart_def
proof (intro ballI allI impI)
  fix r q assume r: "r \<in> set (resources d)" "is_root (s' r)" and q: "seen d q" "kept_fixed s' q"
    "res_flags (s' q) AND IORESOURCE_TYPE_MASK = res_flags (s' r) AND IORESOURCE_TYPE_MASK" "res_size (s' q) \<noteq> 0"
  have k: "kept_fixed s q" "is_root (s r)" using q(2) r(2) kept_fixed_cong [OF assms(2)] root_cong(1) [OF assms(2)] by simp_all
  have "res_flags (s r) AND IORESOURCE_TYPE_MASK = res_flags (s' r) AND IORESOURCE_TYPE_MASK"
    using assms(2) same_type_flags [OF _ type_bits_simps(7)] unfolding same_types_def by blast
  then have "apart (s r) (s q)"
    using assms(1) r(1) q(1,3,4) k assms(3) [OF k(1)] unfolding fixed_apart_def by metis
  then show "apart (s' r) (s' q)" using assms(3) [OF k(1)] assms(4) [OF r(1) k(2)] by (auto simp: apart_def)
qed

text \<open>
  C1. The configuration of all domains. When no two domains, bridges or devices share a resource
  record and every bridge and domain has its bus and starts below \<open>2 ^ 62\<close> (\<open>wf_domains\<close>), the
  first pass returns. Let the sizes it
  finds then meet four conditions: the sizes on a bus, with their alignment, sum to less than
  \<open>2 ^ 62\<close> and a window with ports in use below it is aligned to 1024 ports at least
  (\<open>moderate\<close>); the fixed resources and the limits of the domains end below \<open>2 ^ 62\<close>, and a fixed
  resource at address 0 does not cover its window when the walk over the devices comes to it
  (\<open>steady_domains\<close>); and every window left by the fixed resources has room for an aligned range
  of the size its domain needs, a port window at its lower end (\<open>roomy\<close>). Then the whole configuration returns a store in which, on every bus of every
  domain, each resource with a size is marked as assigned, lies at a multiple of its alignment
  inside the range of its bridge and overlaps no other one; the fixed resources are where they
  were, and the windows of a domain overlap none of those of their kind below it.
\<close>

theorem configure_places:
  assumes "wf_domains ds s" "distinct (concat (map resources (filter is_domain ds)))"
  shows "\<exists>s1. domains_pass compute_resources ds s = Some s1 \<and>
    ((\<forall>r l. (r, Some l) \<in> set (roots s ds) \<longrightarrow> bus_tree moderate l r IORESOURCE_TYPE_MASK (root_type (s r)) s1) \<and>
       roomy ds s1 \<and> steady_domains ds s1 \<longrightarrow>
     (\<exists>s3. configure_domains ds s = Some s3 \<and>
       (\<forall>r l. (r, Some l) \<in> set (roots s ds) \<longrightarrow> bus_tree placed l r IORESOURCE_TYPE_MASK (root_type (s r)) s3) \<and>
       (\<forall>i. kept_fixed s i \<longrightarrow> s3 i = s i) \<and>
       (\<forall>d \<in> set ds. is_domain d \<longrightarrow> fixed_apart d s3)))"
proof -
  obtain s1 where s1: "domains_pass compute_resources ds s = Some s1" and
    fits: "\<And>r l. (r, Some l) \<in> set (roots s ds) \<Longrightarrow> bus_tree moderate l r IORESOURCE_TYPE_MASK (root_type (s r)) s1 \<Longrightarrow>
      bus_tree fitting l r IORESOURCE_TYPE_MASK (root_type (s r)) s1"
    using compute_domains [OF assms(1)] by blast
  have ty1: "same_types s s1"
    using s1 unfolding comp.domains_through by (rule through_types [OF comp.root_pass_types])
  let ?s2 = "avoid_all ds s1"
  have ty12: "same_types s1 ?s2" by (rule avoid_all(3) [OF assms(2)])
  have ty2: "same_types s ?s2" using ty1 ty12 by (rule same_types_trans)
  have "\<exists>s3. configure_domains ds s = Some s3 \<and>
       (\<forall>r l. (r, Some l) \<in> set (roots s ds) \<longrightarrow> bus_tree placed l r IORESOURCE_TYPE_MASK (root_type (s r)) s3) \<and>
       (\<forall>i. kept_fixed s i \<longrightarrow> s3 i = s i) \<and> (\<forall>d \<in> set ds. is_domain d \<longrightarrow> fixed_apart d s3)"
    if mod: "\<forall>r l. (r, Some l) \<in> set (roots s ds) \<longrightarrow> bus_tree moderate l r IORESOURCE_TYPE_MASK (root_type (s r)) s1"
      and ok: "roomy ds s1" "steady_domains ds s1"
  proof -
    have "\<forall>r l. (r, Some l) \<in> set (roots s ds) \<longrightarrow>
        bus_tree fitting l r IORESOURCE_TYPE_MASK (root_type (s r)) ?s2 \<and> positioned (?s2 r)"
      using avoid_all_fits [OF assms(2) ok assms(1) ty1] fits mod by blast
    then obtain s3 where s3: "domains_pass allocate_resources ds ?s2 = Some s3"
      "\<forall>r l. (r, Some l) \<in> set (roots s ds) \<longrightarrow>
        bus_tree placed l r IORESOURCE_TYPE_MASK (root_type (s r)) s3 \<and> s3 r = assigned (?s2 r)"
      using allocate_domains [OF assms(1) ty2] by blast
    have fixed2: "s3 i = ?s2 i" if "kept_fixed ?s2 i" for i using domains_keep(2) [OF s3(1) that] .
    have fixed3: "s3 i = s i" if "kept_fixed s i" for i
      using fixed2 domains_keep(1) [OF s1 that] avoid_all_fixed [OF assms(2), of s1 i] that
        kept_fixed_cong [OF ty1] kept_fixed_cong [OF ty2] by simp
    have ty23: "same_types ?s2 s3"
      using s3(1) unfolding alloc.domains_through by (rule through_types [OF alloc.root_pass_types])
    have "fixed_apart d s3" if d: "d \<in> set ds" "is_domain d" for d
    proof (rule fixed_apart_keep [OF avoid_all_apart [OF assms(2) ok d] ty23 fixed2])
      fix r assume r: "r \<in> set (resources d)" "is_root (?s2 r)"
      then have "(r, first_link d) \<in> set (roots s ds)" using d root_cong(1) [OF ty2] by (intro roots_of) simp_all
      then obtain l where "(r, Some l) \<in> set (roots s ds)" using assms(1) unfolding wf_domains_def by fastforce
      then show "\<exists>f. s3 r = (?s2 r)\<lparr>res_flags := f\<rparr>" using s3(2) by blast
    qed
    moreover have "configure_domains ds s = Some s3"
      using s1 s3(1) by (simp add: configure_domains_def avoid_all_def)
    ultimately show ?thesis using s3(2) fixed3 by blast
  qed
  then show ?thesis using s1 by blast
qed

section \<open>An example\<close>

text \<open>
  A domain with 2 GB of memory and, below it, a device with a range of 1 MB, a bridge with a
  device of 64 KB and 128 ports behind it, and the fixed resources of the board's LPC bridge:
  its ports \<open>0\<close> to \<open>0xfff\<close>, the flash, the I/O APIC and, behind it, the two serial ports.
\<close>

definition pc_store :: store where
  "pc_store = (\<lambda>_. zero_resource)(
     0 := \<lparr>res_base = 0, res_size = 0, res_limit = 0xfebfffff, res_flags = 0x40200, res_index = 1, res_align = 0, res_gran = 0\<rparr>,
     1 := \<lparr>res_base = 0, res_size = 0x80000000, res_limit = 0, res_flags = 0x80000200, res_index = 2, res_align = 0, res_gran = 0\<rparr>,
     2 := \<lparr>res_base = 0, res_size = 0x100000, res_limit = 0xffffffff, res_flags = 0x200, res_index = 0x10, res_align = 20, res_gran = 20\<rparr>,
     3 := \<lparr>res_base = 0, res_size = 0, res_limit = 0xffffffff, res_flags = 0x80200, res_index = 0x20, res_align = 20, res_gran = 20\<rparr>,
     4 := \<lparr>res_base = 0, res_size = 0x10000, res_limit = 0xffffffff, res_flags = 0x200, res_index = 0x10, res_align = 16, res_gran = 16\<rparr>,
     5 := \<lparr>res_base = 0, res_size = 0, res_limit = 0xffff, res_flags = 0x40100, res_index = 0, res_align = 0, res_gran = 0\<rparr>,
     6 := \<lparr>res_base = 0, res_size = 0x1000, res_limit = 0, res_flags = 0xc0040100, res_index = 0x10000000, res_align = 0, res_gran = 0\<rparr>,
     7 := \<lparr>res_base = 0xff000000, res_size = 0x1000000, res_limit = 0, res_flags = 0xc0040200, res_index = 0x10000100, res_align = 0, res_gran = 0\<rparr>,
     8 := \<lparr>res_base = 0xfec00000, res_size = 0x1000, res_limit = 0, res_flags = 0xc0000200, res_index = 3, res_align = 0, res_gran = 0\<rparr>,
     9 := \<lparr>res_base = 0x3f8, res_size = 8, res_limit = 0x7ff, res_flags = 0xc0000100, res_index = 0x60, res_align = 3, res_gran = 3\<rparr>,
     10 := \<lparr>res_base = 0x2f8, res_size = 8, res_limit = 0x7ff, res_flags = 0xc0000100, res_index = 0x60, res_align = 3, res_gran = 3\<rparr>,
     12 := \<lparr>res_base = 0, res_size = 0, res_limit = 0xffff, res_flags = 0x80100, res_index = 0x1c, res_align = 12, res_gran = 12\<rparr>,
     13 := \<lparr>res_base = 0, res_size = 0x80, res_limit = 0xffff, res_flags = 0x100, res_index = 0x14, res_align = 7, res_gran = 7\<rparr>)"

definition pc_inner :: "dev bus" where "pc_inner = Bus 0 [Dev True False [4, 13] []]"
definition pc_superio :: "dev bus" where "pc_superio = Bus 0 [Dev True False [9] [], Dev True False [10] []]"
definition pc_bus :: "dev bus" where
  "pc_bus = Bus 0 [Dev True False [2] [], Dev True False [3, 12] [pc_inner], Dev True False [6, 7, 8] [pc_superio]]"
definition pc_domain :: dev where "pc_domain = Dev True True [0, 1, 5] [pc_bus]"
definition pc_sized :: store where
  "pc_sized = pc_store(
     0 := (pc_store 0)\<lparr>res_align := 20, res_size := 0x200000\<rparr>,
     3 := (pc_store 3)\<lparr>res_size := 0x100000, res_base := 0x100000\<rparr>,
     5 := (pc_store 5)\<lparr>res_align := 12, res_size := 0x1000\<rparr>,
     12 := (pc_store 12)\<lparr>res_size := 0x1000\<rparr>)"

named_theorems pc

lemmas [pc] = pc_bus_def pc_inner_def pc_superio_def pc_domain_def
  IORESOURCE_TYPE_MASK_def IORESOURCE_IO_def IORESOURCE_MEM_def IORESOURCE_IRQ_def IORESOURCE_DRQ_def
  IORESOURCE_PREFETCH_def IORESOURCE_BRIDGE_def IORESOURCE_FIXED_def IORESOURCE_SUBTRACTIVE_def
  IORESOURCE_STORED_def IORESOURCE_ASSIGNED_def IOINDEX_LINK_def IOINDEX_SUBTRACTIVE_LINK_def find_link_def

lemma pc_at [pc]:
  "pc_store 0 = \<lparr>res_base = 0, res_size = 0, res_limit = 0xfebfffff, res_flags = 0x40200, res_index = 1, res_align = 0, res_gran = 0\<rparr>"
  "pc_store (Suc 0) = \<lparr>res_base = 0, res_size = 0x80000000, res_limit = 0, res_flags = 0x80000200, res_index = 2, res_align = 0, res_gran = 0\<rparr>"
  "pc_store 2 = \<lparr>res_base = 0, res_size = 0x100000, res_limit = 0xffffffff, res_flags = 0x200, res_index = 0x10, res_align = 20, res_gran = 20\<rparr>"
  "pc_store 3 = \<lparr>res_base = 0, res_size = 0, res_limit = 0xffffffff, res_flags = 0x80200, res_index = 0x20, res_align = 20, res_gran = 20\<rparr>"
  "pc_store 4 = \<lparr>res_base = 0, res_size = 0x10000, res_limit = 0xffffffff, res_flags = 0x200, res_index = 0x10, res_align = 16, res_gran = 16\<rparr>"
  "pc_store 5 = \<lparr>res_base = 0, res_size = 0, res_limit = 0xffff, res_flags = 0x40100, res_index = 0, res_align = 0, res_gran = 0\<rparr>"
  "pc_store 6 = \<lparr>res_base = 0, res_size = 0x1000, res_limit = 0, res_flags = 0xc0040100, res_index = 0x10000000, res_align = 0, res_gran = 0\<rparr>"
  "pc_store 7 = \<lparr>res_base = 0xff000000, res_size = 0x1000000, res_limit = 0, res_flags = 0xc0040200, res_index = 0x10000100, res_align = 0, res_gran = 0\<rparr>"
  "pc_store 8 = \<lparr>res_base = 0xfec00000, res_size = 0x1000, res_limit = 0, res_flags = 0xc0000200, res_index = 3, res_align = 0, res_gran = 0\<rparr>"
  "pc_store 9 = \<lparr>res_base = 0x3f8, res_size = 8, res_limit = 0x7ff, res_flags = 0xc0000100, res_index = 0x60, res_align = 3, res_gran = 3\<rparr>"
  "pc_store 10 = \<lparr>res_base = 0x2f8, res_size = 8, res_limit = 0x7ff, res_flags = 0xc0000100, res_index = 0x60, res_align = 3, res_gran = 3\<rparr>"
  "pc_store 12 = \<lparr>res_base = 0, res_size = 0, res_limit = 0xffff, res_flags = 0x80100, res_index = 0x1c, res_align = 12, res_gran = 12\<rparr>"
  "pc_store 13 = \<lparr>res_base = 0, res_size = 0x80, res_limit = 0xffff, res_flags = 0x100, res_index = 0x14, res_align = 7, res_gran = 7\<rparr>"
  by (simp_all add: pc_store_def)

abbreviation pc_bridge :: dev where "pc_bridge \<equiv> Dev True False [3, 12] [pc_inner]"

lemma pc_items:
  "bus_items IORESOURCE_TYPE_MASK IORESOURCE_MEM pc_store pc_bus =
     [(Dev True False [2] [], 2), (pc_bridge, 3), (Dev True False [6, 7, 8] [pc_superio], 8)]"
  "bus_items (IORESOURCE_TYPE_MASK OR IORESOURCE_PREFETCH) IORESOURCE_MEM pc_store pc_inner = [(Dev True False [4, 13] [], 4)]"
  "bus_items IORESOURCE_TYPE_MASK IORESOURCE_IO pc_store pc_bus =
     [(pc_bridge, 12), (Dev True False [9] [], 9), (Dev True False [10] [], 10)]"
  "bus_items (IORESOURCE_TYPE_MASK OR IORESOURCE_PREFETCH) IORESOURCE_IO pc_store pc_inner = [(Dev True False [4, 13] [], 13)]"
  by (simp_all add: pc bus_items_def)

lemma pc_links:
  "bus_links IORESOURCE_TYPE_MASK IORESOURCE_MEM pc_store pc_bus = [(3, Some pc_inner)]"
  "bus_links (IORESOURCE_TYPE_MASK OR IORESOURCE_PREFETCH) IORESOURCE_MEM pc_store pc_inner = []"
  "bus_links IORESOURCE_TYPE_MASK IORESOURCE_IO pc_store pc_bus = [(12, Some pc_inner)]"
  "bus_links (IORESOURCE_TYPE_MASK OR IORESOURCE_PREFETCH) IORESOURCE_IO pc_store pc_inner = []"
  by (simp_all add: pc bus_links_def dev_links_def)

lemmas [pc] = largest_loop.simps largest_resource_def pick_largest_resource_def compute_place_def alloc_place_def
  io_avoid_def round_pow_def Let_def

lemma pc_inner_sized:
  "compute_resources pc_inner 3 (IORESOURCE_TYPE_MASK OR IORESOURCE_PREFETCH) IORESOURCE_MEM pc_store =
     Some (pc_store(3 := (pc_store 3)\<lparr>res_size := 0x100000\<rparr>))"
  by (simp add: pc fun_eq_iff)

definition pc_half :: store where
  "pc_half = pc_store(
     0 := (pc_store 0)\<lparr>res_align := 20, res_size := 0x200000\<rparr>,
     3 := (pc_store 3)\<lparr>res_size := 0x100000, res_base := 0x100000\<rparr>)"

lemma pc_half_at [pc]: "pc_half i = (if i = 0 then (pc_store 0)\<lparr>res_align := 20, res_size := 0x200000\<rparr>
    else if i = 3 then (pc_store 3)\<lparr>res_size := 0x100000, res_base := 0x100000\<rparr> else pc_store i)"
  by (simp add: pc_half_def)

lemma pc_run_mem: "compute_resources pc_bus 0 IORESOURCE_TYPE_MASK IORESOURCE_MEM pc_store = Some pc_half"
  by (simp add: pc fun_eq_iff)

lemma pc_run_io: "compute_resources pc_bus 5 IORESOURCE_TYPE_MASK IORESOURCE_IO pc_half = Some pc_sized"
  by (simp add: pc fun_eq_iff pc_sized_def)

lemma pc_run: "domains_pass compute_resources [pc_domain] pc_store = Some pc_sized"
  using pc_run_mem pc_run_io by (simp add: pc del: compute_resources.simps)

lemma pc_sized_types: "same_types pc_store pc_sized"
  using pc_run unfolding comp.domains_through by (rule through_types [OF comp.root_pass_types])

lemma pc_roots: 
  "roots pc_store [pc_domain] = [(0, Some pc_bus), (5, Some pc_bus)]"
  "root_type (pc_store 0) = IORESOURCE_MEM" "root_type (pc_store 5) = IORESOURCE_IO"
  by (simp_all add: pc roots_def domain_roots_def is_root_def first_link_def root_type_def)

lemma pc_sub:
  "sub_mask IORESOURCE_TYPE_MASK = IORESOURCE_TYPE_MASK OR IORESOURCE_PREFETCH"
  "sub_type IORESOURCE_MEM (pc_store 3) = IORESOURCE_MEM" "sub_type IORESOURCE_IO (pc_store 12) = IORESOURCE_IO"
  "sub_type IORESOURCE_MEM (pc_sized 3) = IORESOURCE_MEM" "sub_type IORESOURCE_IO (pc_sized 12) = IORESOURCE_IO"
  by (simp_all add: sub_mask_def sub_type_def pc pc_sized_def)

lemma pc_touched:
  "touched (IORESOURCE_TYPE_MASK OR IORESOURCE_PREFETCH) IORESOURCE_MEM pc_store pc_inner = {4}"
  "touched (IORESOURCE_TYPE_MASK OR IORESOURCE_PREFETCH) IORESOURCE_IO pc_store pc_inner = {13}"
  "touched IORESOURCE_TYPE_MASK IORESOURCE_MEM pc_store pc_bus = {2, 3, 4, 7, 8}"
  "touched IORESOURCE_TYPE_MASK IORESOURCE_IO pc_store pc_bus = {6, 9, 10, 12, 13}"
  by (auto simp: touched_def pc bus_ids_def)

lemma pc_ids: "0 \<notin> set (bus_ids pc_bus)" "5 \<notin> set (bus_ids pc_bus)" "3 \<notin> set (bus_ids pc_inner)" "12 \<notin> set (bus_ids pc_inner)"
  by (simp_all add: pc bus_ids_def)

lemma pc_bases: "res_base (pc_store 0) = 0" "res_base (pc_store 5) = 0" "res_base (pc_store 3) = 0" "res_base (pc_store 12) = 0"
  by (simp_all add: pc)

lemma pc_wf: "wf_domains [pc_domain] pc_store"
proof -
  have inner: "wf_bus pc_inner 3 (sub_mask IORESOURCE_TYPE_MASK) (sub_type IORESOURCE_MEM (pc_store 3)) pc_store"
    "wf_bus pc_inner 12 (sub_mask IORESOURCE_TYPE_MASK) (sub_type IORESOURCE_IO (pc_store 12)) pc_store"
    unfolding pc_sub by (rule wf_bus.intros; simp add: pc_links pc_items pc_ids pc_bases)+
  have "wf_bus pc_bus 0 IORESOURCE_TYPE_MASK IORESOURCE_MEM pc_store"
    by (rule wf_bus.intros) (use inner in \<open>simp_all add: pc_links pc_items pc_ids pc_bases pc_sub pc_touched\<close>)
  moreover have "wf_bus pc_bus 5 IORESOURCE_TYPE_MASK IORESOURCE_IO pc_store"
    by (rule wf_bus.intros) (use inner in \<open>simp_all add: pc_links pc_items pc_ids pc_bases pc_sub pc_touched\<close>)
  moreover have "root_zone pc_store (0, Some pc_bus) \<inter> root_zone pc_store (5, Some pc_bus) = {}"
    by (simp add: pc_roots pc_touched)
  ultimately show ?thesis by (simp add: wf_domains_def pc_roots)
qed

lemma pc_sized_at [pc]: "pc_sized i = (if i = 0 then (pc_store 0)\<lparr>res_align := 20, res_size := 0x200000\<rparr>
    else if i = 3 then (pc_store 3)\<lparr>res_size := 0x100000, res_base := 0x100000\<rparr>
    else if i = 5 then (pc_store 5)\<lparr>res_align := 12, res_size := 0x1000\<rparr>
    else if i = 12 then (pc_store 12)\<lparr>res_size := 0x1000\<rparr> else pc_store i)"
  by (simp add: pc_sized_def)

lemma pc_sized_items:
  "bus_items IORESOURCE_TYPE_MASK IORESOURCE_MEM pc_sized pc_bus =
     [(Dev True False [2] [], 2), (pc_bridge, 3), (Dev True False [6, 7, 8] [pc_superio], 8)]"
  "bus_items (IORESOURCE_TYPE_MASK OR IORESOURCE_PREFETCH) IORESOURCE_MEM pc_sized pc_inner = [(Dev True False [4, 13] [], 4)]"
  "bus_items IORESOURCE_TYPE_MASK IORESOURCE_IO pc_sized pc_bus =
     [(pc_bridge, 12), (Dev True False [9] [], 9), (Dev True False [10] [], 10)]"
  "bus_items (IORESOURCE_TYPE_MASK OR IORESOURCE_PREFETCH) IORESOURCE_IO pc_sized pc_inner = [(Dev True False [4, 13] [], 13)]"
  "bus_links IORESOURCE_TYPE_MASK IORESOURCE_MEM pc_sized pc_bus = [(3, Some pc_inner)]"
  "bus_links (IORESOURCE_TYPE_MASK OR IORESOURCE_PREFETCH) IORESOURCE_MEM pc_sized pc_inner = []"
  "bus_links IORESOURCE_TYPE_MASK IORESOURCE_IO pc_sized pc_bus = [(12, Some pc_inner)]"
  "bus_links (IORESOURCE_TYPE_MASK OR IORESOURCE_PREFETCH) IORESOURCE_IO pc_sized pc_inner = []"
  using same_types_cong [OF _ pc_sized_types] pc_items pc_links by simp_all

lemma pc_moderate:
  "bus_tree moderate pc_bus 0 IORESOURCE_TYPE_MASK IORESOURCE_MEM pc_sized"
  "bus_tree moderate pc_bus 5 IORESOURCE_TYPE_MASK IORESOURCE_IO pc_sized"
proof -
  note ev = moderate_def visit_order_def pc_sized_items used_def movable_def need_key_def
  have inner: "bus_tree moderate pc_inner 3 (sub_mask IORESOURCE_TYPE_MASK) (sub_type IORESOURCE_MEM (pc_sized 3)) pc_sized"
    "bus_tree moderate pc_inner 12 (sub_mask IORESOURCE_TYPE_MASK) (sub_type IORESOURCE_IO (pc_sized 12)) pc_sized"
    unfolding pc_sub by (rule bus_tree.intros; simp add: ev; simp add: pc)+
  show "bus_tree moderate pc_bus 0 IORESOURCE_TYPE_MASK IORESOURCE_MEM pc_sized"
  proof (rule bus_tree.intros)
    show "moderate pc_bus 0 IORESOURCE_TYPE_MASK IORESOURCE_MEM pc_sized"
      by (simp add: ev) (simp add: pc)
  qed (use inner in \<open>simp add: pc_sized_items\<close>)
  show "bus_tree moderate pc_bus 5 IORESOURCE_TYPE_MASK IORESOURCE_IO pc_sized"
  proof (rule bus_tree.intros)
    show "moderate pc_bus 5 IORESOURCE_TYPE_MASK IORESOURCE_IO pc_sized"
      by (simp add: ev) (simp add: pc)
  qed (use inner in \<open>simp add: pc_sized_items\<close>)
qed

lemma pc_walk: "walk pc_domain = [0, 1, 5, 2, 3, 12, 4, 13, 6, 7, 8, 9, 10]"
  by (simp add: pc walk.simps)

lemma pc_own: "own_limits pc_domain pc_sized =
    \<lparr>c_io = \<lparr>win_base = 0, win_limit = 0xffff\<rparr>, c_mem = \<lparr>win_base = 0, win_limit = 0xfebfffff\<rparr>\<rparr>"
  by (simp add: own_limits_def limit_by_def resource_limit_def put_limit_def resource_is_def pc)

lemma pc_windows: "domain_windows pc_domain pc_sized =
    \<lparr>c_io = \<lparr>win_base = 0x1000, win_limit = 0xffff\<rparr>, c_mem = \<lparr>win_base = 0x80000000, win_limit = 0xfebfffff\<rparr>\<rparr>"
  unfolding domain_windows_def pc_own constrain_walk(1) pc_walk
  by (simp add: constrain_fixed_def constrain_window_def resource_limit_def put_limit_def resource_is_def pc)

lemma pc_roomy: "roomy [pc_domain] pc_sized"
  unfolding roomy_def
  by (simp add: pc_windows) (simp add: is_root_def resource_limit_def resource_is_def room_def rup_def pc)

text \<open>
  The condition on the fixed resources holds on this board: the ports from 0 move the lower end
  of the window, and the serial ports then lie below it.
\<close>

lemma pc_steady_walk:
  "small_limits (own_limits pc_domain pc_sized)" "steady_walk pc_sized (walk pc_domain) (own_limits pc_domain pc_sized)"
proof -
  show "small_limits (own_limits pc_domain pc_sized)"
    by (simp add: pc_own small_limits_def small_window_def)
  show "steady_walk pc_sized (walk pc_domain) (own_limits pc_domain pc_sized)"
    unfolding pc_own pc_walk
    by (simp add: steady_fixed_def holds_space_def small_def passes_zero_def constrain_fixed_def constrain_window_def
        resource_limit_def put_limit_def resource_is_def pc)
qed

lemma pc_steady: "steady_domains [pc_domain] pc_sized"
  using pc_steady_walk by (simp add: steady_domains_def)

theorem configure_places_witness:
  "\<exists>s3. configure_domains [pc_domain] pc_store = Some s3 \<and>
     bus_tree placed pc_bus 0 IORESOURCE_TYPE_MASK IORESOURCE_MEM s3 \<and>
     bus_tree placed pc_bus 5 IORESOURCE_TYPE_MASK IORESOURCE_IO s3 \<and>
     s3 1 = pc_store 1 \<and> s3 9 = pc_store 9 \<and> fixed_apart pc_domain s3"
proof -
  have dist: "distinct (concat (map resources (filter is_domain [pc_domain])))" by (simp add: pc)
  have k: "kept_fixed pc_store 1" "kept_fixed pc_store 9" by (simp_all add: kept_fixed_def movable_def pc)
  have dom: "is_domain pc_domain" by (simp add: pc)
  obtain s1 where run: "domains_pass compute_resources [pc_domain] pc_store = Some s1" and
    ok: "(\<forall>r l. (r, Some l) \<in> set (roots pc_store [pc_domain]) \<longrightarrow>
        bus_tree moderate l r IORESOURCE_TYPE_MASK (root_type (pc_store r)) s1) \<and>
      roomy [pc_domain] s1 \<and> steady_domains [pc_domain] s1 \<longrightarrow>
      (\<exists>s3. configure_domains [pc_domain] pc_store = Some s3 \<and>
       (\<forall>r l. (r, Some l) \<in> set (roots pc_store [pc_domain]) \<longrightarrow>
         bus_tree placed l r IORESOURCE_TYPE_MASK (root_type (pc_store r)) s3) \<and>
       (\<forall>i. kept_fixed pc_store i \<longrightarrow> s3 i = pc_store i) \<and> (\<forall>d \<in> set [pc_domain]. is_domain d \<longrightarrow> fixed_apart d s3))"
    using configure_places [OF pc_wf dist] by blast
  have s1: "s1 = pc_sized" using run pc_run by simp
  have "\<forall>r l. (r, Some l) \<in> set (roots pc_store [pc_domain]) \<longrightarrow>
        bus_tree moderate l r IORESOURCE_TYPE_MASK (root_type (pc_store r)) s1"
    using pc_moderate by (auto simp: pc_roots s1)
  then obtain s3 where "configure_domains [pc_domain] pc_store = Some s3"
    "\<forall>r l. (r, Some l) \<in> set (roots pc_store [pc_domain]) \<longrightarrow>
         bus_tree placed l r IORESOURCE_TYPE_MASK (root_type (pc_store r)) s3"
    "s3 1 = pc_store 1" "s3 9 = pc_store 9" "fixed_apart pc_domain s3"
    using ok pc_roomy pc_steady k dom unfolding s1 list.set by blast
  then show ?thesis by (auto simp: pc_roots)
qed

section \<open>The order of the visits\<close>

lemma visit_order_props:
  "mset (visit_order m t s b) = mset (filter (movable s) (map snd (bus_items m t s b)))"
  "sorted_wrt (\<lambda>x y. res_align (s y) < res_align (s x) \<or>
     res_align (s y) = res_align (s x) \<and> res_size (s y) \<le> res_size (s x)) (visit_order m t s b)"
proof -
  show "mset (visit_order m t s b) = mset (filter (movable s) (map snd (bus_items m t s b)))"
    by (simp add: visit_order_def)
  have "sorted (map (need_key s) (visit_order m t s b))" by (simp add: visit_order_def)
  then have "sorted_wrt (\<lambda>x y. \<not> need_key s y < need_key s x) (visit_order m t s b)"
    by (simp add: sorted_map not_less)
  then show "sorted_wrt (\<lambda>x y. res_align (s y) < res_align (s x) \<or>
     res_align (s y) = res_align (s x) \<and> res_size (s y) \<le> res_size (s x)) (visit_order m t s b)"
    by (rule sorted_wrt_mono_rel [rotated]) (auto simp: need_key_less)
qed

text \<open>
  C13. Both passes look for the next largest resource again after each one they place. That
  search visits the resources of the bus that are not fixed, each once, by descending
  alignment and then by descending size, those with equal needs in the order of the bus; the
  loops end and do what one run along this order does.
\<close>

theorem passes_follow_order:
  assumes "type_bits m" "br \<notin> set (bus_ids b)" "distinct (map snd (bus_items m t s b))"
  shows "\<exists>order. mset order = mset (filter (movable s) (map snd (bus_items m t s b))) \<and>
    sorted_wrt (\<lambda>x y. res_align (s y) < res_align (s x) \<or>
      res_align (s y) = res_align (s x) \<and> res_size (s y) \<le> res_size (s x)) order \<and>
    (\<forall>base. largest_loop (compute_place br) b m t None (base, s) = Some (fold (compute_place br) order (base, s)) \<and>
      largest_loop (alloc_place br) b m t None (base, s) = Some (fold (alloc_place br) order (base, s)))"
proof (intro exI conjI allI)
  fix base :: resource_t
  have items: "distinct (map snd (bus_items m t (snd (base, s)) b))" using assms(3) by simp
  show "largest_loop (compute_place br) b m t None (base, s) = Some (fold (compute_place br) (visit_order m t s b) (base, s))"
    using largest_loop_order [OF assms(1) items compute_place_need [OF assms(2)]] by simp
  show "largest_loop (alloc_place br) b m t None (base, s) = Some (fold (alloc_place br) (visit_order m t s b) (base, s))"
    using largest_loop_order [OF assms(1) items alloc_place_need] by simp
qed (rule visit_order_props)+

theorem passes_follow_order_witness:
  "\<exists>order. mset order = {#2, 3#} \<and>
    (\<forall>base. largest_loop (compute_place 0) pc_bus IORESOURCE_TYPE_MASK IORESOURCE_MEM None (base, pc_store) =
      Some (fold (compute_place 0) order (base, pc_store)))"
proof -
  have "0 \<notin> set (bus_ids pc_bus)" by (simp add: pc bus_ids_def)
  moreover have "filter (movable pc_store) (map snd (bus_items IORESOURCE_TYPE_MASK IORESOURCE_MEM pc_store pc_bus)) = [2, 3]"
    by (simp add: pc_items movable_def) (simp add: pc)
  ultimately show ?thesis
    using passes_follow_order [of IORESOURCE_TYPE_MASK 0 pc_bus IORESOURCE_MEM pc_store] by (auto simp: pc_items)
qed

section \<open>What the passes leave unchanged\<close>

text \<open>
  C15. No pass changes what a resource is: its index and all its flags but the two that record
  its assignment, whatever else happens on the way.
\<close>

theorem passes_keep_types:
  assumes "compute_resources b br m t s = Some s' \<or> allocate_resources b br m t s = Some s'"
  shows "res_index (s' i) = res_index (s i) \<and>
    res_flags (s' i) AND NOT (IORESOURCE_ASSIGNED OR IORESOURCE_STORED) =
    res_flags (s i) AND NOT (IORESOURCE_ASSIGNED OR IORESOURCE_STORED)"
proof -
  have "same_types s s'" using assms compute_types(1) allocate_types(1) by blast
  then show ?thesis by (simp add: same_types_def same_type_def)
qed

theorem passes_keep_types_witness:
  "\<exists>s'. compute_resources pc_bus 0 IORESOURCE_TYPE_MASK IORESOURCE_MEM pc_store = Some s' \<and>
     res_index (s' 3) = 0x20 \<and> res_flags (s' 3) AND NOT (IORESOURCE_ASSIGNED OR IORESOURCE_STORED) = 0x80200"
proof -
  obtain s' where s': "compute_resources pc_bus 0 IORESOURCE_TYPE_MASK IORESOURCE_MEM pc_store = Some s'"
    using compute_run [OF wf_domains_zone(1) [OF pc_wf, of 0 pc_bus], of pc_store] by (auto simp: pc_roots)
  have "res_index (pc_store 3) = 0x20" "res_flags (pc_store 3) AND NOT (IORESOURCE_ASSIGNED OR IORESOURCE_STORED) = 0x80200"
    by (simp_all add: pc)
  then show ?thesis using passes_keep_types [OF disjI1 [OF s'], of 3] s' by auto
qed

section \<open>The limits of the windows\<close>

text \<open>
  C14. The windows of a domain only shrink, and they end up free of every fixed resource of
  their kind among the enabled devices below it. This needs the windows and the fixed resources
  to end below \<open>2 ^ 62\<close> and a resource that starts at address 0 to be no longer than the two
  ends of its window together, when the walk over the devices comes to it (longer ones cover the
  window, and make its upper end wrap: \<open>constrain_window_wraps\<close>).
\<close>

theorem constrain_resources_clear:
  assumes "small_limits L" "steady_walk s (walk d) L"
  shows "shrunk_limits L (constrain_resources s d L) \<and>
    (\<forall>q w. seen d q \<and> holds_space (s q) \<and> resource_limit (constrain_resources s d L) (s q) = Some w \<longrightarrow> clear_of (s q) w)"
  using constrain_tree [OF assms(2,1)] by (auto simp: constrained_def clear_limits_def)

theorem constrain_resources_clear_witness:
  "clear_of (pc_sized 9) \<lparr>win_base = 0x1000, win_limit = 0xffff\<rparr>"
proof -
  have "resource_limit (domain_windows pc_domain pc_sized) (pc_sized 9) = Some \<lparr>win_base = 0x1000, win_limit = 0xffff\<rparr>"
    by (simp add: pc_windows) (simp add: resource_limit_def resource_is_def pc)
  moreover have "holds_space (pc_sized 9)" by (simp add: holds_space_def pc)
  moreover have "seen pc_domain 9" using walk_set [of pc_domain] by (auto simp: pc_walk)
  ultimately show ?thesis using constrain_resources_clear [OF pc_steady_walk] unfolding domain_windows_def by blast
qed

text \<open>
  A fixed resource that starts at address 0 and covers the window makes the limit wrap to the
  highest address.
\<close>

lemma constrain_window_wraps:
  assumes "res_base r = 0" "win_base w = 0" "res_size r \<noteq> 0" "unat (res_size r) < 4611686018427387904"
    "unat (win_limit w) < unat (res_size r)"
  shows "win_limit (constrain_window r w) = 0xffffffffffffffff" "\<not> clear_of r (constrain_window r w)"
proof -
  have fits: "unat (0 :: u64) + unat (res_size r) \<le> 4611686018427387904" using assms(4) by simp
  have l: "unat (res_size r - 1) = unat (res_size r) - 1" using unat_last(1) [OF assms(3) fits] by simp
  have "sint (win_limit w - (res_size r - 1)) = int (unat (win_limit w)) - int (unat (res_size r - 1))"
    by (rule sint_difference) (use l assms(4,5) in linarith)+
  then have "\<not> 0 < sint (win_limit w - (res_size r - 1))" using l assms(5) by linarith
  then have e: "constrain_window r w = w\<lparr>win_limit := - 1\<rparr>"
    using assms(1-3) by (simp add: constrain_window_def)
  then show "win_limit (constrain_window r w) = 0xffffffffffffffff" by simp
  have m: "(- 1 :: u64) = 0xffffffffffffffff" by simp
  have "unat (- 1 :: u64) = 18446744073709551615" unfolding m by (rule unat_numeral [THEN trans]) simp
  then show "\<not> clear_of r (constrain_window r w)"
    using assms(1-3) unfolding e clear_of_def by (simp add: unat_gt_0)
qed

lemma sint_u64:
  fixes x :: u64
  shows "sint x = (if unat x < 9223372036854775808 then int (unat x) else int (unat x) - 18446744073709551616)"
proof -
  have e: "sint x = (int (unat x) + 9223372036854775808) mod 18446744073709551616 - 9223372036854775808"
    using int_word_sint [of "int (unat x)", where ?'a = 64] by simp
  have "(int (unat x) + 9223372036854775808) mod 18446744073709551616 =
      (if unat x < 9223372036854775808 then int (unat x) + 9223372036854775808 else int (unat x) - 9223372036854775808)"
  proof (cases "unat x < 9223372036854775808")
    case True
    then have "int (unat x) + 9223372036854775808 < 18446744073709551616" by linarith
    then show ?thesis using True by (simp add: mod_pos_pos_trivial)
  next
    case False
    have "unat x < 18446744073709551616" by (rule unat_lt_2p64)
    then have "(int (unat x) - 9223372036854775808 + 18446744073709551616) mod 18446744073709551616 = int (unat x) - 9223372036854775808"
      using False by (subst mod_add_self2) (rule mod_pos_pos_trivial, linarith+)
    moreover have "int (unat x) + 9223372036854775808 = int (unat x) - 9223372036854775808 + 18446744073709551616" by linarith
    ultimately show ?thesis using False by (simp only: if_False)
  qed
  then show ?thesis using e by (simp split: if_splits)
qed

text \<open>
  The signed comparison takes room of \<open>2 ^ 63\<close> bytes or more above a fixed resource for a
  negative amount: it keeps the smaller part of the window, below the resource.
\<close>

lemma constrain_window_signed:
  assumes "win_base w \<le> res_base r" "res_base r \<le> win_limit w" "res_base r \<le> res_base r + res_size r - 1"
    "unat (res_base r - win_base w) < 9223372036854775808"
    "9223372036854775808 \<le> unat (win_limit w - (res_base r + res_size r - 1))"
  shows "constrain_window r w = w\<lparr>win_limit := res_base r - 1\<rparr>"
proof -
  have "sint (win_limit w - (res_base r + res_size r - 1)) < 0" "0 \<le> sint (res_base r - win_base w)"
    unfolding sint_u64 using assms(4,5) unat_lt_2p64 [of "win_limit w - (res_base r + res_size r - 1)"]
    by (simp_all only: if_True if_False not_less [symmetric])
  then have "\<not> sint (win_limit w - (res_base r + res_size r - 1)) > sint (res_base r - win_base w)" by linarith
  moreover have "\<not> (res_base r + res_size r - 1 < win_base w \<or> res_base r > win_limit w)"
    using assms(1-3) by (auto simp: not_less intro: order_trans)
  ultimately show ?thesis unfolding constrain_window_def by simp
qed

text \<open>
  When the memory of a domain does not fit above the lower end of its window, the base is moved
  below that end all the same, into the fixed resources the window was to avoid.
\<close>

lemma unat_plus_one_small: "unat (x :: u64) < 18446744073709551615 \<Longrightarrow> unat (x + 1) = unat x + 1"
  by (simp add: unat_word_ariths)

lemma memory_window_below:
  assumes "res_flags r AND IORESOURCE_FIXED = 0" "resource_is r IORESOURCE_MEM" "inside_own r L"
    "res_align r < 64" "unat (res_size r) \<le> unat (win_limit (c_mem L))"
    "unat (win_limit (c_mem L)) < unat (win_base (c_mem L)) + unat (res_size r) - 1" "res_size r \<noteq> 0"
  shows "res_base (move_into L r) < win_base (c_mem L)"
proof -
  let ?w = "c_mem L" and ?m = "r\<lparr>res_base := win_base (c_mem L), res_limit := win_limit (c_mem L)\<rparr>"
  have lim: "resource_limit L r = Some ?w" using assms(2) by (simp add: resource_limit_def)
  have own: "res_base r \<le> win_base ?w" "win_limit ?w \<le> res_limit r"
    using assms(1,3) lim by (simp_all add: inside_own_def)
  have mv: "move_into L r = ?m\<lparr>res_base := resource_max ?m\<rparr>"
    using assms(1) lim own type_of_mem [OF assms(2)] by (auto simp: move_into_def Let_def resource_max_def)
  have "unat (win_limit ?w - res_size r) = unat (win_limit ?w) - unat (res_size r)"
    using assms(5) by (simp add: unat_sub word_le_nat_alt)
  moreover have "unat (win_limit ?w) < 18446744073709551616" by (rule unat_lt_2p64)
  moreover have "0 < unat (res_size r)" using assms(7) by (simp add: unat_gt_0)
  ultimately have "unat (win_limit ?w - res_size r + 1) = unat (win_limit ?w) - unat (res_size r) + 1"
    using assms(5) unat_plus_one_small [of "win_limit ?w - res_size r"] by linarith
  then have "unat (resource_max ?m) \<le> unat (win_limit ?w) - unat (res_size r) + 1"
    using assms(4) by (simp add: resource_max_def unat_align_down)
  then show ?thesis using assms(5,6) mv by (simp add: word_less_nat_alt)
qed

end
