(* ===== verification/Memrange.thy ===== *)
theory Memrange
  imports Resource
begin

text \<open>
  Tagged memory ranges, \<^verbatim>\<open>src/coreboot/src/lib/memrange.c\<close> and
  \<^verbatim>\<open>src/coreboot/src/include/memrange.h\<close>. A \<open>struct memranges\<close> is the list of its entries
  and the list of its free entries; a pointer to a link (\<open>prev_ptr\<close>) is the list that hangs
  off that link, and an operation on it returns the list that hangs there afterwards. The
  argument \<open>ramstage\<close> is the constant \<open>ENV_RAMSTAGE\<close>: in ramstage \<open>malloc\<close> supplies an
  entry when the free list is empty (it never returns \<open>NULL\<close>), before it nothing does.

  The specification reads the ranges as a map from addresses to tags, \<open>tag_at\<close>, and the
  invariant \<open>ranges_ok\<close> says that the entries are nonempty, disjoint and in order of
  address. The lemmas show that every operation keeps the invariant and what it makes of
  the map, also when no entry can be allocated.
\<close>

record range_entry =
  re_begin :: resource_t
  re_end :: resource_t
  re_tag :: u32

record memranges =
  entries :: "range_entry list"
  free_list :: "range_entry list"

definition range_entry_init :: "resource_t \<Rightarrow> resource_t \<Rightarrow> u32 \<Rightarrow> range_entry" where
  "range_entry_init incl_begin excl_end t =
     \<lparr>re_begin = incl_begin, re_end = excl_end - 1, re_tag = t\<rparr>"

definition range_entry_base :: "range_entry \<Rightarrow> resource_t" where
  "range_entry_base r = re_begin r"

definition range_entry_end :: "range_entry \<Rightarrow> resource_t" where
  "range_entry_end r = re_end r + 1"

definition range_entry_size :: "range_entry \<Rightarrow> resource_t" where
  "range_entry_size r = re_end r - re_begin r + 1"

definition range_entry_tag :: "range_entry \<Rightarrow> u32" where
  "range_entry_tag r = re_tag r"

definition range_entry_update_tag :: "range_entry \<Rightarrow> u32 \<Rightarrow> range_entry" where
  "range_entry_update_tag r new_tag = r\<lparr>re_tag := new_tag\<rparr>"

definition range_entry_link :: "range_entry list \<Rightarrow> range_entry \<Rightarrow> range_entry list" where
  "range_entry_link prev_ptr r = r # prev_ptr"

definition range_entry_unlink :: "range_entry list \<Rightarrow> range_entry list" where
  "range_entry_unlink prev_ptr = tl prev_ptr"

text \<open>The list behind \<open>prev_ptr\<close> and the free list, after \<open>r\<close> has moved to the latter.\<close>

definition range_entry_unlink_and_free ::
  "range_entry list \<Rightarrow> range_entry list \<Rightarrow> range_entry \<Rightarrow> range_entry list \<times> range_entry list" where
  "range_entry_unlink_and_free free prev_ptr r =
     (range_entry_unlink prev_ptr, range_entry_link free r)"

text \<open>
  The entry handed out is described by whether there is one: its fields are all written
  by the caller.
\<close>

definition alloc_range :: "bool \<Rightarrow> range_entry list \<Rightarrow> bool \<times> range_entry list" where
  "alloc_range ramstage free =
     (if free \<noteq> [] then (True, range_entry_unlink free)
      else if ramstage then (True, free)
      else (False, free))"

definition range_list_add ::
  "bool \<Rightarrow> range_entry list \<Rightarrow> range_entry list \<Rightarrow> resource_t \<Rightarrow> resource_t \<Rightarrow> u32 \<Rightarrow>
   range_entry list \<times> range_entry list" where
  "range_list_add ramstage free prev_ptr b e t =
     (case alloc_range ramstage free of
        (False, free') \<Rightarrow> (prev_ptr, free')
      | (True, free') \<Rightarrow>
          (range_entry_link prev_ptr \<lparr>re_begin = b, re_end = e, re_tag = t\<rparr>, free'))"

fun merge_neighbors ::
  "range_entry list \<Rightarrow> range_entry \<Rightarrow> range_entry list \<Rightarrow> range_entry list \<times> range_entry list" where
  "merge_neighbors free prev [] = ([prev], free)"
| "merge_neighbors free prev (cur # next) =
     (if re_end prev + 1 \<ge> re_begin cur \<and> re_tag prev = re_tag cur
      then (case range_entry_unlink_and_free free (cur # next) cur of
              (next', free') \<Rightarrow> merge_neighbors free' (prev\<lparr>re_end := re_end cur\<rparr>) next)
      else (case merge_neighbors free cur next of (es, free') \<Rightarrow> (prev # es, free')))"

definition merge_neighbor_entries :: "memranges \<Rightarrow> memranges" where
  "merge_neighbor_entries ranges =
     (case entries ranges of
        [] \<Rightarrow> ranges
      | first # next \<Rightarrow>
          (case merge_neighbors (free_list ranges) first next of
             (es, free) \<Rightarrow> \<lparr>entries = es, free_list = free\<rparr>))"

fun remove_loop ::
  "bool \<Rightarrow> range_entry list \<Rightarrow> resource_t \<Rightarrow> resource_t \<Rightarrow> range_entry list \<Rightarrow>
   range_entry list \<times> range_entry list" where
  "remove_loop ramstage free b e [] = ([], free)"
| "remove_loop ramstage free b e (cur # next) =
     (if e < re_begin cur then (cur # next, free)
      else if b > re_end cur
      then (case remove_loop ramstage free b e next of (es, free') \<Rightarrow> (cur # es, free'))
      else if b \<le> re_begin cur \<and> e \<ge> re_end cur
      then (case range_entry_unlink_and_free free (cur # next) cur of
              (next', free') \<Rightarrow> remove_loop ramstage free' (re_end cur + 1) e next)
      else
        (let b1 = (if b \<le> re_begin cur then re_begin cur else b);
             tmp_end = (if e > re_end cur then re_end cur else e)
         in if b1 > re_begin cur \<and> tmp_end < re_end cur
            then (case range_list_add ramstage free next (e + 1) (re_end cur) (re_tag cur) of
                    (next', free') \<Rightarrow> (cur\<lparr>re_end := b1 - 1\<rparr> # next', free'))
            else
              (let cur1 = (if b1 = re_begin cur then cur\<lparr>re_begin := tmp_end + 1\<rparr> else cur);
                   cur2 = (if tmp_end = re_end cur1 then cur1\<lparr>re_end := b1 - 1\<rparr> else cur1)
               in case remove_loop ramstage free b1 e next of
                    (es, free') \<Rightarrow> (cur2 # es, free'))))"

definition remove_memranges ::
  "bool \<Rightarrow> memranges \<Rightarrow> resource_t \<Rightarrow> resource_t \<Rightarrow> u32 \<Rightarrow> memranges" where
  "remove_memranges ramstage ranges b e unused =
     (case remove_loop ramstage (free_list ranges) b e (entries ranges) of
        (es, free) \<Rightarrow> \<lparr>entries = es, free_list = free\<rparr>)"

text \<open>The entries before the place of the new one and those after it.\<close>

fun insertion_spot :: "resource_t \<Rightarrow> range_entry list \<Rightarrow> range_entry list \<times> range_entry list" where
  "insertion_spot e [] = ([], [])"
| "insertion_spot e (cur # next) =
     (if e < re_begin cur then ([], cur # next)
      else (case insertion_spot e next of (before, after) \<Rightarrow> (cur # before, after)))"

definition merge_add_memranges ::
  "bool \<Rightarrow> memranges \<Rightarrow> resource_t \<Rightarrow> resource_t \<Rightarrow> u32 \<Rightarrow> memranges" where
  "merge_add_memranges ramstage ranges b e t =
     (let ranges1 = remove_memranges ramstage ranges b e (- 1)
      in case insertion_spot e (entries ranges1) of
           (before, prev_ptr) \<Rightarrow>
             (case range_list_add ramstage (free_list ranges1) prev_ptr b e t of
                (prev_ptr', free) \<Rightarrow>
                  merge_neighbor_entries \<lparr>entries = before @ prev_ptr', free_list = free\<rparr>))"

definition memranges_update_tag :: "memranges \<Rightarrow> u32 \<Rightarrow> u32 \<Rightarrow> memranges" where
  "memranges_update_tag ranges old_tag new_tag =
     merge_neighbor_entries (ranges\<lparr>entries :=
       map (\<lambda>r. if range_entry_tag r = old_tag then range_entry_update_tag r new_tag else r)
         (entries ranges)\<rparr>)"

definition do_action ::
  "memranges \<Rightarrow> resource_t \<Rightarrow> resource_t \<Rightarrow> u32 \<Rightarrow>
   (memranges \<Rightarrow> resource_t \<Rightarrow> resource_t \<Rightarrow> u32 \<Rightarrow> memranges) \<Rightarrow> memranges" where
  "do_action ranges base sz t action =
     (if sz = 0 then ranges
      else (let b = ALIGN_DOWN base 4096;
                e = b + sz + (base - b);
                e' = ALIGN_UP e 4096 - 1
            in action ranges b e' t))"

definition memranges_create_hole ::
  "bool \<Rightarrow> memranges \<Rightarrow> resource_t \<Rightarrow> resource_t \<Rightarrow> memranges" where
  "memranges_create_hole ramstage ranges base sz =
     do_action ranges base sz (- 1) (remove_memranges ramstage)"

definition memranges_insert ::
  "bool \<Rightarrow> memranges \<Rightarrow> resource_t \<Rightarrow> resource_t \<Rightarrow> u32 \<Rightarrow> memranges" where
  "memranges_insert ramstage ranges base sz t =
     do_action ranges base sz t (merge_add_memranges ramstage)"

definition collect_ranges ::
  "bool \<Rightarrow> u32 \<Rightarrow> (device \<Rightarrow> resource \<Rightarrow> bool) option \<Rightarrow> device \<Rightarrow> resource \<Rightarrow> memranges \<Rightarrow> memranges" where
  "collect_ranges ramstage t flt dev res ranges =
     (if res_size res = 0 then ranges
      else if (case flt of None \<Rightarrow> True | Some f \<Rightarrow> f dev res)
      then memranges_insert ramstage ranges (res_base res) (res_size res) t
      else ranges)"

definition memranges_add_resources_filter ::
  "bool \<Rightarrow> device list \<Rightarrow> memranges \<Rightarrow> u32 \<Rightarrow> u32 \<Rightarrow> u32 \<Rightarrow>
   (device \<Rightarrow> resource \<Rightarrow> bool) option \<Rightarrow> memranges" where
  "memranges_add_resources_filter ramstage all_devices ranges msk match t flt =
     search_global_resources all_devices (msk OR IORESOURCE_MEM) (match OR IORESOURCE_MEM)
       (collect_ranges ramstage t flt) ranges"

definition memranges_add_resources ::
  "bool \<Rightarrow> device list \<Rightarrow> memranges \<Rightarrow> u32 \<Rightarrow> u32 \<Rightarrow> u32 \<Rightarrow> memranges" where
  "memranges_add_resources ramstage all_devices ranges msk match t =
     memranges_add_resources_filter ramstage all_devices ranges msk match t None"

definition memranges_init_empty :: "range_entry list \<Rightarrow> memranges" where
  "memranges_init_empty to_free =
     \<lparr>entries = [], free_list = foldl range_entry_link [] to_free\<rparr>"

definition memranges_init ::
  "bool \<Rightarrow> device list \<Rightarrow> u32 \<Rightarrow> u32 \<Rightarrow> u32 \<Rightarrow> memranges" where
  "memranges_init ramstage all_devices msk match t =
     memranges_add_resources ramstage all_devices (memranges_init_empty []) msk match t"

fun teardown_loop :: "range_entry list \<Rightarrow> range_entry list \<Rightarrow> range_entry list \<times> range_entry list" where
  "teardown_loop free [] = ([], free)"
| "teardown_loop free (r # next) =
     (case range_entry_unlink_and_free free (r # next) r of
        (next', free') \<Rightarrow> teardown_loop free' next)"

definition memranges_teardown :: "memranges \<Rightarrow> memranges" where
  "memranges_teardown ranges =
     (case teardown_loop (free_list ranges) (entries ranges) of
        (es, free) \<Rightarrow> \<lparr>entries = es, free_list = free\<rparr>)"

text \<open>
  The walk of \<open>memranges_fill_holes_up_to\<close> from \<open>prev\<close>; \<open>fill_last\<close> is what follows the
  loop, at the last \<open>prev\<close>. The segment that a call of \<open>range_list_add\<close> puts after \<open>prev\<close>
  (one entry, or none when the allocation fails) is computed on the empty list.
\<close>

definition fill_last ::
  "bool \<Rightarrow> resource_t \<Rightarrow> u32 \<Rightarrow> range_entry list \<Rightarrow> range_entry \<Rightarrow> range_entry list \<Rightarrow>
   range_entry list \<times> range_entry list" where
  "fill_last ramstage limit t free prev next =
     (if range_entry_end prev < limit
      then (case range_list_add ramstage free next (range_entry_end prev) (limit - 1) t of
              (next', free') \<Rightarrow> (prev # next', free'))
      else (prev # next, free))"

fun fill_loop ::
  "bool \<Rightarrow> resource_t \<Rightarrow> u32 \<Rightarrow> range_entry list \<Rightarrow> range_entry \<Rightarrow> range_entry list \<Rightarrow>
   range_entry list \<times> range_entry list" where
  "fill_loop ramstage limit t free prev [] = fill_last ramstage limit t free prev []"
| "fill_loop ramstage limit t free prev (cur # next) =
     (let e = (if re_begin cur - 1 \<ge> limit then limit - 1 else re_begin cur - 1)
      in case (if range_entry_end prev \<noteq> re_begin cur
               then range_list_add ramstage free [] (range_entry_end prev) e t
               else ([], free)) of
           (hole, free') \<Rightarrow>
             (case (if re_begin cur \<ge> limit
                    then fill_last ramstage limit t free' cur next
                    else fill_loop ramstage limit t free' cur next) of
                (es, free'') \<Rightarrow> (prev # hole @ es, free'')))"

definition memranges_fill_holes_up_to ::
  "bool \<Rightarrow> memranges \<Rightarrow> resource_t \<Rightarrow> u32 \<Rightarrow> memranges" where
  "memranges_fill_holes_up_to ramstage ranges limit t =
     merge_neighbor_entries
       (case entries ranges of
          [] \<Rightarrow> ranges
        | first # next \<Rightarrow>
            (case fill_loop ramstage limit t (free_list ranges) first next of
               (es, free) \<Rightarrow> \<lparr>entries = es, free_list = free\<rparr>))"

text \<open>An entry is named by its position.\<close>

definition memranges_next_entry :: "memranges \<Rightarrow> nat \<Rightarrow> nat option" where
  "memranges_next_entry ranges i =
     (if Suc i < length (entries ranges) then Some (Suc i) else None)"

section \<open>Specification\<close>

definition covers :: "range_entry \<Rightarrow> resource_t \<Rightarrow> bool" where
  "covers r a \<longleftrightarrow> re_begin r \<le> a \<and> a \<le> re_end r"

fun tag_in :: "range_entry list \<Rightarrow> resource_t \<Rightarrow> u32 option" where
  "tag_in [] a = None"
| "tag_in (r # rs) a = (if covers r a then Some (re_tag r) else tag_in rs a)"

definition tag_at :: "memranges \<Rightarrow> resource_t \<Rightarrow> u32 option" where
  "tag_at ranges = tag_in (entries ranges)"

definition precedes :: "range_entry \<Rightarrow> range_entry \<Rightarrow> bool" where
  "precedes r s \<longleftrightarrow> re_end r < re_begin s"

definition entries_ok :: "range_entry list \<Rightarrow> bool" where
  "entries_ok es \<longleftrightarrow> sorted_wrt precedes es \<and> (\<forall>r \<in> set es. re_begin r \<le> re_end r)"

definition ranges_ok :: "memranges \<Rightarrow> bool" where
  "ranges_ok ranges = entries_ok (entries ranges)"

text \<open>The entries the structure owns, used and free.\<close>

definition entry_count :: "memranges \<Rightarrow> nat" where
  "entry_count ranges = length (entries ranges) + length (free_list ranges)"

text \<open>The pages a request names, with the last one cut off at the end of the space.\<close>

definition page_request :: "resource_t \<Rightarrow> resource_t \<Rightarrow> resource_t \<Rightarrow> bool" where
  "page_request base sz a \<longleftrightarrow>
     sz \<noteq> 0 \<and> unat base div 4096 \<le> unat a div 4096 \<and>
     unat a div 4096 \<le> (unat base + unat sz - 1) div 4096"

section \<open>Lemmas\<close>

lemma Suc_unat_less: "x < y \<Longrightarrow> unat (x + 1) = Suc (unat x)" for x y :: "'a::len word"
proof -
  assume "x < y"
  then have "unat x < unat y" by (simp add: word_less_nat_alt)
  moreover have "unat y < 2 ^ LENGTH('a)" by simp
  ultimately have "unat x + 1 < 2 ^ LENGTH('a)" by linarith
  then have "unat x + unat (1 :: 'a word) < 2 ^ LENGTH('a)" by simp
  from unat_plus_no_wrap [OF this] show ?thesis by simp
qed

lemma inc_le_iff: "x < y \<Longrightarrow> x + 1 \<le> a \<longleftrightarrow> x < a" for x y a :: "'a::len word"
  by (simp add: word_less_nat_alt word_le_nat_alt Suc_unat_less Suc_le_eq)

lemma le_dec_iff: "x < y \<Longrightarrow> a \<le> y - 1 \<longleftrightarrow> a < y" for x y a :: "'a::len word"
proof -
  assume "x < y"
  then have "0 < unat y" by (simp add: word_less_nat_alt)
  then have "unat (y - 1) = unat y - 1" by (simp add: unat_minus_one unat_gt_0)
  with \<open>0 < unat y\<close> show ?thesis by (simp add: word_less_nat_alt word_le_nat_alt) linarith
qed

lemma dec_less_self: "x < y \<Longrightarrow> y - 1 < y" for x y :: "'a::len word"
  using le_dec_iff [of x y "y - 1"] by simp

lemma less_inc_self: "x < y \<Longrightarrow> x < x + 1" for x y :: "'a::len word"
  using inc_le_iff [of x y "x + 1"] by simp

lemma entries_ok_Nil [simp]: "entries_ok []"
  by (simp add: entries_ok_def)

lemma entries_ok_Cons [simp]:
  "entries_ok (r # rs) \<longleftrightarrow>
     re_begin r \<le> re_end r \<and> (\<forall>s \<in> set rs. re_end r < re_begin s) \<and> entries_ok rs"
  by (auto simp: entries_ok_def precedes_def)

lemma entries_ok_append:
  "entries_ok (xs @ ys) \<longleftrightarrow>
     entries_ok xs \<and> entries_ok ys \<and> (\<forall>r \<in> set xs. \<forall>s \<in> set ys. re_end r < re_begin s)"
  by (induction xs) auto

lemma tag_in_append:
  "tag_in (xs @ ys) a = (case tag_in xs a of None \<Rightarrow> tag_in ys a | Some t \<Rightarrow> Some t)"
  by (induction xs) auto

lemma tag_in_below: "\<forall>r \<in> set es. a < re_begin r \<Longrightarrow> tag_in es a = None"
  by (induction es) (auto simp: covers_def)

lemma tag_in_above: "\<forall>r \<in> set es. re_end r < a \<Longrightarrow> tag_in es a = None"
  by (induction es) (auto simp: covers_def)

lemma range_list_add_cases:
  "range_list_add ramstage free p b e t =
     (if ramstage \<or> free \<noteq> []
      then (\<lparr>re_begin = b, re_end = e, re_tag = t\<rparr> # p, tl free) else (p, free))"
  by (auto simp: range_list_add_def alloc_range_def range_entry_link_def range_entry_unlink_def)

subsection \<open>Removal\<close>

text \<open>What a call has to know of its range: proper, or below everything that is left.\<close>

definition removable :: "resource_t \<Rightarrow> resource_t \<Rightarrow> range_entry list \<Rightarrow> bool" where
  "removable b e es \<longleftrightarrow> b \<le> e \<or> (\<forall>r \<in> set es. e < re_begin r)"

text \<open>One turn of the loop: the entry goes, stays, is cut at one side, or is split.\<close>

lemma remove_loop_step:
  assumes "re_begin cur \<le> re_end cur" and "removable b e (cur # next)"
  shows "remove_loop ramstage free b e (cur # next) =
    (if e < re_begin cur then (cur # next, free)
     else if re_end cur < b
     then apfst ((#) cur) (remove_loop ramstage free b e next)
     else if b \<le> re_begin cur \<and> re_end cur \<le> e
     then remove_loop ramstage (cur # free) (re_end cur + 1) e next
     else if b \<le> re_begin cur
     then apfst ((#) (cur\<lparr>re_begin := e + 1\<rparr>)) (remove_loop ramstage free (re_begin cur) e next)
     else if re_end cur \<le> e
     then apfst ((#) (cur\<lparr>re_end := b - 1\<rparr>)) (remove_loop ramstage free b e next)
     else apfst ((#) (cur\<lparr>re_end := b - 1\<rparr>))
       (range_list_add ramstage free next (e + 1) (re_end cur) (re_tag cur)))"
proof -
  consider "e < re_begin cur" | "re_end cur < b" "\<not> e < re_begin cur"
    | "b \<le> re_begin cur" "re_end cur \<le> e" | "b \<le> re_begin cur" "e < re_end cur" "re_begin cur \<le> e"
    | "re_begin cur < b" "b \<le> re_end cur" "re_end cur \<le> e"
    | "re_begin cur < b" "b \<le> re_end cur" "e < re_end cur" "re_begin cur \<le> e"
    by (meson leI)
  then show ?thesis
  proof cases
    case 5
    then have "(if re_end cur < e then re_end cur else e) = re_end cur" by auto
    moreover from 5 assms have "\<not> e < re_begin cur" "\<not> re_end cur < b" "\<not> b \<le> re_begin cur"
      "b \<noteq> re_begin cur" by auto
    ultimately show ?thesis using 5
      by (simp add: Let_def case_prod_unfold apfst_def map_prod_def)
  next
    case 6
    with assms have "\<not> e < re_begin cur" "\<not> re_end cur < b" "\<not> b \<le> re_begin cur"
      "b \<noteq> re_begin cur" "\<not> re_end cur \<le> e" "\<not> re_end cur < e" by auto
    then show ?thesis using 6
      by (simp add: Let_def case_prod_unfold apfst_def map_prod_def)
  next
    case 4
    with assms have "\<not> e < re_begin cur" "\<not> re_end cur < b" "\<not> re_end cur \<le> e"
      "\<not> re_end cur < e" "e \<noteq> re_end cur" by auto
    then show ?thesis using 4
      by (simp add: Let_def case_prod_unfold apfst_def map_prod_def)
  qed (use assms in \<open>auto simp: Let_def case_prod_unfold apfst_def map_prod_def not_less
      range_entry_unlink_and_free_def range_entry_link_def\<close>)
qed

lemma removable_rest:
  assumes "removable b e (cur # rest)" "entries_ok (cur # rest)"
  shows "removable b e rest" "re_begin cur \<le> e \<Longrightarrow> b \<le> e"
    "re_end cur \<le> e \<Longrightarrow> removable (re_end cur + 1) e rest"
    "re_begin cur \<le> e \<Longrightarrow> removable (re_begin cur) e rest"
proof -
  show "re_end cur \<le> e \<Longrightarrow> removable (re_end cur + 1) e rest"
    using assms inc_le_iff [of "re_end cur" e e] by (cases "re_end cur = e") (auto simp: removable_def)
qed (use assms in \<open>auto simp: removable_def\<close>)

lemmas remove_loop_simps = remove_loop.simps(2)
declare remove_loop.simps(2) [simp del]

text \<open>
  The cases of one turn, as a rule: \<open>P\<close> holds of the result when it does in each case.
\<close>

lemma remove_loop_cases:
  assumes ok: "entries_ok (cur # rest)" "removable b e (cur # rest)"
  and stop: "e < re_begin cur \<Longrightarrow> P (cur # rest) free"
  and skip: "\<And>es fr. re_end cur < b \<Longrightarrow> b \<le> e \<Longrightarrow>
    remove_loop ramstage free b e rest = (es, fr) \<Longrightarrow> P (cur # es) fr"
  and full: "\<And>es fr. b \<le> re_begin cur \<Longrightarrow> re_end cur \<le> e \<Longrightarrow>
    remove_loop ramstage (cur # free) (re_end cur + 1) e rest = (es, fr) \<Longrightarrow> P es fr"
  and head: "\<And>es fr. b \<le> re_begin cur \<Longrightarrow> re_begin cur \<le> e \<Longrightarrow> e < re_end cur \<Longrightarrow>
    remove_loop ramstage free (re_begin cur) e rest = (es, fr) \<Longrightarrow>
    P (cur\<lparr>re_begin := e + 1\<rparr> # es) fr"
  and tail: "\<And>es fr. re_begin cur < b \<Longrightarrow> b \<le> re_end cur \<Longrightarrow> re_end cur \<le> e \<Longrightarrow>
    remove_loop ramstage free b e rest = (es, fr) \<Longrightarrow> P (cur\<lparr>re_end := b - 1\<rparr> # es) fr"
  and middle: "re_begin cur < b \<Longrightarrow> b \<le> e \<Longrightarrow> e < re_end cur \<Longrightarrow> ramstage \<or> free \<noteq> [] \<Longrightarrow>
    P (cur\<lparr>re_end := b - 1\<rparr> # \<lparr>re_begin = e + 1, re_end = re_end cur, re_tag = re_tag cur\<rparr> # rest)
      (tl free)"
  and lost: "re_begin cur < b \<Longrightarrow> b \<le> e \<Longrightarrow> e < re_end cur \<Longrightarrow> \<not> ramstage \<Longrightarrow> free = [] \<Longrightarrow>
    P (cur\<lparr>re_end := b - 1\<rparr> # rest) free"
  shows "P (fst (remove_loop ramstage free b e (cur # rest)))
    (snd (remove_loop ramstage free b e (cur # rest)))"
proof -
  have be: "\<not> e < re_begin cur \<Longrightarrow> b \<le> e" using ok by (auto simp: removable_def)
  have "re_begin cur \<le> re_end cur" using ok by simp
  note remove_loop_step [OF this ok(2), of ramstage free]
  with assms be show ?thesis
    by (auto simp: range_list_add_cases not_le not_less apfst_def map_prod_def
        split: prod.splits if_splits)
qed

lemma remove_loop_floor:
  assumes "entries_ok es" "removable b e es" "\<forall>s \<in> set es. x < re_begin s"
  shows "\<forall>r \<in> set (fst (remove_loop ramstage free b e es)). x < re_begin r"
  using assms
proof (induction es arbitrary: b free)
  case (Cons cur rest)
  note rem = removable_rest [OF Cons.prems(2,1)]
  from Cons.prems have ok: "entries_ok rest" "\<forall>s \<in> set rest. x < re_begin s" "x < re_begin cur"
    by simp_all
  note IH = Cons.IH [OF ok(1) _ ok(2)]
  show ?case
  proof (rule remove_loop_cases [OF Cons.prems(1,2), where P = "\<lambda>es' _. \<forall>r \<in> set es'. x < re_begin r"])
    fix es fr assume "remove_loop ramstage free b e rest = (es, fr)"
    with IH [OF rem(1), of free] ok(3)
    show "\<forall>r \<in> set (cur # es). x < re_begin r" "\<forall>r \<in> set (cur\<lparr>re_end := b - 1\<rparr> # es). x < re_begin r"
      by simp_all
  next
    fix es fr assume "re_end cur \<le> e" "remove_loop ramstage (cur # free) (re_end cur + 1) e rest = (es, fr)"
    with IH [OF rem(3), of "cur # free"] show "\<forall>r \<in> set es. x < re_begin r" by simp
  next
    fix es fr assume *: "re_begin cur \<le> e" "e < re_end cur"
      "remove_loop ramstage free (re_begin cur) e rest = (es, fr)"
    from less_inc_self [OF *(2)] * ok(3) have "x < e + 1" by order
    with * IH [OF rem(4), of free] show "\<forall>r \<in> set (cur\<lparr>re_begin := e + 1\<rparr> # es). x < re_begin r"
      by simp
  next
    assume *: "re_begin cur < b" "b \<le> e" "e < re_end cur"
    from less_inc_self [OF *(3)] * ok(3) have "x < e + 1" by order
    with ok show "\<forall>r \<in> set (cur\<lparr>re_end := b - 1\<rparr> #
      \<lparr>re_begin = e + 1, re_end = re_end cur, re_tag = re_tag cur\<rparr> # rest). x < re_begin r" by simp
  qed (use ok in simp_all)
qed simp

lemma remove_loop_ok:
  assumes "entries_ok es" "removable b e es"
  shows "entries_ok (fst (remove_loop ramstage free b e es))"
  using assms
proof (induction es arbitrary: b free)
  case (Cons cur rest)
  note rem = removable_rest [OF Cons.prems(2,1)]
  from Cons.prems have ok: "re_begin cur \<le> re_end cur" "entries_ok rest"
    "\<forall>s \<in> set rest. re_end cur < re_begin s" by simp_all
  note IH = Cons.IH [OF ok(2)] and FL = remove_loop_floor [OF ok(2) _ ok(3)]
  show ?case
  proof (rule remove_loop_cases [OF Cons.prems, where P = "\<lambda>es' _. entries_ok es'"])
    fix es fr assume "remove_loop ramstage free b e rest = (es, fr)"
    with IH [OF rem(1), of free] FL [OF rem(1), of ramstage free] ok(1)
    show "entries_ok (cur # es)" by simp
  next
    fix es fr assume "re_end cur \<le> e"
      "remove_loop ramstage (cur # free) (re_end cur + 1) e rest = (es, fr)"
    with IH [OF rem(3), of "cur # free"] show "entries_ok es" by simp
  next
    fix es fr assume *: "re_begin cur \<le> e" "e < re_end cur"
      "remove_loop ramstage free (re_begin cur) e rest = (es, fr)"
    then have "e + 1 \<le> re_end cur" using inc_le_iff [of e "re_end cur"] by simp
    with * IH [OF rem(4), of free] FL [OF rem(4), of ramstage free]
    show "entries_ok (cur\<lparr>re_begin := e + 1\<rparr> # es)" by simp
  next
    fix es fr assume *: "re_begin cur < b" "b \<le> re_end cur"
      "remove_loop ramstage free b e rest = (es, fr)"
    then have "re_begin cur \<le> b - 1" "b - 1 < re_end cur"
      using le_dec_iff [of "re_begin cur" b] dec_less_self [of "re_begin cur" b] by auto
    with * IH [OF rem(1), of free] FL [OF rem(1), of ramstage free]
    show "entries_ok (cur\<lparr>re_end := b - 1\<rparr> # es)" by auto
  next
    assume *: "re_begin cur < b" "b \<le> e" "e < re_end cur"
    then have "re_begin cur \<le> b - 1" "b - 1 < b" "e < e + 1" "e + 1 \<le> re_end cur"
      using le_dec_iff [of "re_begin cur" b] dec_less_self [of "re_begin cur" b]
        inc_le_iff [of e "re_end cur"] by auto
    then have "b - 1 < e + 1" "b - 1 < re_end cur" using * by order+
    with \<open>re_begin cur \<le> b - 1\<close> \<open>e + 1 \<le> re_end cur\<close> ok
    show "entries_ok (cur\<lparr>re_end := b - 1\<rparr> #
      \<lparr>re_begin = e + 1, re_end = re_end cur, re_tag = re_tag cur\<rparr> # rest)"
      "entries_ok (cur\<lparr>re_end := b - 1\<rparr> # rest)" by auto
  qed (use Cons.prems in auto)
qed simp

text \<open>
  What the removal makes of the map. The split of an entry needs a new one; when there is
  none, the part of the entry above the hole is lost, and nothing else.
\<close>

definition removed ::
  "bool \<Rightarrow> range_entry list \<Rightarrow> resource_t \<Rightarrow> resource_t \<Rightarrow> range_entry list \<Rightarrow> resource_t \<Rightarrow>
   range_entry list \<Rightarrow> bool" where
  "removed ramstage free b e es a es' \<longleftrightarrow>
     tag_in es' a = (if b \<le> a \<and> a \<le> e then None else tag_in es a) \<or>
     \<not> ramstage \<and> free = [] \<and> tag_in es' a = None"

lemma remove_loop_tag:
  assumes "entries_ok es" "removable b e es"
  shows "removed ramstage free b e es a (fst (remove_loop ramstage free b e es))"
  using assms
proof (induction es arbitrary: b free)
  case (Cons cur rest)
  note rem = removable_rest [OF Cons.prems(2,1)]
  from Cons.prems have ok: "re_begin cur \<le> re_end cur" "entries_ok rest"
    "\<forall>s \<in> set rest. re_end cur < re_begin s" by simp_all
  note IH = Cons.IH [OF ok(2), unfolded removed_def]
  have above: "a \<le> re_end cur \<Longrightarrow> tag_in rest a = None"
    using ok(3) by (meson tag_in_below le_less_trans)
  have stop: "e < re_begin cur \<Longrightarrow> a \<le> e \<Longrightarrow> tag_in rest a = None"
    using above ok(1) by (meson less_imp_le order_trans)
  have inc: "e < re_end cur \<Longrightarrow> e + 1 \<le> a \<longleftrightarrow> e < a"
    and dec: "re_begin cur < b \<Longrightarrow> a \<le> b - 1 \<longleftrightarrow> a < b"
    and inc_end: "re_end cur < a \<Longrightarrow> re_end cur + 1 \<le> a" for b
    using inc_le_iff le_dec_iff by blast+
  show ?case
  proof (rule remove_loop_cases [OF Cons.prems, where
        P = "\<lambda>es' _. removed ramstage free b e (cur # rest) a es'"])
    assume "e < re_begin cur"
    with stop show "removed ramstage free b e (cur # rest) a (cur # rest)"
      by (cases "a \<le> e") (auto simp: removed_def covers_def)
  next
    fix es fr assume "b \<le> re_begin cur" "re_end cur \<le> e"
      "remove_loop ramstage (cur # free) (re_end cur + 1) e rest = (es, fr)"
    with IH [OF rem(3), of "cur # free"] ok(1) above inc_end
    show "removed ramstage free b e (cur # rest) a es"
      by (cases "re_end cur < a") (auto simp: removed_def covers_def)
  next
    fix es fr assume "b \<le> re_begin cur" "re_begin cur \<le> e" "e < re_end cur"
      "remove_loop ramstage free (re_begin cur) e rest = (es, fr)"
    with IH [OF rem(4), of free] ok(1) above inc
    show "removed ramstage free b e (cur # rest) a (cur\<lparr>re_begin := e + 1\<rparr> # es)"
      by (auto simp: removed_def covers_def)
  qed (use IH [OF rem(1), of free] ok(1) above inc dec in \<open>auto simp: removed_def covers_def\<close>)
qed (simp add: removed_def)

lemma remove_loop_count:
  "remove_loop False free b e es = (es', free') \<Longrightarrow>
     length es' + length free' = length es + length free"
proof (induction es arbitrary: b free es' free')
  case (Cons cur rest)
  have "length (fst (remove_loop False free b e (cur # rest))) +
    length (snd (remove_loop False free b e (cur # rest))) = length (cur # rest) + length free"
    using Cons.IH
    by (auto simp: remove_loop_simps Let_def range_list_add_cases range_entry_unlink_and_free_def
        range_entry_link_def case_prod_unfold)
  with Cons.prems show ?case by simp
qed simp

lemma remove_loop_free:
  "length free \<le> Suc (length (snd (remove_loop ramstage free b e es)))"
proof (induction es arbitrary: b free)
  case (Cons cur rest)
  have "length free \<le> Suc (length (snd (remove_loop ramstage (cur # free) b e rest)))" for b
    using Cons.IH [of "cur # free" b] by simp
  with Cons.IH show ?case
    by (auto simp: remove_loop_simps Let_def range_list_add_cases range_entry_unlink_and_free_def
        range_entry_link_def case_prod_unfold)
qed simp

subsection \<open>Merging\<close>

text \<open>Two neighbours that the merge would join: adjacent, with the same tag.\<close>

definition mergeable :: "range_entry \<Rightarrow> range_entry \<Rightarrow> bool" where
  "mergeable r s \<longleftrightarrow> re_end r + 1 = re_begin s \<and> re_tag r = re_tag s"

fun merged :: "range_entry list \<Rightarrow> bool" where
  "merged (r # s # es) \<longleftrightarrow> \<not> mergeable r s \<and> merged (s # es)"
| "merged _ \<longleftrightarrow> True"

lemma adjacent_iff: "x < y \<Longrightarrow> x + 1 \<ge> y \<longleftrightarrow> x + 1 = y" for x y :: resource_t
  using inc_le_iff [of x y y] by auto

lemma merge_neighbors_step:
  assumes "re_end prev < re_begin cur"
  shows "merge_neighbors free prev (cur # rest) =
    (if mergeable prev cur then merge_neighbors (cur # free) (prev\<lparr>re_end := re_end cur\<rparr>) rest
     else apfst ((#) prev) (merge_neighbors free cur rest))"
  using assms by (simp add: mergeable_def adjacent_iff range_entry_unlink_and_free_def
      range_entry_link_def case_prod_unfold apfst_def map_prod_def)

declare merge_neighbors.simps(2) [simp del]

lemma covers_joined:
  assumes "mergeable prev cur" "re_begin prev \<le> re_end prev" "re_end prev < re_begin cur"
    "re_begin cur \<le> re_end cur"
  shows "covers (prev\<lparr>re_end := re_end cur\<rparr>) a \<longleftrightarrow> covers prev a \<or> covers cur a"
proof -
  from assms have "re_begin cur \<le> a \<longleftrightarrow> re_end prev < a"
    using inc_le_iff [of "re_end prev" "re_begin cur" a] by (simp add: mergeable_def)
  with assms show ?thesis by (auto simp: covers_def)
qed

lemma merge_neighbors_spec:
  assumes "entries_ok (prev # rest)" "merge_neighbors free prev rest = (es, fr)"
  shows "entries_ok es" "re_begin (hd es) = re_begin prev" "es \<noteq> []" "merged es"
    "tag_in es a = tag_in (prev # rest) a"
    "length es + length fr = Suc (length rest) + length free"
proof -
  have "entries_ok es \<and> re_begin (hd es) = re_begin prev \<and> re_tag (hd es) = re_tag prev \<and>
      es \<noteq> [] \<and> merged es \<and> tag_in es a = tag_in (prev # rest) a \<and>
      length es + length fr = Suc (length rest) + length free"
    using assms
  proof (induction rest arbitrary: prev free es fr)
    case (Cons cur rest)
    then have ok: "re_begin prev \<le> re_end prev" "re_end prev < re_begin cur"
      "re_begin cur \<le> re_end cur" "\<forall>s \<in> set rest. re_end cur < re_begin s" "entries_ok (cur # rest)"
      by auto
    show ?case
    proof (cases "mergeable prev cur")
      case True
      with Cons.prems(2) have run: "merge_neighbors (cur # free) (prev\<lparr>re_end := re_end cur\<rparr>) rest = (es, fr)"
        by (simp add: merge_neighbors_step [OF ok(2)])
      have "entries_ok (prev\<lparr>re_end := re_end cur\<rparr> # rest)" using ok by auto
      from Cons.IH [OF this run] True covers_joined [OF True ok(1,2,3)]
      show ?thesis by (auto simp: mergeable_def)
    next
      case False
      with Cons.prems(2) obtain es1 where
        es: "es = prev # es1" and run: "merge_neighbors free cur rest = (es1, fr)"
        by (cases "merge_neighbors free cur rest") (auto simp: merge_neighbors_step [OF ok(2)])
      obtain h tl1 where es1: "es1 = h # tl1" using Cons.IH [OF ok(5) run] by (cases es1) auto
      with es Cons.IH [OF ok(5) run] False ok show ?thesis
        by (auto simp: mergeable_def)
    qed
  qed (auto)
  then show "entries_ok es" "re_begin (hd es) = re_begin prev" "es \<noteq> []" "merged es"
    "tag_in es a = tag_in (prev # rest) a"
    "length es + length fr = Suc (length rest) + length free" by blast+
qed

lemma merge_neighbor_entries_spec:
  assumes "ranges_ok ranges"
  shows "ranges_ok (merge_neighbor_entries ranges)" "merged (entries (merge_neighbor_entries ranges))"
    "tag_at (merge_neighbor_entries ranges) = tag_at ranges"
    "entry_count (merge_neighbor_entries ranges) = entry_count ranges"
proof -
  have "ranges_ok (merge_neighbor_entries ranges) \<and> merged (entries (merge_neighbor_entries ranges)) \<and>
    tag_at (merge_neighbor_entries ranges) a = tag_at ranges a \<and>
    entry_count (merge_neighbor_entries ranges) = entry_count ranges" for a
  proof (cases "entries ranges")
    case (Cons first rest)
    obtain es fr where run: "merge_neighbors (free_list ranges) first rest = (es, fr)" by fastforce
    from assms Cons have "entries_ok (first # rest)" by (simp add: ranges_ok_def)
    note merge_neighbors_spec [OF this run]
    with Cons run show ?thesis
      by (simp add: merge_neighbor_entries_def ranges_ok_def tag_at_def entry_count_def)
  qed (use assms in \<open>simp add: merge_neighbor_entries_def\<close>)
  then show "ranges_ok (merge_neighbor_entries ranges)"
    "merged (entries (merge_neighbor_entries ranges))"
    "tag_at (merge_neighbor_entries ranges) = tag_at ranges"
    "entry_count (merge_neighbor_entries ranges) = entry_count ranges" by auto
qed

subsection \<open>Insertion\<close>

lemma tag_in_covered: "r \<in> set es \<Longrightarrow> covers r a \<Longrightarrow> tag_in es a \<noteq> None"
  by (induction es) auto

lemma outside_if_untagged:
  assumes "\<And>a. b \<le> a \<Longrightarrow> a \<le> e \<Longrightarrow> tag_in es a = None" "b \<le> e" "r \<in> set es" "re_begin r \<le> re_end r"
  shows "re_end r < b \<or> e < re_begin r"
proof (rule ccontr)
  assume *: "\<not> ?thesis"
  then have "covers r (max b (re_begin r))" "b \<le> max b (re_begin r)" "max b (re_begin r) \<le> e"
    using assms(2,4) by (auto simp: covers_def)
  with assms(1,3) tag_in_covered show False by blast
qed

lemma insertion_spot_spec:
  assumes "entries_ok es" "\<forall>r \<in> set es. re_end r < b \<or> e < re_begin r" "b \<le> e"
    "insertion_spot e es = (bf, af)"
  shows "es = bf @ af" "\<forall>r \<in> set bf. re_end r < b" "\<forall>r \<in> set af. e < re_begin r"
proof -
  have "es = bf @ af \<and> (\<forall>r \<in> set bf. re_end r < b) \<and> (\<forall>r \<in> set af. e < re_begin r)"
    using assms
  proof (induction es arbitrary: bf af)
    case (Cons cur rest)
    then show ?case
    proof (cases "e < re_begin cur")
      case True
      with Cons.prems have "\<forall>r \<in> set rest. e < re_begin r" by (auto intro: order.strict_trans)
      with True Cons.prems show ?thesis by auto
    qed (auto split: prod.splits)
  qed auto
  then show "es = bf @ af" "\<forall>r \<in> set bf. re_end r < b" "\<forall>r \<in> set af. e < re_begin r" by auto
qed

lemma removed_range: "removed ramstage free b e es a es' \<Longrightarrow> b \<le> a \<Longrightarrow> a \<le> e \<Longrightarrow> tag_in es' a = None"
  by (auto simp: removed_def)

lemma remove_memranges_spec:
  assumes "ranges_ok ranges" "b \<le> e"
  shows "ranges_ok (remove_memranges ramstage ranges b e t)"
    "removed ramstage (free_list ranges) b e (entries ranges) a
      (entries (remove_memranges ramstage ranges b e t))"
    "\<not> ramstage \<Longrightarrow> entry_count (remove_memranges ramstage ranges b e t) = entry_count ranges"
proof -
  have "removable b e (entries ranges)" using assms(2) by (simp add: removable_def)
  note remove_loop_ok [OF _ this] remove_loop_tag [OF _ this]
  with assms(1) show "ranges_ok (remove_memranges ramstage ranges b e t)"
    "removed ramstage (free_list ranges) b e (entries ranges) a
      (entries (remove_memranges ramstage ranges b e t))"
    by (auto simp: remove_memranges_def ranges_ok_def case_prod_unfold)
  show "entry_count (remove_memranges ramstage ranges b e t) = entry_count ranges" if "\<not> ramstage"
    using that remove_loop_count [of "free_list ranges" b e "entries ranges"]
    by (auto simp: remove_memranges_def entry_count_def split: prod.splits)
qed

lemma merge_add_memranges_spec:
  assumes "ranges_ok ranges" "b \<le> e"
  shows "ranges_ok (merge_add_memranges ramstage ranges b e t)"
    "merged (entries (merge_add_memranges ramstage ranges b e t))"
    "\<not> ramstage \<Longrightarrow> entry_count (merge_add_memranges ramstage ranges b e t) = entry_count ranges"
    "ramstage \<or> 2 \<le> length (free_list ranges) \<Longrightarrow>
      tag_at (merge_add_memranges ramstage ranges b e t) a =
        (if b \<le> a \<and> a \<le> e then Some t else tag_at ranges a)"
proof -
  define R where "R = remove_memranges ramstage ranges b e (- 1)"
  note rem = remove_memranges_spec [OF assms, where t = "- 1" and ramstage = ramstage, folded R_def]
  obtain bf af where spot: "insertion_spot e (entries R) = (bf, af)" by fastforce
  have ok: "entries_ok (entries R)" using rem(1) by (simp add: ranges_ok_def)
  have "re_end r < b \<or> e < re_begin r" if "r \<in> set (entries R)" for r
    using outside_if_untagged [OF removed_range [OF rem(2)] assms(2) that] ok that
    by (simp add: entries_ok_def)
  then have "\<forall>r \<in> set (entries R). re_end r < b \<or> e < re_begin r" by blast
  note parts = insertion_spot_spec [OF ok this assms(2) spot]
  define S where "S = (case range_list_add ramstage (free_list R) af b e t of
    (p, fr) \<Rightarrow> \<lparr>entries = bf @ p, free_list = fr\<rparr>)"
  have S: "merge_add_memranges ramstage ranges b e t = merge_neighbor_entries S"
    by (simp add: merge_add_memranges_def Let_def R_def [symmetric] spot S_def case_prod_unfold)
  have "entries_ok (bf @ \<lparr>re_begin = b, re_end = e, re_tag = t\<rparr> # af)" "entries_ok (bf @ af)"
    using ok parts assms(2) by (auto simp: entries_ok_append)
  then have "ranges_ok S" by (simp add: S_def range_list_add_cases ranges_ok_def)
  note mrg = merge_neighbor_entries_spec [OF this]
  show "ranges_ok (merge_add_memranges ramstage ranges b e t)"
    "merged (entries (merge_add_memranges ramstage ranges b e t))"
    using S mrg by simp_all
  show "entry_count (merge_add_memranges ramstage ranges b e t) = entry_count ranges" if "\<not> ramstage"
    using that S mrg(4) rem(3) parts(1)
    by (cases "free_list R") (auto simp: S_def range_list_add_cases entry_count_def)
  show "tag_at (merge_add_memranges ramstage ranges b e t) a =
      (if b \<le> a \<and> a \<le> e then Some t else tag_at ranges a)"
    if alloc: "ramstage \<or> 2 \<le> length (free_list ranges)"
  proof -
    have "length (free_list ranges) \<le> Suc (length (free_list R))"
      using remove_loop_free [of "free_list ranges" ramstage b e "entries ranges"]
      by (simp add: R_def remove_memranges_def case_prod_unfold)
    with alloc have "ramstage \<or> free_list R \<noteq> []" by auto
    then have "entries S = bf @ \<lparr>re_begin = b, re_end = e, re_tag = t\<rparr> # af"
      by (simp add: S_def range_list_add_cases)
    moreover have "tag_in (bf @ af) a = (if b \<le> a \<and> a \<le> e then None else tag_at ranges a)"
      using rem(2) [of a] alloc parts(1) by (auto simp: removed_def tag_at_def)
    moreover have "tag_in bf a = None" if "b \<le> a" using parts(2) that by (intro tag_in_above) auto
    ultimately show ?thesis using S mrg(3)
      by (auto simp: tag_at_def tag_in_append covers_def split: option.splits)
  qed
qed

subsection \<open>The range of a request\<close>

text \<open>A request that stays inside the address space; it may end at its very end.\<close>

definition fits :: "resource_t \<Rightarrow> resource_t \<Rightarrow> bool" where
  "fits base sz \<longleftrightarrow> unat base + unat sz \<le> 18446744073709551616"

definition req_begin :: "resource_t \<Rightarrow> resource_t" where
  "req_begin base = ALIGN_DOWN base 4096"

definition req_end :: "resource_t \<Rightarrow> resource_t \<Rightarrow> resource_t" where
  "req_end base sz = ALIGN_UP (base + sz) 4096 - 1"

lemma do_action_eq:
  "do_action ranges base sz t action =
     (if sz = 0 then ranges else action ranges (req_begin base) (req_end base sz) t)"
  by (simp add: do_action_def Let_def req_begin_def req_end_def algebra_simps)

lemma unat_req_begin: "unat (req_begin base) = 4096 * (unat base div 4096)"
  using unat_ALIGN_DOWN [of base 12] by (simp add: req_begin_def minus_mod_eq_mult_div)

lemma unat_req_end:
  assumes "sz \<noteq> 0" "fits base sz"
  shows "unat (req_end base sz) = 4096 * ((unat base + unat sz - 1) div 4096) + 4095"
proof -
  define n where "n = unat base + unat sz"
  have n: "0 < n" "n \<le> 18446744073709551616"
    using assms unat_gt_0 [of sz] by (simp_all add: n_def fits_def)
  show ?thesis
  proof (cases "n + 4095 < 18446744073709551616")
    case True
    then have "unat (base + sz) = n" by (simp add: n_def unat_plus_no_wrap)
    with True have up: "unat (ALIGN_UP (base + sz) 4096) = (n + 4095) div 4096 * 4096"
      using unat_ALIGN_UP [of 12 "base + sz"] by simp
    moreover have "0 < (n + 4095) div 4096 * 4096" using n by simp
    ultimately have "ALIGN_UP (base + sz) 4096 \<noteq> 0" by (metis less_irrefl unat_0)
    from unat_minus_one [OF this] up
    have "unat (req_end base sz) = (n + 4095) div 4096 * 4096 - 1" by (simp add: req_end_def)
    also have "n + 4095 = n - 1 + 4096" using n(1) by simp
    also have "(n - 1 + 4096) div 4096 * 4096 - 1 = 4096 * ((n - 1) div 4096) + 4095"
      unfolding div_add_self2 [OF zero_neq_numeral [symmetric]] by simp
    finally show ?thesis by (simp add: n_def)
  next
    case False
    have "ALIGN_UP (base + sz) 4096 = 0"
    proof (cases "n = 18446744073709551616")
      case True
      then have "base + sz = 0" using unat_plus_wrap [of base sz] by (simp add: n_def unat_eq_zero)
      then show ?thesis by (simp add: ALIGN_UP_def ALIGN_MASK_def)
    next
      case False
      with n(2) have "unat (base + sz) = n" by (simp add: n_def unat_plus_no_wrap)
      with \<open>\<not> n + 4095 < 18446744073709551616\<close> show ?thesis
        using unat_ALIGN_UP_wrap [of 12 "base + sz"] by simp
    qed
    then have "unat (req_end base sz) = 18446744073709551615"
      by (simp add: req_end_def unsigned_minus_1_eq_mask mask_eq_exp_minus_1)
    also have "\<dots> = 4096 * 4503599627370495 + 4095" by simp
    also have "4503599627370495 = (n - 1) div 4096"
      by (rule div_nat_eqI [symmetric]) (use n False in simp_all)
    finally show ?thesis by (simp add: n_def)
  qed
qed

lemma page_request_iff:
  assumes "sz \<noteq> 0" "fits base sz"
  shows "page_request base sz a \<longleftrightarrow> req_begin base \<le> a \<and> a \<le> req_end base sz"
    and "req_begin base \<le> req_end base sz"
proof -
  have "unat base div 4096 \<le> (unat base + unat sz - 1) div 4096"
    using assms(1) by (intro div_le_mono) (metis One_nat_def Suc_leI add_diff_assoc le_add1 unat_gt_0)
  then show "req_begin base \<le> req_end base sz"
    unfolding word_le_nat_alt unat_req_begin unat_req_end [OF assms] by linarith
  show "page_request base sz a \<longleftrightarrow> req_begin base \<le> a \<and> a \<le> req_end base sz"
    unfolding word_le_nat_alt unat_req_begin unat_req_end [OF assms] page_request_def
    using assms(1) by auto
qed

section \<open>The interface of a range map\<close>

text \<open>
  What the users of the module rely on: an insertion overrides the map on the region it
  names and keeps the invariant. A sequence of insertions then gives each address the tag
  of the last one that covers it.
\<close>

locale range_map =
  fixes ok :: "'r \<Rightarrow> bool"
    and lookup :: "'r \<Rightarrow> 'a \<Rightarrow> 'v option"
    and add :: "'r \<Rightarrow> 'q \<Rightarrow> 'v \<Rightarrow> 'r"
    and valid :: "'q \<Rightarrow> bool"
    and region :: "'q \<Rightarrow> 'a \<Rightarrow> bool"
  assumes ok_add: "ok R \<Longrightarrow> valid q \<Longrightarrow> ok (add R q v)"
    and lookup_add: "ok R \<Longrightarrow> valid q \<Longrightarrow>
      lookup (add R q v) a = (if region q a then Some v else lookup R a)"
begin

lemma ok_add_all:
  "ok R \<Longrightarrow> \<forall>q \<in> set qs. valid q \<Longrightarrow> ok (fold (\<lambda>q R. add R q v) qs R)"
  by (induction qs arbitrary: R) (auto simp: ok_add)

lemma lookup_add_all:
  "ok R \<Longrightarrow> \<forall>q \<in> set qs. valid q \<Longrightarrow> lookup (fold (\<lambda>q R. add R q v) qs R) a =
     (if \<exists>q \<in> set qs. region q a then Some v else lookup R a)"
  by (induction qs arbitrary: R) (auto simp: ok_add lookup_add)

end

lemma memranges_insert_ok:
  assumes "ranges_ok ranges" "fits base sz"
  shows "ranges_ok (memranges_insert ramstage ranges base sz t)"
    "\<not> ramstage \<Longrightarrow> entry_count (memranges_insert ramstage ranges base sz t) = entry_count ranges"
    "ramstage \<or> 2 \<le> length (free_list ranges) \<Longrightarrow>
      tag_at (memranges_insert ramstage ranges base sz t) a =
        (if page_request base sz a then Some t else tag_at ranges a)"
proof -
  have *: "sz = 0 \<or> ranges_ok (memranges_insert ramstage ranges base sz t) \<and>
    (\<not> ramstage \<longrightarrow> entry_count (memranges_insert ramstage ranges base sz t) = entry_count ranges) \<and>
    (ramstage \<or> 2 \<le> length (free_list ranges) \<longrightarrow>
      tag_at (memranges_insert ramstage ranges base sz t) a =
        (if page_request base sz a then Some t else tag_at ranges a))"
    using page_request_iff [OF _ assms(2)] merge_add_memranges_spec [OF assms(1), of "req_begin base" "req_end base sz"]
    by (auto simp: memranges_insert_def do_action_eq)
  show "ranges_ok (memranges_insert ramstage ranges base sz t)"
    using * assms by (auto simp: memranges_insert_def do_action_eq)
  show "\<not> ramstage \<Longrightarrow> entry_count (memranges_insert ramstage ranges base sz t) = entry_count ranges"
    using * by (auto simp: memranges_insert_def do_action_eq)
  show "ramstage \<or> 2 \<le> length (free_list ranges) \<Longrightarrow>
      tag_at (memranges_insert ramstage ranges base sz t) a =
        (if page_request base sz a then Some t else tag_at ranges a)"
    using * by (auto simp: memranges_insert_def do_action_eq page_request_def)
qed

interpretation rmap: range_map ranges_ok tag_at
  "\<lambda>R (base, sz) t. memranges_insert True R base sz t" "\<lambda>(base, sz). fits base sz"
  "\<lambda>(base, sz). page_request base sz"
  by unfold_locales (auto simp: memranges_insert_ok)

text \<open>The resources collected, as requests.\<close>

definition wanted :: "(device \<Rightarrow> resource \<Rightarrow> bool) option \<Rightarrow> device \<times> resource \<Rightarrow> bool" where
  "wanted flt = (\<lambda>(d, r). res_size r \<noteq> 0 \<and> (case flt of None \<Rightarrow> True | Some f \<Rightarrow> f d r))"

definition collected ::
  "device list \<Rightarrow> u32 \<Rightarrow> u32 \<Rightarrow> (device \<Rightarrow> resource \<Rightarrow> bool) option \<Rightarrow> (resource_t \<times> resource_t) list" where
  "collected devs msk match flt =
     map (\<lambda>(d, r). (res_base r, res_size r)) (filter (wanted flt)
       (matching_resources devs (msk OR IORESOURCE_MEM) (match OR IORESOURCE_MEM)))"

lemma memranges_add_resources_filter_fold:
  "memranges_add_resources_filter ramstage devs ranges msk match t flt =
     fold (\<lambda>q R. case q of (base, sz) \<Rightarrow> memranges_insert ramstage R base sz t)
       (collected devs msk match flt) ranges"
proof -
  have collect: "collect_ranges ramstage t flt d r R =
    (if wanted flt (d, r) then memranges_insert ramstage R (res_base r) (res_size r) t else R)" for d r R
    by (simp add: collect_ranges_def wanted_def)
  have "fold (\<lambda>(d, r). collect_ranges ramstage t flt d r) xs ranges =
    fold (\<lambda>q R. case q of (base, sz) \<Rightarrow> memranges_insert ramstage R base sz t)
      (map (\<lambda>(d, r). (res_base r, res_size r)) (filter (wanted flt) xs)) ranges" for xs
    by (induction xs arbitrary: ranges) (auto simp: collect)
  then show ?thesis
    by (simp add: memranges_add_resources_filter_def search_global_resources_fold collected_def)
qed

lemmas add_resources_ok = rmap.ok_add_all [unfolded case_prod_unfold]
lemmas add_resources_map = rmap.lookup_add_all [unfolded case_prod_unfold]

lemma memranges_add_resources_filter_map:
  assumes "ranges_ok ranges" "\<forall>(base, sz) \<in> set (collected devs msk match flt). fits base sz"
  shows "ranges_ok (memranges_add_resources_filter True devs ranges msk match t flt)"
    "tag_at (memranges_add_resources_filter True devs ranges msk match t flt) a =
      (if \<exists>(base, sz) \<in> set (collected devs msk match flt). page_request base sz a
       then Some t else tag_at ranges a)"
  using assms add_resources_ok [of ranges "collected devs msk match flt" t]
    add_resources_map [of ranges "collected devs msk match flt" t a]
  by (simp_all add: memranges_add_resources_filter_fold case_prod_unfold)

lemma memranges_create_hole_ok:
  assumes "ranges_ok ranges" "fits base sz"
  shows "ranges_ok (memranges_create_hole ramstage ranges base sz)"
    "\<not> ramstage \<Longrightarrow> entry_count (memranges_create_hole ramstage ranges base sz) = entry_count ranges"
    "ramstage \<or> free_list ranges \<noteq> [] \<Longrightarrow>
      tag_at (memranges_create_hole ramstage ranges base sz) a =
        (if page_request base sz a then None else tag_at ranges a)"
proof -
  define R where "R = remove_memranges ramstage ranges (req_begin base) (req_end base sz) (- 1)"
  have R: "memranges_create_hole ramstage ranges base sz = (if sz = 0 then ranges else R)"
    by (simp add: memranges_create_hole_def do_action_eq R_def)
  have hole: "ranges_ok R" "\<not> ramstage \<Longrightarrow> entry_count R = entry_count ranges"
    "removed ramstage (free_list ranges) (req_begin base) (req_end base sz) (entries ranges) a (entries R)"
    "page_request base sz a \<longleftrightarrow> req_begin base \<le> a \<and> a \<le> req_end base sz" if "sz \<noteq> 0"
    using that remove_memranges_spec [OF assms(1) page_request_iff(2) [OF that assms(2)],
        where ramstage = ramstage and t = "- 1", folded R_def]
      page_request_iff(1) [OF that assms(2)] by blast+
  show "ranges_ok (memranges_create_hole ramstage ranges base sz)"
    "\<not> ramstage \<Longrightarrow> entry_count (memranges_create_hole ramstage ranges base sz) = entry_count ranges"
    unfolding R using hole(1,2) assms(1) by simp_all
  show "tag_at (memranges_create_hole ramstage ranges base sz) a =
      (if page_request base sz a then None else tag_at ranges a)" if "ramstage \<or> free_list ranges \<noteq> []"
    unfolding R using hole(3,4) that by (cases "sz = 0") (auto simp: removed_def tag_at_def page_request_def)
qed

definition retag :: "u32 \<Rightarrow> u32 \<Rightarrow> u32 \<Rightarrow> u32" where
  "retag old_tag new_tag t = (if t = old_tag then new_tag else t)"

lemma memranges_update_tag_ok:
  assumes "ranges_ok ranges"
  shows "ranges_ok (memranges_update_tag ranges old_tag new_tag)"
    "merged (entries (memranges_update_tag ranges old_tag new_tag))"
    "tag_at (memranges_update_tag ranges old_tag new_tag) a =
      map_option (retag old_tag new_tag) (tag_at ranges a)"
    "entry_count (memranges_update_tag ranges old_tag new_tag) = entry_count ranges"
proof -
  define f where "f = (\<lambda>r. if range_entry_tag r = old_tag then range_entry_update_tag r new_tag else r)"
  have f: "re_begin (f r) = re_begin r" "re_end (f r) = re_end r"
    "re_tag (f r) = retag old_tag new_tag (re_tag r)" for r
    by (simp_all add: f_def range_entry_tag_def range_entry_update_tag_def retag_def)
  have "tag_in (map f es) a = map_option (retag old_tag new_tag) (tag_in es a)" for es
    by (induction es) (simp_all add: covers_def f)
  moreover have "entries_ok (map f es) = entries_ok es" for es
    by (induction es) (simp_all add: f)
  moreover have "memranges_update_tag ranges old_tag new_tag =
    merge_neighbor_entries (ranges\<lparr>entries := map f (entries ranges)\<rparr>)"
    by (simp add: memranges_update_tag_def f_def)
  moreover have "ranges_ok (ranges\<lparr>entries := map f (entries ranges)\<rparr>)"
    using calculation(2) assms by (simp add: ranges_ok_def)
  ultimately show "ranges_ok (memranges_update_tag ranges old_tag new_tag)"
    "merged (entries (memranges_update_tag ranges old_tag new_tag))"
    "tag_at (memranges_update_tag ranges old_tag new_tag) a =
      map_option (retag old_tag new_tag) (tag_at ranges a)"
    "entry_count (memranges_update_tag ranges old_tag new_tag) = entry_count ranges"
    using merge_neighbor_entries_spec
    by (simp_all add: tag_at_def entry_count_def)
qed

lemma teardown_loop_eq: "teardown_loop free es = ([], rev es @ free)"
  by (induction es arbitrary: free) (simp_all add: range_entry_unlink_and_free_def range_entry_link_def)

lemma length_memranges_init_empty: "length (free_list (memranges_init_empty es)) = length es"
proof -
  have "length (foldl range_entry_link xs es) = length xs + length es" for xs
    by (induction es arbitrary: xs) (simp_all add: range_entry_link_def)
  then show ?thesis by (simp add: memranges_init_empty_def)
qed

subsection \<open>Filling holes\<close>

text \<open>
  What \<open>memranges_fill_holes_up_to\<close> needs: the entries split at the limit, with none that
  reaches it from below or ends at the end of the address space.
\<close>

definition split_at_limit :: "resource_t \<Rightarrow> range_entry list \<Rightarrow> bool" where
  "split_at_limit limit es \<longleftrightarrow>
     (\<forall>r \<in> set es. unat (re_end r) + 1 < unat limit \<or> limit \<le> re_begin r \<and> re_end r + 1 \<noteq> 0)"

lemma entries_ok_Cons2:
  "entries_ok (r # s # es) \<longleftrightarrow> re_begin r \<le> re_end r \<and> re_end r < re_begin s \<and> entries_ok (s # es)"
  by (auto intro: order.strict_trans2 order.strict_trans)

lemma fill_last_hd: "\<exists>ys. fst (fill_last ramstage limit t free prev rest) = prev # ys"
  by (simp add: fill_last_def case_prod_unfold)

lemma fill_loop_hd: "\<exists>ys. fst (fill_loop ramstage limit t free prev rest) = prev # ys"
  by (cases rest) (simp_all add: fill_last_hd Let_def case_prod_unfold)

text \<open>One turn of the walk below the limit, and the last one.\<close>

lemma fill_last_below:
  assumes "unat (re_end prev) + 1 < unat limit"
  shows "fst (fill_last True limit t free prev rest) =
    prev # \<lparr>re_begin = re_end prev + 1, re_end = limit - 1, re_tag = t\<rparr> # rest"
proof -
  have "unat (re_end prev + 1) = unat (re_end prev) + 1"
    using assms Suc_unat_less [of "re_end prev" limit] by (simp add: word_less_nat_alt)
  with assms show ?thesis
    by (simp add: fill_last_def range_list_add_cases range_entry_end_def word_less_nat_alt)
qed

lemma fill_loop_below:
  assumes "re_end prev < re_begin cur" "re_begin cur < limit"
  shows "\<exists>free'. fst (fill_loop True limit t free prev (cur # rest)) =
    prev # (if re_end prev + 1 = re_begin cur then []
            else [\<lparr>re_begin = re_end prev + 1, re_end = re_begin cur - 1, re_tag = t\<rparr>]) @
      fst (fill_loop True limit t free' cur rest)"
proof -
  have "re_begin cur - 1 < re_begin cur" using assms(1) by (rule dec_less_self)
  with assms have "\<not> limit \<le> re_begin cur - 1" "\<not> limit \<le> re_begin cur" by auto
  then show ?thesis
    by (auto simp: Let_def range_list_add_cases range_entry_end_def case_prod_unfold)
qed

lemma fill_loop_above:
  assumes "unat (re_end prev) + 1 < unat limit" "limit \<le> re_begin cur" "re_begin cur \<le> re_end cur"
    "re_end cur + 1 \<noteq> 0"
  shows "fst (fill_loop True limit t free prev (cur # rest)) =
    prev # \<lparr>re_begin = re_end prev + 1, re_end = limit - 1, re_tag = t\<rparr> # cur # rest"
proof -
  have lt: "re_end prev < limit" using assms(1) by (simp add: word_less_nat_alt)
  have "unat (re_end prev + 1) = unat (re_end prev) + 1" using Suc_unat_less [OF lt] by simp
  with assms have ne: "re_end prev + 1 \<noteq> re_begin cur" by (auto simp: word_le_nat_alt)
  have e: "(if limit \<le> re_begin cur - 1 then limit - 1 else re_begin cur - 1) = limit - 1"
    using le_dec_iff [of "re_end prev" "re_begin cur" limit] lt assms(2) by (cases "limit = re_begin cur") auto
  have "re_end cur \<noteq> - 1" using assms(4) by (metis add.left_inverse)
  then have "re_end cur < re_end cur + 1"
    by (metis less_inc_self order.not_eq_order_implies_strict word_order.extremum)
  with assms have "\<not> range_entry_end cur < limit" by (auto simp: range_entry_end_def)
  with assms(2) ne e show ?thesis
    by (simp add: Let_def range_list_add_cases range_entry_end_def case_prod_unfold fill_last_def)
qed

text \<open>The effect of one new entry, from the end of \<open>prev\<close> to an address \<open>x\<close>.\<close>

lemma fill_gap:
  fixes t :: u32
  assumes "re_begin prev \<le> re_end prev" "re_end prev < x" "re_end prev + 1 \<noteq> x"
    "entries_ok es" "\<forall>s \<in> set es. x \<le> re_begin s"
  defines "h \<equiv> \<lparr>re_begin = re_end prev + 1, re_end = x - 1, re_tag = t\<rparr>"
  shows "entries_ok (prev # h # es)"
    "tag_in (prev # h # es) a =
      (if re_begin prev \<le> a \<and> a < x \<and> tag_in (prev # es) a = None then Some t else tag_in (prev # es) a)"
proof -
  have h: "re_end prev + 1 \<le> y \<longleftrightarrow> re_end prev < y" "y \<le> x - 1 \<longleftrightarrow> y < x" for y
    using inc_le_iff [OF assms(2)] le_dec_iff [OF assms(2)] by blast+
  have "re_end prev + 1 < x" using h(1) [of x] assms(2,3) by auto
  moreover have "x - 1 < x" using assms(2) by (rule dec_less_self)
  ultimately show "entries_ok (prev # h # es)"
    using assms less_inc_self [OF assms(2)] h(2) by (auto simp: h_def)
  show "tag_in (prev # h # es) a =
      (if re_begin prev \<le> a \<and> a < x \<and> tag_in (prev # es) a = None then Some t else tag_in (prev # es) a)"
  proof (cases "a < x")
    case True
    with assms(5) have "tag_in es a = None" by (intro tag_in_below) auto
    with True h assms(1) show ?thesis by (auto simp: h_def covers_def)
  qed (auto simp: h_def covers_def h)
qed

lemma fill_loop_spec:
  assumes "entries_ok (prev # rest)" "split_at_limit limit (prev # rest)"
    "unat (re_end prev) + 1 < unat limit"
  shows "entries_ok (fst (fill_loop True limit t free prev rest)) \<and>
    tag_in (fst (fill_loop True limit t free prev rest)) a =
      (if re_begin prev \<le> a \<and> a < limit \<and> tag_in (prev # rest) a = None then Some t
       else tag_in (prev # rest) a)"
  using assms
proof (induction rest arbitrary: prev free)
  case Nil
  then have lt: "re_end prev < limit" by (simp add: word_less_nat_alt)
  then have "re_end prev + 1 \<noteq> limit" using Nil.prems(3) Suc_unat_less by force
  with Nil lt fill_gap [where prev = prev and x = limit and es = "[]" and t = t] show ?case by (simp add: fill_last_below)
next
  case (Cons cur rest)
  then have lt: "re_end prev < limit" by (simp add: word_less_nat_alt)
  then have ne: "re_end prev + 1 \<noteq> limit" using Cons.prems(3) Suc_unat_less by force
  from Cons.prems have ok: "re_begin prev \<le> re_end prev" "re_end prev < re_begin cur"
    "re_begin cur \<le> re_end cur" "entries_ok (cur # rest)" "split_at_limit limit (cur # rest)"
    by (auto simp: split_at_limit_def)
  show ?case
  proof (cases "limit \<le> re_begin cur")
    case True
    with ok(3,5) have "re_end cur + 1 \<noteq> 0"
      by (auto simp: split_at_limit_def word_le_nat_alt)
    moreover have "\<forall>s \<in> set (cur # rest). limit \<le> re_begin s" using True ok(4) by auto
    ultimately show ?thesis
      using fill_loop_above [OF Cons.prems(3) True ok(3), of t free rest]
        fill_gap [OF ok(1) lt ne ok(4), where t = t] by simp
  next
    case False
    then have cur: "re_begin cur < limit" "unat (re_end cur) + 1 < unat limit"
      using ok(5) by (auto simp: split_at_limit_def)
    obtain free' where run: "fst (fill_loop True limit t free prev (cur # rest)) =
      prev # (if re_end prev + 1 = re_begin cur then []
              else [\<lparr>re_begin = re_end prev + 1, re_end = re_begin cur - 1, re_tag = t\<rparr>]) @
        fst (fill_loop True limit t free' cur rest)"
      using fill_loop_below [OF ok(2) cur(1)] by blast
    define es where "es = fst (fill_loop True limit t free' cur rest)"
    note IH = Cons.IH [OF ok(4,5) cur(2), of free', folded es_def]
    obtain ys where "es = cur # ys" using fill_loop_hd es_def by blast
    with IH have floor: "\<forall>s \<in> set es. re_begin cur \<le> re_begin s" by auto
    have low: "a < re_begin cur \<Longrightarrow> tag_in es a = None \<and> tag_in (cur # rest) a = None"
      using floor ok(3,4) by (auto intro!: tag_in_below simp: covers_def)
    show ?thesis
    proof (cases "re_end prev + 1 = re_begin cur")
      case True
      then have "a \<le> re_end prev \<longleftrightarrow> a < re_begin cur"
        using inc_le_iff [OF ok(2), of a] by (metis not_less)
      with True run IH ok(1,2) floor low cur lt show ?thesis
        by (auto simp: es_def [symmetric] covers_def)
    next
      case False
      note gap = fill_gap [OF ok(1,2) False _ floor, where t = t]
      from False run IH gap ok(1,2) low cur lt show ?thesis
        by (simp add: es_def [symmetric])
          (auto simp: covers_def)
    qed
  qed
qed

text \<open>
  With a free list the allocation of an entry may fail: then the hole stays as it is.
\<close>

lemma fill_last_any:
  assumes "unat (re_end prev) + 1 < unat limit"
  shows "\<exists>hole. (hole = [] \<or> hole = [\<lparr>re_begin = re_end prev + 1, re_end = limit - 1, re_tag = t\<rparr>]) \<and>
    fst (fill_last ramstage limit t free prev rest) = prev # hole @ rest"
proof -
  have "unat (re_end prev + 1) = unat (re_end prev) + 1"
    using assms Suc_unat_less [of "re_end prev" limit] by (simp add: word_less_nat_alt)
  with assms show ?thesis
    by (auto simp: fill_last_def range_list_add_cases range_entry_end_def word_less_nat_alt)
qed

lemma fill_loop_below_any:
  assumes "re_end prev < re_begin cur" "re_begin cur < limit"
  shows "\<exists>free' hole. (hole = [] \<or> re_end prev + 1 \<noteq> re_begin cur \<and>
      hole = [\<lparr>re_begin = re_end prev + 1, re_end = re_begin cur - 1, re_tag = t\<rparr>]) \<and>
    fst (fill_loop ramstage limit t free prev (cur # rest)) = prev # hole @ fst (fill_loop ramstage limit t free' cur rest)"
proof -
  have "re_begin cur - 1 < re_begin cur" using assms(1) by (rule dec_less_self)
  with assms have below: "\<not> limit \<le> re_begin cur - 1" "\<not> limit \<le> re_begin cur" by auto
  let ?h = "\<lparr>re_begin = re_end prev + 1, re_end = re_begin cur - 1, re_tag = t\<rparr>"
  show ?thesis
  proof (cases "re_end prev + 1 \<noteq> re_begin cur \<and> (ramstage \<or> free \<noteq> [])")
    case True
    then have "fst (fill_loop ramstage limit t free prev (cur # rest)) = prev # [?h] @ fst (fill_loop ramstage limit t (tl free) cur rest)"
      using below by (simp add: Let_def range_list_add_cases range_entry_end_def case_prod_unfold)
    then show ?thesis using True by blast
  next
    case False
    then have "fst (fill_loop ramstage limit t free prev (cur # rest)) = prev # [] @ fst (fill_loop ramstage limit t free cur rest)"
      using below by (auto simp: Let_def range_list_add_cases range_entry_end_def case_prod_unfold)
    then show ?thesis by blast
  qed
qed

lemma fill_loop_above_any:
  assumes "unat (re_end prev) + 1 < unat limit" "limit \<le> re_begin cur" "re_begin cur \<le> re_end cur"
    "re_end cur + 1 \<noteq> 0"
  shows "\<exists>hole. (hole = [] \<or> hole = [\<lparr>re_begin = re_end prev + 1, re_end = limit - 1, re_tag = t\<rparr>]) \<and>
    fst (fill_loop ramstage limit t free prev (cur # rest)) = prev # hole @ cur # rest"
proof -
  have lt: "re_end prev < limit" using assms(1) by (simp add: word_less_nat_alt)
  have "unat (re_end prev + 1) = unat (re_end prev) + 1" using Suc_unat_less [OF lt] by simp
  with assms have ne: "re_end prev + 1 \<noteq> re_begin cur" by (auto simp: word_le_nat_alt)
  have e: "(if limit \<le> re_begin cur - 1 then limit - 1 else re_begin cur - 1) = limit - 1"
    using le_dec_iff [of "re_end prev" "re_begin cur" limit] lt assms(2) by (cases "limit = re_begin cur") auto
  have "re_end cur \<noteq> - 1" using assms(4) by (metis add.left_inverse)
  then have "re_end cur < re_end cur + 1"
    by (metis less_inc_self order.not_eq_order_implies_strict word_order.extremum)
  with assms have "\<not> range_entry_end cur < limit" by (auto simp: range_entry_end_def)
  with assms(2) ne e show ?thesis
    by (auto simp: Let_def range_list_add_cases range_entry_end_def case_prod_unfold fill_last_def)
qed

lemma fill_loop_ok:
  assumes "entries_ok (prev # rest)" "split_at_limit limit (prev # rest)" "unat (re_end prev) + 1 < unat limit"
  shows "entries_ok (fst (fill_loop ramstage limit t free prev rest))"
  using assms
proof (induction rest arbitrary: prev free)
  case Nil
  then have lt: "re_end prev < limit" by (simp add: word_less_nat_alt)
  then have "re_end prev + 1 \<noteq> limit" using Nil.prems(3) Suc_unat_less by force
  then have gap: "entries_ok (prev # \<lparr>re_begin = re_end prev + 1, re_end = limit - 1, re_tag = t\<rparr> # [])"
    using Nil.prems(1) lt by (intro fill_gap(1)) simp_all
  obtain hole where "hole = [] \<or> hole = [\<lparr>re_begin = re_end prev + 1, re_end = limit - 1, re_tag = t\<rparr>]"
    "fst (fill_last ramstage limit t free prev []) = prev # hole @ []"
    using fill_last_any [OF Nil.prems(3), of t ramstage free "[]"] by blast
  then show ?case using gap Nil.prems(1) by (elim disjE) (simp_all only: fill_loop.simps append_Nil append_Cons append_Nil2)
next
  case (Cons cur rest)
  then have lt: "re_end prev < limit" by (simp add: word_less_nat_alt)
  then have ne: "re_end prev + 1 \<noteq> limit" using Cons.prems(3) Suc_unat_less by force
  from Cons.prems have ok: "re_begin prev \<le> re_end prev" "re_end prev < re_begin cur"
    "re_begin cur \<le> re_end cur" "entries_ok (cur # rest)" "split_at_limit limit (cur # rest)"
    by (auto simp: split_at_limit_def)
  show ?case
  proof (cases "limit \<le> re_begin cur")
    case True
    with ok(3,5) have "re_end cur + 1 \<noteq> 0"
      by (auto simp: split_at_limit_def word_le_nat_alt)
    from fill_loop_above_any [OF Cons.prems(3) True ok(3) this, of t ramstage free rest]
    obtain hole where hole: "hole = [] \<or> hole = [\<lparr>re_begin = re_end prev + 1, re_end = limit - 1, re_tag = t\<rparr>]"
      "fst (fill_loop ramstage limit t free prev (cur # rest)) = prev # hole @ cur # rest" by blast
    have "\<forall>s \<in> set (cur # rest). limit \<le> re_begin s" using True ok(4) by auto
    note gap = fill_gap(1) [OF ok(1) lt ne ok(4) this, where t = t]
    show ?thesis using hole(1) gap Cons.prems(1) unfolding hole(2) by (elim disjE) (simp_all only: append_Nil append_Cons)
  next
    case False
    then have cur: "re_begin cur < limit" "unat (re_end cur) + 1 < unat limit"
      using ok(5) by (auto simp: split_at_limit_def)
    from fill_loop_below_any [OF ok(2) cur(1), where t = t and ramstage = ramstage and free = free and rest = rest]
    obtain free' hole where run: "hole = [] \<or> re_end prev + 1 \<noteq> re_begin cur \<and>
        hole = [\<lparr>re_begin = re_end prev + 1, re_end = re_begin cur - 1, re_tag = t\<rparr>]"
      "fst (fill_loop ramstage limit t free prev (cur # rest)) = prev # hole @ fst (fill_loop ramstage limit t free' cur rest)"
      by (elim exE conjE)
    define es where "es = fst (fill_loop ramstage limit t free' cur rest)"
    note IH = Cons.IH [OF ok(4,5) cur(2), of free', folded es_def]
    obtain ys where "es = cur # ys" using fill_loop_hd es_def by blast
    with IH have floor: "\<forall>s \<in> set es. re_begin cur \<le> re_begin s" by auto
    have "entries_ok (prev # es)" using IH floor ok(1,2) by auto
    then show ?thesis
      using run(1) fill_gap(1) [OF ok(1,2) _ IH floor, where t = t] unfolding run(2) es_def [symmetric]
      by (elim disjE conjE) (simp_all only: append_Nil append_Cons simp_thms)
  qed
qed

lemma fill_last_count:
  "\<not> ramstage \<Longrightarrow> length (fst (fill_last ramstage limit t free prev rest)) + length (snd (fill_last ramstage limit t free prev rest)) =
    Suc (length rest + length free)"
  by (cases free) (auto simp: fill_last_def range_list_add_cases)

lemma fill_loop_count:
  "\<not> ramstage \<Longrightarrow> length (fst (fill_loop ramstage limit t free prev rest)) + length (snd (fill_loop ramstage limit t free prev rest)) =
    Suc (length rest + length free)"
proof (induction rest arbitrary: prev free)
  case Nil
  then show ?case using fill_last_count [of ramstage limit t free prev "[]"] by simp
next
  case (Cons cur rest)
  define h where "h = (if range_entry_end prev \<noteq> re_begin cur
    then range_list_add ramstage free [] (range_entry_end prev) (if limit \<le> re_begin cur - 1 then limit - 1 else re_begin cur - 1) t
    else ([], free))"
  have h: "length (fst h) + length (snd h) = length free"
    using Cons.prems by (cases free) (auto simp: h_def range_list_add_cases)
  show ?case
    using h Cons.IH [OF Cons.prems, of "snd h" cur] fill_last_count [OF Cons.prems, of limit t "snd h" cur rest]
    by (simp add: h_def [symmetric] Let_def case_prod_unfold)
qed

lemma memranges_fill_holes_ok:
  assumes "ranges_ok R" "entries R = first # rest" "unat (re_end first) + 1 < unat limit"
    "split_at_limit limit (entries R)"
  shows "ranges_ok (memranges_fill_holes_up_to ramstage R limit t)"
    and "\<not> ramstage \<Longrightarrow> entry_count (memranges_fill_holes_up_to ramstage R limit t) = entry_count R"
proof -
  define S where "S = (case fill_loop ramstage limit t (free_list R) first rest of
    (es, free) \<Rightarrow> \<lparr>entries = es, free_list = free\<rparr>)"
  have S: "memranges_fill_holes_up_to ramstage R limit t = merge_neighbor_entries S"
    using assms(2) by (simp add: memranges_fill_holes_up_to_def S_def)
  have "entries_ok (first # rest)" "split_at_limit limit (first # rest)"
    using assms by (simp_all add: ranges_ok_def)
  then have ok: "ranges_ok S" using fill_loop_ok assms(3) by (simp add: S_def ranges_ok_def case_prod_unfold)
  then show "ranges_ok (memranges_fill_holes_up_to ramstage R limit t)"
    unfolding S by (rule merge_neighbor_entries_spec)
  show "entry_count (memranges_fill_holes_up_to ramstage R limit t) = entry_count R" if "\<not> ramstage"
    unfolding S merge_neighbor_entries_spec(4) [OF ok]
    using fill_loop_count [OF that, of limit t "free_list R" first rest] assms(2)
    by (simp add: S_def entry_count_def case_prod_unfold)
qed

subsection \<open>Histories\<close>

text \<open>
  The operations a user of a structure performs on it, for requests that do not wrap. Holes are
  filled up to a limit that splits the entries: none contains it, ends just before it or ends at
  the end of the address space, and the first one ends before it.
\<close>

inductive memranges_step :: "bool \<Rightarrow> memranges \<Rightarrow> memranges \<Rightarrow> bool" where
  insert: "fits base sz \<Longrightarrow> memranges_step ramstage R (memranges_insert ramstage R base sz t)"
| hole: "fits base sz \<Longrightarrow> memranges_step ramstage R (memranges_create_hole ramstage R base sz)"
| update_tag: "memranges_step ramstage R (memranges_update_tag R old_tag new_tag)"
| add_resources: "\<forall>(base, sz) \<in> set (collected devs msk match flt). fits base sz \<Longrightarrow>
    memranges_step ramstage R (memranges_add_resources_filter ramstage devs R msk match t flt)"
| teardown: "memranges_step ramstage R (memranges_teardown R)"
| fill_holes: "entries R = [] \<or> unat (re_end (hd (entries R))) + 1 < unat limit \<Longrightarrow> split_at_limit limit (entries R) \<Longrightarrow>
    memranges_step ramstage R (memranges_fill_holes_up_to ramstage R limit t)"

inductive memranges_reach :: "bool \<Rightarrow> memranges \<Rightarrow> memranges \<Rightarrow> bool" where
  start: "memranges_reach ramstage R R"
| step: "memranges_reach ramstage R S \<Longrightarrow> memranges_step ramstage S T \<Longrightarrow> memranges_reach ramstage R T"

lemma fold_insert_ok:
  assumes "ranges_ok R" "\<forall>(base, sz) \<in> set qs. fits base sz"
  shows "ranges_ok (fold (\<lambda>q R. case q of (base, sz) \<Rightarrow> memranges_insert ramstage R base sz t) qs R) \<and>
    (ramstage \<or> entry_count (fold (\<lambda>q R. case q of (base, sz) \<Rightarrow> memranges_insert ramstage R base sz t) qs R) =
      entry_count R)"
  using assms by (cases ramstage; induction qs arbitrary: R) (auto simp: memranges_insert_ok)

lemma memranges_step_ok:
  assumes "memranges_step ramstage R S" "ranges_ok R"
  shows "ranges_ok S \<and> (ramstage \<or> entry_count S = entry_count R)"
  using assms
proof cases
  case (add_resources devs msk match flt t)
  with fold_insert_ok [OF assms(2)] show ?thesis
    by (simp add: memranges_add_resources_filter_fold)
next
  case teardown
  then show ?thesis
    by (simp add: memranges_teardown_def teardown_loop_eq ranges_ok_def entry_count_def)
next
  case (fill_holes limit t)
  show ?thesis
  proof (cases "entries R")
    case Nil
    then show ?thesis
      using merge_neighbor_entries_spec(1,4) [OF assms(2)] fill_holes(1) by (simp add: memranges_fill_holes_up_to_def)
  next
    case (Cons first rest)
    then have "unat (re_end first) + 1 < unat limit" using fill_holes(2) by simp
    then show ?thesis
      using memranges_fill_holes_ok [OF assms(2) Cons _ fill_holes(3), of ramstage t] fill_holes(1) by (cases ramstage) simp_all
  qed
next
  case (insert base sz t)
  with assms(2) show ?thesis by (metis memranges_insert_ok(1,2))
next
  case (hole base sz)
  with assms(2) show ?thesis by (metis memranges_create_hole_ok(1,2))
qed (use assms(2) in \<open>simp add: memranges_update_tag_ok\<close>)

section \<open>Properties\<close>

text \<open>Structures used as examples.\<close>

definition spare :: range_entry where
  "spare = \<lparr>re_begin = 0, re_end = 0, re_tag = 0\<rparr>"

definition ex_ranges :: memranges where
  "ex_ranges = \<lparr>entries = [\<lparr>re_begin = 0x1000, re_end = 0x4fff, re_tag = 1\<rparr>,
     \<lparr>re_begin = 0x8000, re_end = 0x8fff, re_tag = 2\<rparr>], free_list = [spare, spare]\<rparr>"

text \<open>
  C16. Every structure obtained from an empty one by insertions, holes, changes of tags,
  additions of resources, teardowns and the filling of holes, for requests that do not wrap and
  limits that split the entries, has nonempty, disjoint entries in order of address, whether or
  not the allocations of entries succeed; before ramstage the number of entries, the used and
  the free ones together, stays that of the initial free list. (With other limits the filling
  of holes breaks the order: \<open>memranges_fill_holes_empty_entry\<close>.)
\<close>

theorem memranges_reachable_ok:
  assumes "memranges_reach ramstage (memranges_init_empty to_free) R"
  shows "ranges_ok R \<and> (ramstage \<or> entry_count R = length to_free)"
  using assms
proof (induction ramstage "memranges_init_empty to_free" R)
  case (start ramstage)
  show ?case using length_memranges_init_empty [of to_free]
    by (simp add: entry_count_def ranges_ok_def memranges_init_empty_def)
next
  case (step ramstage S T)
  then show ?case using memranges_step_ok [OF step.hyps(3)] by auto
qed

theorem memranges_reachable_ok_witness:
  "memranges_reach False (memranges_init_empty [spare])
     (memranges_create_hole False (memranges_insert False (memranges_init_empty [spare]) 0 0x5000 1) 0x1000 1) \<and>
   entry_count
     (memranges_create_hole False (memranges_insert False (memranges_init_empty [spare]) 0 0x5000 1) 0x1000 1) = 1"
proof -
  have "memranges_reach False (memranges_init_empty [spare])
     (memranges_create_hole False (memranges_insert False (memranges_init_empty [spare]) 0 0x5000 1) 0x1000 1)"
    by (rule memranges_reach.step [OF memranges_reach.step [OF memranges_reach.start
          memranges_step.insert] memranges_step.hole]) (simp_all add: fits_def)
  with memranges_reachable_ok [OF this] show ?thesis by simp
qed

text \<open>
  C2. An insertion gives its tag to exactly the pages that the request touches and leaves
  the tag of every other address, and leaves no two neighbours that could be one entry;
  it needs at most two free entries. The request may reach to the end of the 64-bit space.
\<close>

theorem memranges_insert_exact:
  assumes "ranges_ok R" "fits base sz" "sz \<noteq> 0" "ramstage \<or> 2 \<le> length (free_list R)"
  shows "ranges_ok (memranges_insert ramstage R base sz t) \<and>
    merged (entries (memranges_insert ramstage R base sz t)) \<and>
    tag_at (memranges_insert ramstage R base sz t) a =
      (if page_request base sz a then Some t else tag_at R a)"
  using assms memranges_insert_ok [OF assms(1,2)]
    merge_add_memranges_spec(2) [OF assms(1) page_request_iff(2) [OF assms(3,2)]]
  by (simp add: memranges_insert_def do_action_eq)

theorem memranges_insert_exact_witness:
  "tag_at (memranges_insert False ex_ranges 0x2800 0x900 2) 0x30ff = Some 2 \<and>
   tag_at (memranges_insert False ex_ranges 0x2800 0x900 2) 0x4000 = Some 1"
  using memranges_insert_exact [of ex_ranges "0x2800" "0x900" False 2 "0x30ff"]
    memranges_insert_exact [of ex_ranges "0x2800" "0x900" False 2 "0x4000"]
  by (simp add: ex_ranges_def ranges_ok_def fits_def page_request_def tag_at_def covers_def)

text \<open>
  C18. A hole takes the tag away from exactly the pages that the request touches; it needs
  at most one free entry. Without one the structure stays in order and no address gains or
  changes a tag.
\<close>

theorem memranges_create_hole_exact:
  assumes "ranges_ok R" "fits base sz"
  shows "ranges_ok (memranges_create_hole ramstage R base sz) \<and>
    (tag_at (memranges_create_hole ramstage R base sz) a =
       (if page_request base sz a then None else tag_at R a) \<or>
     \<not> ramstage \<and> free_list R = [] \<and> tag_at (memranges_create_hole ramstage R base sz) a = None)"
proof (cases "sz = 0")
  case True
  with assms show ?thesis by (simp add: memranges_create_hole_def do_action_eq page_request_def)
next
  case False
  note pr = page_request_iff [OF False assms(2)]
  note rem = remove_memranges_spec [OF assms(1) pr(2), where t = "- 1" and ramstage = ramstage]
  from False rem(1) rem(2) [of a] show ?thesis unfolding tag_at_def
    by (simp add: memranges_create_hole_def do_action_eq removed_def pr(1) split del: if_split)
qed

theorem memranges_create_hole_exact_witness:
  "tag_at (memranges_create_hole True ex_ranges 0x2000 0x1000) 0x2000 = None \<and>
   tag_at (memranges_create_hole True ex_ranges 0x2000 0x1000) 0x3000 = Some 1"
  using memranges_create_hole_exact [of ex_ranges "0x2000" "0x1000" True "0x2000"]
    memranges_create_hole_exact [of ex_ranges "0x2000" "0x1000" True "0x3000"]
  by (simp add: ex_ranges_def ranges_ok_def fits_def page_request_def tag_at_def covers_def)

text \<open>
  \<open>memranges_update_tag\<close> replaces the one tag by the other at every address, whatever
  neighbours the merge then joins.
\<close>

theorem memranges_update_tag_exact:
  assumes "ranges_ok R"
  shows "ranges_ok (memranges_update_tag R old_tag new_tag) \<and>
    merged (entries (memranges_update_tag R old_tag new_tag)) \<and>
    tag_at (memranges_update_tag R old_tag new_tag) a = map_option (retag old_tag new_tag) (tag_at R a)"
  using memranges_update_tag_ok [OF assms] by simp

theorem memranges_update_tag_exact_witness:
  "tag_at (memranges_update_tag ex_ranges 2 7) 0x8123 = Some 7"
  using memranges_update_tag_exact [of ex_ranges 2 7 "0x8123"]
  by (simp add: ex_ranges_def ranges_ok_def tag_at_def covers_def retag_def)

text \<open>
  C19. \<open>memranges_init\<close> tags an address exactly when it lies in a page of a memory resource
  of an enabled device whose flags match, that is not subtractive and not empty.
\<close>

theorem memranges_init_exact:
  assumes "\<forall>(base, sz) \<in> set (collected devs msk match None). fits base sz"
  shows "ranges_ok (memranges_init True devs msk match t) \<and>
    tag_at (memranges_init True devs msk match t) a =
      (if \<exists>(base, sz) \<in> set (collected devs msk match None). page_request base sz a
       then Some t else None)"
proof -
  have "ranges_ok (memranges_init_empty [])" "tag_at (memranges_init_empty []) a = None"
    by (simp_all add: memranges_init_empty_def ranges_ok_def tag_at_def)
  with memranges_add_resources_filter_map [OF _ assms, of "memranges_init_empty []" t]
  show ?thesis by (simp add: memranges_init_def memranges_add_resources_def)
qed

definition ex_res :: "resource_t \<Rightarrow> resource_t \<Rightarrow> u32 \<Rightarrow> resource" where
  "ex_res b s f = zero_resource\<lparr>res_base := b, res_size := s, res_flags := f\<rparr>"

definition ex_devs :: "device list" where
  "ex_devs = [\<lparr>dev_enabled = True, resource_list = [ex_res 0 0xa0000 0x4200, ex_res 0x60 8 0x100]\<rparr>]"

theorem memranges_init_exact_witness:
  "tag_at (memranges_init True ex_devs 0x4000 0x4000 1) 0x9ffff = Some 1 \<and>
   tag_at (memranges_init True ex_devs 0x4000 0x4000 1) 0xa0000 = None"
proof -
  have "collected ex_devs 0x4000 0x4000 None = [(0, 0xa0000)]"
    by (simp add: collected_def ex_devs_def matching_resources_def res_matches_def ex_res_def
        wanted_def zero_resource_def IORESOURCE_MEM_def IORESOURCE_SUBTRACTIVE_def)
  then show ?thesis
    using memranges_init_exact [of ex_devs "0x4000" "0x4000" 1 "0x9ffff"]
      memranges_init_exact [of ex_devs "0x4000" "0x4000" 1 "0xa0000"]
    by (simp add: fits_def page_request_def)
qed

text \<open>
  C20. When no entry reaches the limit from below and none ends at the end of the address
  space, \<open>memranges_fill_holes_up_to\<close> tags every untagged address from the first entry up
  to the limit, and no other. (The addresses before the first entry stay untagged.)
\<close>

theorem memranges_fill_holes_exact:
  assumes "ranges_ok R" "entries R = first # rest" "unat (re_end first) + 1 < unat limit"
    "split_at_limit limit (entries R)"
  shows "ranges_ok (memranges_fill_holes_up_to True R limit t) \<and>
    tag_at (memranges_fill_holes_up_to True R limit t) a =
      (if re_begin first \<le> a \<and> a < limit \<and> tag_at R a = None then Some t else tag_at R a)"
proof -
  define S where "S = (case fill_loop True limit t (free_list R) first rest of
    (es, free) \<Rightarrow> \<lparr>entries = es, free_list = free\<rparr>)"
  have S: "memranges_fill_holes_up_to True R limit t = merge_neighbor_entries S"
    using assms(2) by (simp add: memranges_fill_holes_up_to_def S_def)
  have "entries_ok (first # rest)" "split_at_limit limit (first # rest)"
    using assms by (simp_all add: ranges_ok_def)
  from fill_loop_spec [OF this assms(3), of t "free_list R" a] assms(2)
  have "ranges_ok S" "tag_at S a =
      (if re_begin first \<le> a \<and> a < limit \<and> tag_at R a = None then Some t else tag_at R a)"
    by (simp_all add: S_def case_prod_unfold ranges_ok_def tag_at_def)
  with merge_neighbor_entries_spec [of S] S show ?thesis by simp
qed

theorem memranges_fill_holes_exact_witness:
  "tag_at (memranges_fill_holes_up_to True ex_ranges 0x7000 9) 0x6fff = Some 9 \<and>
   tag_at (memranges_fill_holes_up_to True ex_ranges 0x7000 9) 0x7000 = None"
  using memranges_fill_holes_exact [of ex_ranges "hd (entries ex_ranges)" "tl (entries ex_ranges)" "0x7000" 9 "0x6fff"]
    memranges_fill_holes_exact [of ex_ranges "hd (entries ex_ranges)" "tl (entries ex_ranges)" "0x7000" 9 "0x7000"]
  by (simp add: ex_ranges_def ranges_ok_def tag_at_def covers_def split_at_limit_def)

text \<open>
  When an entry ends at the limit and the next one starts above it, the hole between
  them is clipped to nothing: the structure gets an entry that ends before it begins and
  is no longer in order.
\<close>

theorem memranges_fill_holes_empty_entry:
  "ranges_ok ex_ranges \<and>
   \<not> ranges_ok (memranges_fill_holes_up_to True ex_ranges 0x5000 9) \<and>
   entries (memranges_fill_holes_up_to True ex_ranges 0x5000 9) ! 1 =
     \<lparr>re_begin = 0x5000, re_end = 0x4fff, re_tag = 9\<rparr>"
  by (simp add: ex_ranges_def spare_def ranges_ok_def memranges_fill_holes_up_to_def Let_def
      range_list_add_cases range_entry_end_def fill_last_def merge_neighbor_entries_def
      merge_neighbors.simps)

end
