(* ===== verification/Acpigen.thy ===== *)
theory Acpigen
  imports Resource
begin

text \<open>
  The ACPI machine language generator, \<^verbatim>\<open>src/coreboot/src/arch/x86/acpigen.c\<close>, with
  \<^verbatim>\<open>src/coreboot/src/lib/hexstrtobin.c\<close>. The state is the memory, the write pointer
  \<open>gencurrent\<close> and the stack \<open>len_stack\<close> of the places where a length is still to be
  filled in (\<open>ltop\<close> is the length of the list; its head is the top). An operation maps a
  state to the next one; \<open>None\<close> is an access outside \<open>len_stack\<close> or an \<open>ASSERT\<close> that fails,
  after which the code, unless \<^verbatim>\<open>CONFIG_FATAL_ASSERTS\<close> is set, goes on. A C string is the
  list of its bytes before the terminator, and the strings given to the generator do not lie
  in the area it writes.
\<close>

type_synonym cstr = "u8 list"

definition str :: "string \<Rightarrow> cstr" where
  "str s = map of_char s"

record acpigen =
  amem :: mem
  gencurrent :: uintptr
  len_stack :: "uintptr list"

type_synonym gen_op = "acpigen \<Rightarrow> acpigen option"

text \<open>Statements in sequence.\<close>

primrec run :: "gen_op list \<Rightarrow> gen_op" where
  "run [] s = Some s"
| "run (f # fs) s = (case f s of None \<Rightarrow> None | Some s' \<Rightarrow> run fs s')"

definition ACPIGEN_LENSTACK_SIZE :: nat where "ACPIGEN_LENSTACK_SIZE = 10"
definition ACPIGEN_MAXLEN :: int where "ACPIGEN_MAXLEN = 0xfffff"

definition ZERO_OP :: u8 where "ZERO_OP = 0x00"
definition ONE_OP :: u8 where "ONE_OP = 0x01"
definition NAME_OP :: u8 where "NAME_OP = 0x08"
definition BYTE_PREFIX :: u8 where "BYTE_PREFIX = 0x0A"
definition WORD_PREFIX :: u8 where "WORD_PREFIX = 0x0B"
definition DWORD_PREFIX :: u8 where "DWORD_PREFIX = 0x0C"
definition STRING_PREFIX :: u8 where "STRING_PREFIX = 0x0D"
definition QWORD_PREFIX :: u8 where "QWORD_PREFIX = 0x0E"
definition SCOPE_OP :: u8 where "SCOPE_OP = 0x10"
definition BUFFER_OP :: u8 where "BUFFER_OP = 0x11"
definition PACKAGE_OP :: u8 where "PACKAGE_OP = 0x12"
definition METHOD_OP :: u8 where "METHOD_OP = 0x14"
definition DUAL_NAME_PREFIX :: u8 where "DUAL_NAME_PREFIX = 0x2E"
definition MULTI_NAME_PREFIX :: u8 where "MULTI_NAME_PREFIX = 0x2F"
definition EXT_OP_PREFIX :: u8 where "EXT_OP_PREFIX = 0x5B"
definition SLEEP_OP :: u8 where "SLEEP_OP = 0x22"
definition DEBUG_OP :: u8 where "DEBUG_OP = 0x31"
definition OPREGION_OP :: u8 where "OPREGION_OP = 0x80"
definition FIELD_OP :: u8 where "FIELD_OP = 0x81"
definition DEVICE_OP :: u8 where "DEVICE_OP = 0x82"
definition PROCESSOR_OP :: u8 where "PROCESSOR_OP = 0x83"
definition POWER_RES_OP :: u8 where "POWER_RES_OP = 0x84"
definition LOCAL0_OP :: u8 where "LOCAL0_OP = 0x60"
definition LOCAL1_OP :: u8 where "LOCAL1_OP = 0x61"
definition ARG0_OP :: u8 where "ARG0_OP = 0x68"
definition ARG2_OP :: u8 where "ARG2_OP = 0x6A"
definition STORE_OP :: u8 where "STORE_OP = 0x70"
definition AND_OP :: u8 where "AND_OP = 0x7B"
definition OR_OP :: u8 where "OR_OP = 0x7D"
definition NOT_OP :: u8 where "NOT_OP = 0x80"
definition LEQUAL_OP :: u8 where "LEQUAL_OP = 0x93"
definition TO_BUFFER_OP :: u8 where "TO_BUFFER_OP = 0x96"
definition TO_INTEGER_OP :: u8 where "TO_INTEGER_OP = 0x99"
definition IF_OP :: u8 where "IF_OP = 0xA0"
definition ELSE_OP :: u8 where "ELSE_OP = 0xA1"
definition RETURN_OP :: u8 where "RETURN_OP = 0xA4"
definition ONES_OP :: u8 where "ONES_OP = 0xFF"

section \<open>Bytes and lengths\<close>

definition acpigen_set_current :: "uintptr \<Rightarrow> gen_op" where
  "acpigen_set_current new_ptr s = Some (s\<lparr>gencurrent := new_ptr\<rparr>)"

definition acpigen_get_current :: "acpigen \<Rightarrow> uintptr" where
  "acpigen_get_current s = gencurrent s"

definition acpigen_emit_byte :: "u8 \<Rightarrow> gen_op" where
  "acpigen_emit_byte b s =
     Some (s\<lparr>amem := (amem s)(gencurrent s := b), gencurrent := gencurrent s + 1\<rparr>)"

definition acpigen_write_len_f :: gen_op where
  "acpigen_write_len_f s =
     (if length (len_stack s) < ACPIGEN_LENSTACK_SIZE - 1
      then run [acpigen_emit_byte 0, acpigen_emit_byte 0, acpigen_emit_byte 0]
             (s\<lparr>len_stack := gencurrent s # len_stack s\<rparr>)
      else None)"

definition acpigen_pop_len :: gen_op where
  "acpigen_pop_len s =
     (case len_stack s of
        [] \<Rightarrow> None
      | p # stack \<Rightarrow>
          (let len = gencurrent s - p
           in if sint len \<le> ACPIGEN_MAXLEN
              then Some (s\<lparr>len_stack := stack,
                amem := (amem s)(p := ucast (0x80 OR (len AND 0xf)),
                                 p + 1 := ucast (drop_bit 4 len AND 0xff),
                                 p + 2 := ucast (drop_bit 12 len AND 0xff))\<rparr>)
              else None))"

definition acpigen_emit_ext_op :: "u8 \<Rightarrow> gen_op" where
  "acpigen_emit_ext_op opc = run [acpigen_emit_byte EXT_OP_PREFIX, acpigen_emit_byte opc]"

definition acpigen_emit_word :: "u32 \<Rightarrow> gen_op" where
  "acpigen_emit_word data = run [
     acpigen_emit_byte (ucast (data AND 0xff)),
     acpigen_emit_byte (ucast (drop_bit 8 data AND 0xff))]"

definition acpigen_emit_dword :: "u32 \<Rightarrow> gen_op" where
  "acpigen_emit_dword data = run [
     acpigen_emit_byte (ucast (data AND 0xff)),
     acpigen_emit_byte (ucast (drop_bit 8 data AND 0xff)),
     acpigen_emit_byte (ucast (drop_bit 16 data AND 0xff)),
     acpigen_emit_byte (ucast (drop_bit 24 data AND 0xff))]"

text \<open>The operation, and the pointer to the element count that it returns.\<close>

definition acpigen_write_package :: "u32 \<Rightarrow> gen_op" where
  "acpigen_write_package nr_el = run [
     acpigen_emit_byte PACKAGE_OP,
     acpigen_write_len_f,
     acpigen_emit_byte (ucast nr_el)]"

definition acpigen_write_package_ptr :: "acpigen \<Rightarrow> uintptr option" where
  "acpigen_write_package_ptr s =
     map_option acpigen_get_current (run [acpigen_emit_byte PACKAGE_OP, acpigen_write_len_f] s)"

definition acpigen_write_byte :: "u32 \<Rightarrow> gen_op" where
  "acpigen_write_byte data = run [
     acpigen_emit_byte BYTE_PREFIX,
     acpigen_emit_byte (ucast (data AND 0xff))]"

definition acpigen_write_word :: "u32 \<Rightarrow> gen_op" where
  "acpigen_write_word data = run [
     acpigen_emit_byte WORD_PREFIX,
     acpigen_emit_word data]"

definition acpigen_write_dword :: "u32 \<Rightarrow> gen_op" where
  "acpigen_write_dword data = run [
     acpigen_emit_byte DWORD_PREFIX,
     acpigen_emit_dword data]"

definition acpigen_write_qword :: "u64 \<Rightarrow> gen_op" where
  "acpigen_write_qword data = run [
     acpigen_emit_byte QWORD_PREFIX,
     acpigen_emit_dword (ucast (data AND 0xffffffff)),
     acpigen_emit_dword (ucast (drop_bit 32 data AND 0xffffffff))]"

definition acpigen_write_zero :: gen_op where
  "acpigen_write_zero = acpigen_emit_byte ZERO_OP"

definition acpigen_write_one :: gen_op where
  "acpigen_write_one = acpigen_emit_byte ONE_OP"

definition acpigen_write_ones :: gen_op where
  "acpigen_write_ones = acpigen_emit_byte ONES_OP"

definition acpigen_write_integer :: "u64 \<Rightarrow> gen_op" where
  "acpigen_write_integer data =
     (if data = 0 then acpigen_write_zero
      else if data = 1 then acpigen_write_one
      else if data \<le> 0xff then acpigen_write_byte (ucast (ucast data :: u8))
      else if data \<le> 0xffff then acpigen_write_word (ucast data)
      else if data \<le> 0xffffffff then acpigen_write_dword (ucast data)
      else acpigen_write_qword data)"

section \<open>Names and strings\<close>

definition acpigen_emit_stream :: "u8 list \<Rightarrow> gen_op" where
  "acpigen_emit_stream data = run (map acpigen_emit_byte data)"

text \<open>\<open>None\<close> is the null pointer.\<close>

definition acpigen_emit_string :: "cstr option \<Rightarrow> gen_op" where
  "acpigen_emit_string string = run [
     acpigen_emit_stream (case string of None \<Rightarrow> [] | Some t \<Rightarrow> t),
     acpigen_emit_byte 0]"

definition acpigen_write_string :: "cstr option \<Rightarrow> gen_op" where
  "acpigen_write_string string = run [
     acpigen_emit_byte STRING_PREFIX,
     acpigen_emit_string string]"

text \<open>The loop body of \<open>acpigen_emit_simple_namestring\<close> with \<open>k\<close> characters to go.\<close>

fun simple_namestring_loop :: "nat \<Rightarrow> cstr \<Rightarrow> gen_op" where
  "simple_namestring_loop 0 name = run []"
| "simple_namestring_loop (Suc k) name =
     (case name of
        [] \<Rightarrow> acpigen_emit_stream (take (Suc k) (str ''____''))
      | c # name' \<Rightarrow>
          if c = 0x2E then acpigen_emit_stream (take (Suc k) (str ''____''))
          else run [acpigen_emit_byte c, simple_namestring_loop k name'])"

definition acpigen_emit_simple_namestring :: "cstr \<Rightarrow> gen_op" where
  "acpigen_emit_simple_namestring name = simple_namestring_loop 4 name"

definition acpigen_emit_double_namestring :: "cstr \<Rightarrow> nat \<Rightarrow> gen_op" where
  "acpigen_emit_double_namestring name dotpos = run [
     acpigen_emit_byte DUAL_NAME_PREFIX,
     acpigen_emit_simple_namestring name,
     acpigen_emit_simple_namestring (drop (dotpos + 1) name)]"

text \<open>From a name to its next element: past the end of this one, and past the dot.\<close>

fun next_entity :: "cstr \<Rightarrow> cstr" where
  "next_entity [] = []"
| "next_entity (c # name) = (if c = 0x2E then name else next_entity name)"

lemma length_next_entity: "name \<noteq> [] \<Longrightarrow> length (next_entity name) < length name"
proof (induction name rule: next_entity.induct)
  case (2 c name)
  then show ?case by (cases name) (auto simp: less_Suc_eq)
qed simp

function multi_namestring_loop :: "cstr \<Rightarrow> nat \<Rightarrow> acpigen \<Rightarrow> (nat \<times> acpigen) option" where
  "multi_namestring_loop name count s =
     (if name = [] then Some (count, s)
      else (case acpigen_emit_simple_namestring name s of
              None \<Rightarrow> None
            | Some s' \<Rightarrow> multi_namestring_loop (next_entity name) (count + 1) s'))"
  by pat_completeness auto
termination by (relation "measure (\<lambda>(name, _, _). length name)") (auto simp: length_next_entity)

definition acpigen_emit_multi_namestring :: "cstr \<Rightarrow> gen_op" where
  "acpigen_emit_multi_namestring name s =
     (case run [acpigen_emit_byte MULTI_NAME_PREFIX, acpigen_emit_byte ZERO_OP] s of
        None \<Rightarrow> None
      | Some s1 \<Rightarrow>
          (let pathlen = acpigen_get_current s1 - 1
           in case multi_namestring_loop name 0 s1 of
                None \<Rightarrow> None
              | Some (count, s2) \<Rightarrow> Some (s2\<lparr>amem := (amem s2)(pathlen := word_of_nat count)\<rparr>)))"

text \<open>The number of dots and the place of the last one, from position \<open>i\<close> on.\<close>

fun count_dots :: "cstr \<Rightarrow> nat \<Rightarrow> nat \<Rightarrow> nat \<Rightarrow> nat \<times> nat" where
  "count_dots [] i dotcount dotpos = (dotcount, dotpos)"
| "count_dots (c # name) i dotcount dotpos =
     (if c = 0x2E then count_dots name (i + 1) (dotcount + 1) i
      else count_dots name (i + 1) dotcount dotpos)"

fun emit_carets :: "cstr \<Rightarrow> acpigen \<Rightarrow> (cstr \<times> acpigen) option" where
  "emit_carets [] s = Some ([], s)"
| "emit_carets (c # name) s =
     (if c = 0x5E
      then (case acpigen_emit_byte 0x5E s of None \<Rightarrow> None | Some s' \<Rightarrow> emit_carets name s')
      else Some (c # name, s))"

definition emit_path :: "cstr \<Rightarrow> gen_op" where
  "emit_path namepath =
     (if namepath = [] then acpigen_emit_byte ZERO_OP
      else (case count_dots namepath 0 0 0 of
              (dotcount, dotpos) \<Rightarrow>
                if dotcount = 0 then acpigen_emit_simple_namestring namepath
                else if dotcount = 1 then acpigen_emit_double_namestring namepath dotpos
                else acpigen_emit_multi_namestring namepath))"

definition acpigen_emit_namestring :: "cstr \<Rightarrow> gen_op" where
  "acpigen_emit_namestring namepath s =
     (case (if namepath \<noteq> [] \<and> hd namepath = 0x5C
            then map_option (Pair (tl namepath)) (acpigen_emit_byte 0x5C s)
            else Some (namepath, s)) of
        None \<Rightarrow> None
      | Some (namepath1, s1) \<Rightarrow>
          (case emit_carets namepath1 s1 of
             None \<Rightarrow> None
           | Some (namepath2, s2) \<Rightarrow> emit_path namepath2 s2))"

definition acpigen_write_name :: "cstr \<Rightarrow> gen_op" where
  "acpigen_write_name name = run [
     acpigen_emit_byte NAME_OP,
     acpigen_emit_namestring name]"

definition acpigen_write_name_zero :: "cstr \<Rightarrow> gen_op" where
  "acpigen_write_name_zero name = run [acpigen_write_name name, acpigen_write_one]"

definition acpigen_write_name_one :: "cstr \<Rightarrow> gen_op" where
  "acpigen_write_name_one name = run [acpigen_write_name name, acpigen_write_zero]"

definition acpigen_write_name_byte :: "cstr \<Rightarrow> u8 \<Rightarrow> gen_op" where
  "acpigen_write_name_byte name val = run [acpigen_write_name name, acpigen_write_byte (ucast val)]"

definition acpigen_write_name_dword :: "cstr \<Rightarrow> u32 \<Rightarrow> gen_op" where
  "acpigen_write_name_dword name val = run [acpigen_write_name name, acpigen_write_dword val]"

definition acpigen_write_name_qword :: "cstr \<Rightarrow> u64 \<Rightarrow> gen_op" where
  "acpigen_write_name_qword name val = run [acpigen_write_name name, acpigen_write_qword val]"

definition acpigen_write_name_integer :: "cstr \<Rightarrow> u64 \<Rightarrow> gen_op" where
  "acpigen_write_name_integer name val = run [acpigen_write_name name, acpigen_write_integer val]"

definition acpigen_write_name_string :: "cstr \<Rightarrow> cstr option \<Rightarrow> gen_op" where
  "acpigen_write_name_string name string = run [acpigen_write_name name, acpigen_write_string string]"

text \<open>
  \<open>%04X\<close> and \<open>%02d\<close> of \<open>snprintf\<close>: the digits, padded on the left with zeros;
  \<open>snprintf\<close> keeps what fits in the buffer.
\<close>

definition digit :: "nat \<Rightarrow> u8" where
  "digit n = (if n < 10 then word_of_nat (0x30 + n) else word_of_nat (0x37 + n))"

fun digits :: "nat \<Rightarrow> nat \<Rightarrow> cstr" where
  "digits base n =
     (if base < 2 \<or> n < base then [digit n] else digits base (n div base) @ [digit (n mod base)])"

declare digits.simps [simp del]

definition zero_pad :: "nat \<Rightarrow> cstr \<Rightarrow> cstr" where
  "zero_pad w ds = replicate (w - length ds) 0x30 @ ds"

definition acpigen_write_coreboot_hid :: "u32 \<Rightarrow> gen_op" where
  "acpigen_write_coreboot_hid cbid =
     (let hid = take 8 (take 4 (str ''GOOG'') @ zero_pad 4 (digits 16 (unat cbid)))
      in acpigen_write_name_string (str ''_HID'') (Some hid))"

definition acpigen_write_scope :: "cstr \<Rightarrow> gen_op" where
  "acpigen_write_scope name = run [
     acpigen_emit_byte SCOPE_OP,
     acpigen_write_len_f,
     acpigen_emit_namestring name]"

text \<open>What \<open>snprintf\<close> puts into \<open>pscope\<close>.\<close>

definition processor_name :: "u8 \<Rightarrow> cstr" where
  "processor_name cpuindex = take 15 ([0x5C] @ str ''_PR.CP'' @ zero_pad 2 (digits 10 (unat cpuindex)))"

definition acpigen_write_processor :: "u8 \<Rightarrow> u32 \<Rightarrow> u8 \<Rightarrow> gen_op" where
  "acpigen_write_processor cpuindex pblock_addr pblock_len =
     (let pscope = processor_name cpuindex
      in run [
        acpigen_emit_ext_op PROCESSOR_OP,
        acpigen_write_len_f,
        acpigen_emit_namestring pscope,
        acpigen_emit_byte cpuindex,
        acpigen_emit_dword pblock_addr,
        acpigen_emit_byte pblock_len])"

section \<open>Operation regions and fields\<close>

datatype region_space =
  SYSTEMMEMORY | SYSTEMIO | PCI_CONFIG | EMBEDDEDCONTROL | SMBUS | CMOS | PCIBARTARGET | IPMI

fun region_space_code :: "region_space \<Rightarrow> u8" where
  "region_space_code SYSTEMMEMORY = 0"
| "region_space_code SYSTEMIO = 1"
| "region_space_code PCI_CONFIG = 2"
| "region_space_code EMBEDDEDCONTROL = 3"
| "region_space_code SMBUS = 4"
| "region_space_code CMOS = 5"
| "region_space_code PCIBARTARGET = 6"
| "region_space_code IPMI = 7"

record opregion =
  op_name :: cstr
  regionspace :: region_space
  regionoffset :: u32
  regionlen :: u32

definition acpigen_write_opregion :: "opregion \<Rightarrow> gen_op" where
  "acpigen_write_opregion opreg = run [
     acpigen_emit_ext_op OPREGION_OP,
     acpigen_emit_simple_namestring (op_name opreg),
     acpigen_emit_byte (region_space_code (regionspace opreg)),
     acpigen_write_integer (ucast (regionoffset opreg)),
     acpigen_write_integer (ucast (regionlen opreg))]"

text \<open>
  The bytes that \<open>acpigen_write_field_offset\<close> collects in \<open>emit\<close>, after the first:
  the loop shifts eight bits out of \<open>diff_bits\<close> until nothing is left.
\<close>

function offset_tail :: "u32 \<Rightarrow> u8 list" where
  "offset_tail diff_bits =
     (if diff_bits = 0 then []
      else ucast (diff_bits AND 0xFF) # offset_tail (drop_bit 8 diff_bits))"
  by pat_completeness auto
termination
proof (relation "measure unat")
  fix d :: u32 assume "d \<noteq> 0"
  then have "unat d \<noteq> 0" by (simp add: unat_eq_zero)
  moreover have "unat (drop_bit 8 d) = unat d div 256"
    unfolding unat_drop_bit_eq by (simp add: drop_bit_eq_div)
  ultimately show "(drop_bit 8 d, d) \<in> measure unat" by simp
qed simp

declare offset_tail.simps [simp del]

definition acpigen_write_field_offset :: "u32 \<Rightarrow> u32 \<Rightarrow> gen_op" where
  "acpigen_write_field_offset off current_bit_pos =
     (if off < current_bit_pos then run []
      else (let diff_bits = off - current_bit_pos
            in if diff_bits > 0xFFFFFFF then run []
               else (let first = (if diff_bits < 0x40 then diff_bits AND 0x3F else diff_bits AND 0xF);
                         rest = (if diff_bits < 0x40 then [] else offset_tail (drop_bit 4 diff_bits))
                     in run (acpigen_emit_byte 0 #
                          map acpigen_emit_byte
                            (ucast (first OR push_bit 6 (word_of_nat (length rest))) # rest)))))"

datatype field_type = OFFSET | NAME_STRING | FIELD_TYPE_MAX

record fieldlist =
  fl_type :: field_type
  fl_name :: cstr
  fl_bits :: u32

fun field_loop :: "fieldlist list \<Rightarrow> u32 \<Rightarrow> gen_op" where
  "field_loop [] current_bit_pos = run []"
| "field_loop (l # ls) current_bit_pos =
     (case fl_type l of
        NAME_STRING \<Rightarrow> run [
          acpigen_emit_simple_namestring (fl_name l),
          acpigen_emit_byte (ucast (fl_bits l)),
          field_loop ls (current_bit_pos + fl_bits l)]
      | OFFSET \<Rightarrow> run [
          acpigen_write_field_offset (fl_bits l) current_bit_pos,
          field_loop ls (fl_bits l)]
      | FIELD_TYPE_MAX \<Rightarrow> field_loop ls current_bit_pos)"

text \<open>
  The counter of the loop has 16 bits: with more than 65535 elements it never ends, which
  is \<open>None\<close> here.
\<close>

definition acpigen_write_field :: "cstr \<Rightarrow> fieldlist list \<Rightarrow> u8 \<Rightarrow> gen_op" where
  "acpigen_write_field name l flags =
     (if length l < 65536
      then run [
        acpigen_emit_ext_op FIELD_OP,
        acpigen_write_len_f,
        acpigen_emit_simple_namestring name,
        acpigen_emit_byte flags,
        field_loop l 0,
        acpigen_pop_len]
      else (\<lambda>s. None))"

section \<open>Resource descriptors\<close>

record acpi_addr =
  space_id :: u8
  bit_width :: u8
  bit_offset :: u8
  resv :: u8
  addrl :: u32
  addrh :: u32

definition acpigen_write_mem32fixed :: "bool \<Rightarrow> u32 \<Rightarrow> u32 \<Rightarrow> gen_op" where
  "acpigen_write_mem32fixed readwrite base sz = run [
     acpigen_emit_byte 0x86,
     acpigen_emit_byte 0x09,
     acpigen_emit_byte 0x00,
     acpigen_emit_byte (if readwrite then 0x01 else 0x00),
     acpigen_emit_dword base,
     acpigen_emit_dword sz]"

definition acpigen_write_register :: "acpi_addr \<Rightarrow> gen_op" where
  "acpigen_write_register addr = run [
     acpigen_emit_byte 0x82,
     acpigen_emit_byte 0x0c,
     acpigen_emit_byte 0x00,
     acpigen_emit_byte (space_id addr),
     acpigen_emit_byte (bit_width addr),
     acpigen_emit_byte (bit_offset addr),
     acpigen_emit_byte (resv addr),
     acpigen_emit_dword (addrl addr),
     acpigen_emit_dword (addrh addr)]"

definition acpigen_write_irq :: "u16 \<Rightarrow> gen_op" where
  "acpigen_write_irq msk = run [
     acpigen_emit_byte 0x22,
     acpigen_emit_byte (ucast (msk AND 0xff)),
     acpigen_emit_byte (ucast (drop_bit 8 msk AND 0xff))]"

definition acpigen_write_io16 :: "u16 \<Rightarrow> u16 \<Rightarrow> u8 \<Rightarrow> u8 \<Rightarrow> u8 \<Rightarrow> gen_op" where
  "acpigen_write_io16 minp maxp al len decode16 = run [
     acpigen_emit_byte 0x47,
     acpigen_emit_byte (if decode16 \<noteq> 0 then 0x01 else 0x00),
     acpigen_emit_byte (ucast (minp AND 0xff)),
     acpigen_emit_byte (ucast (drop_bit 8 minp AND 0xff)),
     acpigen_emit_byte (ucast (maxp AND 0xff)),
     acpigen_emit_byte (ucast (drop_bit 8 maxp AND 0xff)),
     acpigen_emit_byte (al AND 0xff),
     acpigen_emit_byte (len AND 0xff)]"

text \<open>The place of the size word goes on the stack without an assertion.\<close>

definition push_current :: gen_op where
  "push_current s =
     (if length (len_stack s) < ACPIGEN_LENSTACK_SIZE
      then Some (s\<lparr>len_stack := acpigen_get_current s # len_stack s\<rparr>) else None)"

definition acpigen_write_resourcetemplate_header :: gen_op where
  "acpigen_write_resourcetemplate_header = run [
     acpigen_emit_byte BUFFER_OP,
     acpigen_write_len_f,
     acpigen_emit_byte WORD_PREFIX,
     push_current,
     acpigen_emit_byte 0x00,
     acpigen_emit_byte 0x00]"

definition acpigen_write_resourcetemplate_footer :: gen_op where
  "acpigen_write_resourcetemplate_footer s =
     (case len_stack s of
        [] \<Rightarrow> None
      | p # stack \<Rightarrow> run [
          acpigen_emit_byte 0x79,
          acpigen_emit_byte 0x00,
          (\<lambda>s1. let len = gencurrent s1 - p
                in Some (s1\<lparr>amem := (amem s1)(p := ucast (len AND 0xff),
                                               p + 1 := ucast (drop_bit 8 len AND 0xff))\<rparr>)),
          acpigen_pop_len] (s\<lparr>len_stack := stack\<rparr>))"

definition acpigen_write_empty_PCT :: gen_op where
  "acpigen_write_empty_PCT = acpigen_emit_stream [
     0x08, 0x5F, 0x50, 0x43, 0x54, 0x12, 0x2C,
     0x02, 0x11, 0x14, 0x0A, 0x11, 0x82, 0x0C, 0x00,
     0x7F, 0x00, 0x00, 0x00, 0x00, 0x00, 0x00, 0x00,
     0x00, 0x00, 0x00, 0x00, 0x79, 0x00, 0x11, 0x14,
     0x0A, 0x11, 0x82, 0x0C, 0x00, 0x7F, 0x00, 0x00,
     0x00, 0x00, 0x00, 0x00, 0x00, 0x00, 0x00, 0x00,
     0x00, 0x79, 0x00]"

definition acpigen_write_empty_PTC :: gen_op where
  "acpigen_write_empty_PTC =
     (let addr = \<lparr>space_id = 0x7f, bit_width = 0, bit_offset = 0, resv = 0, addrl = 0, addrh = 0\<rparr>
      in run [
        acpigen_write_name (str ''_PTC''),
        acpigen_write_package 2,
        acpigen_write_resourcetemplate_header,
        acpigen_write_register addr,
        acpigen_write_resourcetemplate_footer,
        acpigen_write_resourcetemplate_header,
        acpigen_write_register addr,
        acpigen_write_resourcetemplate_footer,
        acpigen_pop_len])"

text \<open>The callbacks of the walk over the resources, which carry the generator's state.\<close>

definition lift_op :: "gen_op \<Rightarrow> acpigen option \<Rightarrow> acpigen option" where
  "lift_op f g = (case g of None \<Rightarrow> None | Some s \<Rightarrow> f s)"

definition acpigen_add_mainboard_rsvd_mem32 :: "device \<Rightarrow> resource \<Rightarrow> acpigen option \<Rightarrow> acpigen option" where
  "acpigen_add_mainboard_rsvd_mem32 dev res =
     lift_op (acpigen_write_mem32fixed False (ucast (res_base res)) (ucast (res_size res)))"

function rsvd_io_loop :: "resource_t \<Rightarrow> resource_t \<Rightarrow> gen_op" where
  "rsvd_io_loop base sz s =
     (if sz > 0
      then (let n = (if sz > 255 then 255 else sz)
            in case acpigen_write_io16 (ucast base) (ucast base) 0 (ucast n) 1 s of
                 None \<Rightarrow> None
               | Some s' \<Rightarrow> rsvd_io_loop (base + n) (sz - n) s')
      else Some s)"
  by pat_completeness auto
termination
proof (relation "measure (\<lambda>(base, sz, s). unat sz)")
  fix base sz n :: resource_t and s s' :: acpigen
  assume sz: "sz > 0" and n: "n = (if sz > 255 then 255 else sz)"
  then have "n \<le> sz" "0 < unat n" by (auto simp: word_less_nat_alt word_le_nat_alt)
  then have "unat (sz - n) < unat sz"
    by (simp add: unat_minus_no_wrap word_le_nat_alt)
  then show "((base + n, sz - n, s'), base, sz, s) \<in> measure (\<lambda>(base, sz, s). unat sz)" by simp
qed simp

declare rsvd_io_loop.simps [simp del]

definition acpigen_add_mainboard_rsvd_io :: "device \<Rightarrow> resource \<Rightarrow> acpigen option \<Rightarrow> acpigen option" where
  "acpigen_add_mainboard_rsvd_io dev res = lift_op (rsvd_io_loop (res_base res) (res_size res))"

definition acpigen_write_mainboard_resource_template :: "device list \<Rightarrow> gen_op" where
  "acpigen_write_mainboard_resource_template all_devices = run [
     acpigen_write_resourcetemplate_header,
     (\<lambda>s. search_global_resources all_devices
            (IORESOURCE_MEM OR IORESOURCE_RESERVE) (IORESOURCE_MEM OR IORESOURCE_RESERVE)
            acpigen_add_mainboard_rsvd_mem32 (Some s)),
     (\<lambda>s. search_global_resources all_devices
            (IORESOURCE_IO OR IORESOURCE_RESERVE) (IORESOURCE_IO OR IORESOURCE_RESERVE)
            acpigen_add_mainboard_rsvd_io (Some s)),
     acpigen_write_resourcetemplate_footer]"

definition acpigen_write_mainboard_resources :: "device list \<Rightarrow> cstr \<Rightarrow> cstr \<Rightarrow> gen_op" where
  "acpigen_write_mainboard_resources all_devices scope name = run [
     acpigen_write_scope scope,
     acpigen_write_name name,
     acpigen_write_mainboard_resource_template all_devices,
     acpigen_pop_len]"

section \<open>Methods, packages and buffers\<close>

definition acpigen_write_method_flags :: "cstr \<Rightarrow> u8 \<Rightarrow> gen_op" where
  "acpigen_write_method_flags name flags = run [
     acpigen_emit_byte METHOD_OP,
     acpigen_write_len_f,
     acpigen_emit_namestring name,
     acpigen_emit_byte flags]"

definition acpigen_write_method :: "cstr \<Rightarrow> u32 \<Rightarrow> gen_op" where
  "acpigen_write_method name nargs = acpigen_write_method_flags name (ucast (nargs AND 7))"

definition acpigen_write_method_serialized :: "cstr \<Rightarrow> u32 \<Rightarrow> gen_op" where
  "acpigen_write_method_serialized name nargs =
     acpigen_write_method_flags name (ucast ((nargs AND 7) OR push_bit 3 1))"

definition acpigen_write_device :: "cstr \<Rightarrow> gen_op" where
  "acpigen_write_device name = run [
     acpigen_emit_ext_op DEVICE_OP,
     acpigen_write_len_f,
     acpigen_emit_namestring name]"

definition acpigen_write_STA :: "u8 \<Rightarrow> gen_op" where
  "acpigen_write_STA status = run [
     acpigen_write_method (str ''_STA'') 0,
     acpigen_emit_byte RETURN_OP,
     acpigen_write_byte (ucast status),
     acpigen_pop_len]"

definition acpigen_write_PPC :: "u8 \<Rightarrow> gen_op" where
  "acpigen_write_PPC nr = run [
     acpigen_write_method (str ''_PPC'') 0,
     acpigen_emit_byte RETURN_OP,
     acpigen_write_byte (ucast nr),
     acpigen_pop_len]"

definition acpigen_write_PPC_NVS :: gen_op where
  "acpigen_write_PPC_NVS = run [
     acpigen_write_method (str ''_PPC'') 0,
     acpigen_emit_byte RETURN_OP,
     acpigen_emit_namestring (str ''PPCM''),
     acpigen_pop_len]"

definition acpigen_write_TPC :: "cstr \<Rightarrow> gen_op" where
  "acpigen_write_TPC gnvs_tpc_limit = run [
     acpigen_write_method (str ''_TPC'') 0,
     acpigen_emit_byte RETURN_OP,
     acpigen_emit_namestring gnvs_tpc_limit,
     acpigen_pop_len]"

definition acpigen_write_PRW :: "u32 \<Rightarrow> u32 \<Rightarrow> gen_op" where
  "acpigen_write_PRW wake level = run [
     acpigen_write_name (str ''_PRW''),
     acpigen_write_package 2,
     acpigen_write_integer (ucast wake),
     acpigen_write_integer (ucast level),
     acpigen_pop_len]"

definition acpigen_write_PSS_package :: "u32 \<Rightarrow> u32 \<Rightarrow> u32 \<Rightarrow> u32 \<Rightarrow> u32 \<Rightarrow> u32 \<Rightarrow> gen_op" where
  "acpigen_write_PSS_package coreFreq pow_mw transLat busmLat control status = run [
     acpigen_write_package 6,
     acpigen_write_dword coreFreq,
     acpigen_write_dword pow_mw,
     acpigen_write_dword transLat,
     acpigen_write_dword busmLat,
     acpigen_write_dword control,
     acpigen_write_dword status,
     acpigen_pop_len]"

definition acpigen_write_PSD_package :: "u32 \<Rightarrow> u32 \<Rightarrow> u32 \<Rightarrow> gen_op" where
  "acpigen_write_PSD_package domain numprocs coordtype = run [
     acpigen_write_name (str ''_PSD''),
     acpigen_write_package 1,
     acpigen_write_package 5,
     acpigen_write_byte 5,
     acpigen_write_byte 0,
     acpigen_write_dword domain,
     acpigen_write_dword coordtype,
     acpigen_write_dword numprocs,
     acpigen_pop_len,
     acpigen_pop_len]"

record acpi_cstate =
  ctype :: u8
  cs_latency :: u16
  cs_power :: u32
  cs_resource :: acpi_addr

definition acpigen_write_CST_package_entry :: "acpi_cstate \<Rightarrow> gen_op" where
  "acpigen_write_CST_package_entry cstate = run [
     acpigen_write_package 4,
     acpigen_write_resourcetemplate_header,
     acpigen_write_register (cs_resource cstate),
     acpigen_write_resourcetemplate_footer,
     acpigen_write_dword (ucast (ctype cstate)),
     acpigen_write_dword (ucast (cs_latency cstate)),
     acpigen_write_dword (cs_power cstate),
     acpigen_pop_len]"

definition acpigen_write_CST_package :: "acpi_cstate list \<Rightarrow> gen_op" where
  "acpigen_write_CST_package cstates = run (
     [acpigen_write_name (str ''_CST''),
      acpigen_write_package (word_of_nat (length cstates) + 1),
      acpigen_write_dword (word_of_nat (length cstates))] @
     map acpigen_write_CST_package_entry cstates @
     [acpigen_pop_len])"

definition acpigen_write_CSD_package :: "u32 \<Rightarrow> u32 \<Rightarrow> u32 \<Rightarrow> u32 \<Rightarrow> gen_op" where
  "acpigen_write_CSD_package domain numprocs coordtype idx = run [
     acpigen_write_name (str ''_CSD''),
     acpigen_write_package 1,
     acpigen_write_package 6,
     acpigen_write_byte 6,
     acpigen_write_byte 0,
     acpigen_write_dword domain,
     acpigen_write_dword coordtype,
     acpigen_write_dword numprocs,
     acpigen_write_dword idx,
     acpigen_pop_len,
     acpigen_pop_len]"

record acpi_tstate =
  ts_percent :: u32
  ts_power :: u32
  ts_latency :: u32
  ts_control :: u32
  ts_status :: u32

definition tstate_package :: "acpi_tstate \<Rightarrow> gen_op" where
  "tstate_package tstate = run [
     acpigen_write_package 5,
     acpigen_write_dword (ts_percent tstate),
     acpigen_write_dword (ts_power tstate),
     acpigen_write_dword (ts_latency tstate),
     acpigen_write_dword (ts_control tstate),
     acpigen_write_dword (ts_status tstate),
     acpigen_pop_len]"

definition acpigen_write_TSS_package :: "acpi_tstate list \<Rightarrow> gen_op" where
  "acpigen_write_TSS_package tstate_list = run (
     [acpigen_write_name (str ''_TSS''),
      acpigen_write_package (word_of_nat (length tstate_list))] @
     map tstate_package tstate_list @
     [acpigen_pop_len])"

definition acpigen_write_TSD_package :: "u32 \<Rightarrow> u32 \<Rightarrow> u32 \<Rightarrow> gen_op" where
  "acpigen_write_TSD_package domain numprocs coordtype = run [
     acpigen_write_name (str ''_TSD''),
     acpigen_write_package 1,
     acpigen_write_package 5,
     acpigen_write_byte 5,
     acpigen_write_byte 0,
     acpigen_write_dword domain,
     acpigen_write_dword coordtype,
     acpigen_write_dword numprocs,
     acpigen_pop_len,
     acpigen_pop_len]"

text \<open>\<open>char\<close> is signed: the difference is taken in \<open>int\<close>.\<close>

definition hex2bin :: "u8 \<Rightarrow> u32" where
  "hex2bin c =
     (if c \<ge> 0x41 \<and> c \<le> 0x46 then scast c - 0x41 + 10
      else if c \<ge> 0x61 \<and> c \<le> 0x66 then scast c - 0x61 + 10
      else scast c - 0x30)"

text \<open>The argument has at least seven characters; the terminator ends it.\<close>

definition eisaid_compact :: "cstr \<Rightarrow> u32" where
  "eisaid_compact eisaid =
     (let letter = (\<lambda>i. scast (eisaid ! i) - 0x41 + 1)
      in push_bit 26 (letter 0) OR push_bit 21 (letter 1) OR push_bit 16 (letter 2) OR
         push_bit 12 (hex2bin (eisaid ! 3)) OR push_bit 8 (hex2bin (eisaid ! 4)) OR
         push_bit 4 (hex2bin (eisaid ! 5)) OR hex2bin (eisaid ! 6))"

definition acpigen_emit_eisaid :: "cstr \<Rightarrow> gen_op" where
  "acpigen_emit_eisaid eisaid =
     (let compact = eisaid_compact eisaid
      in run [
        acpigen_emit_byte 0xc,
        acpigen_emit_byte (ucast (drop_bit 24 compact AND 0xff)),
        acpigen_emit_byte (ucast (drop_bit 16 compact AND 0xff)),
        acpigen_emit_byte (ucast (drop_bit 8 compact AND 0xff)),
        acpigen_emit_byte (ucast (compact AND 0xff))])"

definition isdigit :: "u8 \<Rightarrow> bool" where
  "isdigit c \<longleftrightarrow> c \<ge> 0x30 \<and> c \<le> 0x39"

definition isxdigit :: "u8 \<Rightarrow> bool" where
  "isxdigit c \<longleftrightarrow> c \<ge> 0x30 \<and> c \<le> 0x39 \<or> c \<ge> 0x61 \<and> c \<le> 0x66 \<or> c \<ge> 0x41 \<and> c \<le> 0x46"

definition tolower :: "u8 \<Rightarrow> u8" where
  "tolower c = (if c \<ge> 0x41 \<and> c \<le> 0x5A then c - (0x41 - 0x61) else c)"

text \<open>
  \<open>hexstrtobin\<close>: the bytes written to \<open>buf\<close>, whose number it returns. \<open>count\<close> tells
  whether a first digit is waiting in \<open>byte\<close>.
\<close>

fun hexstrtobin_loop :: "cstr \<Rightarrow> nat \<Rightarrow> u8 \<Rightarrow> nat \<Rightarrow> u8 list \<Rightarrow> u8 list" where
  "hexstrtobin_loop [] len byte count buf = buf"
| "hexstrtobin_loop (c # rest) len byte count buf =
     (if \<not> isxdigit c then hexstrtobin_loop rest len byte count buf
      else (let v = (if isdigit c then c - 0x30 else tolower c - 0x61 + 10);
                byte' = push_bit 4 byte OR v
            in if count + 1 > 1
               then (if length buf \<ge> len then buf
                     else hexstrtobin_loop rest len 0 0 (buf @ [byte']))
               else hexstrtobin_loop rest len byte' (count + 1) buf))"

definition hexstrtobin :: "cstr \<Rightarrow> nat \<Rightarrow> u8 list" where
  "hexstrtobin s len = hexstrtobin_loop s len 0 0 []"

definition uuid_order :: "nat list" where
  "uuid_order = [3, 2, 1, 0, 5, 4, 7, 6, 8, 9, 10, 11, 12, 13, 14, 15]"

definition acpigen_write_uuid :: "cstr \<Rightarrow> gen_op" where
  "acpigen_write_uuid uuid =
     (let buf = hexstrtobin uuid 16
      in if length buf < 16 then run []
         else run [
           acpigen_emit_byte BUFFER_OP,
           acpigen_write_len_f,
           acpigen_write_word 16,
           acpigen_emit_stream (map (\<lambda>i. buf ! i) uuid_order),
           acpigen_pop_len])"

definition acpigen_write_power_res :: "cstr \<Rightarrow> u8 \<Rightarrow> u16 \<Rightarrow> cstr list \<Rightarrow> gen_op" where
  "acpigen_write_power_res name level order dev_states = run (
     map (\<lambda>dev_state. run [
        acpigen_write_name dev_state,
        acpigen_write_package 1,
        acpigen_emit_simple_namestring name,
        acpigen_pop_len]) dev_states @
     [acpigen_emit_ext_op POWER_RES_OP,
      acpigen_write_len_f,
      acpigen_emit_simple_namestring name,
      acpigen_emit_byte level,
      acpigen_emit_word (ucast order)])"

section \<open>Statements and device-specific methods\<close>

definition acpigen_write_sleep :: "u64 \<Rightarrow> gen_op" where
  "acpigen_write_sleep sleep_ms = run [acpigen_emit_ext_op SLEEP_OP, acpigen_write_integer sleep_ms]"

definition acpigen_write_store :: gen_op where
  "acpigen_write_store = acpigen_emit_byte STORE_OP"

definition acpigen_write_store_ops :: "u8 \<Rightarrow> u8 \<Rightarrow> gen_op" where
  "acpigen_write_store_ops src dst = run [acpigen_write_store, acpigen_emit_byte src, acpigen_emit_byte dst]"

definition acpigen_write_or :: "u8 \<Rightarrow> u8 \<Rightarrow> u8 \<Rightarrow> gen_op" where
  "acpigen_write_or arg1 arg2 res =
     run [acpigen_emit_byte OR_OP, acpigen_emit_byte arg1, acpigen_emit_byte arg2, acpigen_emit_byte res]"

definition acpigen_write_and :: "u8 \<Rightarrow> u8 \<Rightarrow> u8 \<Rightarrow> gen_op" where
  "acpigen_write_and arg1 arg2 res =
     run [acpigen_emit_byte AND_OP, acpigen_emit_byte arg1, acpigen_emit_byte arg2, acpigen_emit_byte res]"

definition acpigen_write_not :: "u8 \<Rightarrow> u8 \<Rightarrow> gen_op" where
  "acpigen_write_not arg res = run [acpigen_emit_byte NOT_OP, acpigen_emit_byte arg, acpigen_emit_byte res]"

definition acpigen_write_debug_string :: "cstr option \<Rightarrow> gen_op" where
  "acpigen_write_debug_string string =
     run [acpigen_write_store, acpigen_write_string string, acpigen_emit_ext_op DEBUG_OP]"

definition acpigen_write_debug_integer :: "u64 \<Rightarrow> gen_op" where
  "acpigen_write_debug_integer val =
     run [acpigen_write_store, acpigen_write_integer val, acpigen_emit_ext_op DEBUG_OP]"

definition acpigen_write_debug_op :: "u8 \<Rightarrow> gen_op" where
  "acpigen_write_debug_op opc =
     run [acpigen_write_store, acpigen_emit_byte opc, acpigen_emit_ext_op DEBUG_OP]"

definition acpigen_write_if :: gen_op where
  "acpigen_write_if = run [acpigen_emit_byte IF_OP, acpigen_write_len_f]"

definition acpigen_write_if_and :: "u8 \<Rightarrow> u8 \<Rightarrow> gen_op" where
  "acpigen_write_if_and arg1 arg2 =
     run [acpigen_write_if, acpigen_emit_byte AND_OP, acpigen_emit_byte arg1, acpigen_emit_byte arg2]"

definition acpigen_write_if_lequal_op_int :: "u8 \<Rightarrow> u64 \<Rightarrow> gen_op" where
  "acpigen_write_if_lequal_op_int opc val =
     run [acpigen_write_if, acpigen_emit_byte LEQUAL_OP, acpigen_emit_byte opc, acpigen_write_integer val]"

definition acpigen_write_else :: gen_op where
  "acpigen_write_else = run [acpigen_emit_byte ELSE_OP, acpigen_write_len_f]"

definition acpigen_write_to_buffer :: "u8 \<Rightarrow> u8 \<Rightarrow> gen_op" where
  "acpigen_write_to_buffer src dst =
     run [acpigen_emit_byte TO_BUFFER_OP, acpigen_emit_byte src, acpigen_emit_byte dst]"

definition acpigen_write_to_integer :: "u8 \<Rightarrow> u8 \<Rightarrow> gen_op" where
  "acpigen_write_to_integer src dst =
     run [acpigen_emit_byte TO_INTEGER_OP, acpigen_emit_byte src, acpigen_emit_byte dst]"

text \<open>The size is the length of the array, below 256.\<close>

definition acpigen_write_byte_buffer :: "u8 list \<Rightarrow> gen_op" where
  "acpigen_write_byte_buffer arr = run [
     acpigen_emit_byte BUFFER_OP,
     acpigen_write_len_f,
     acpigen_write_byte (word_of_nat (length arr)),
     acpigen_emit_stream arr,
     acpigen_pop_len]"

definition acpigen_write_return_byte_buffer :: "u8 list \<Rightarrow> gen_op" where
  "acpigen_write_return_byte_buffer arr = run [acpigen_emit_byte RETURN_OP, acpigen_write_byte_buffer arr]"

definition acpigen_write_return_singleton_buffer :: "u8 \<Rightarrow> gen_op" where
  "acpigen_write_return_singleton_buffer arg = acpigen_write_return_byte_buffer [arg]"

definition acpigen_write_return_byte :: "u8 \<Rightarrow> gen_op" where
  "acpigen_write_return_byte arg = run [acpigen_emit_byte RETURN_OP, acpigen_write_byte (ucast arg)]"

definition acpigen_write_return_integer :: "u64 \<Rightarrow> gen_op" where
  "acpigen_write_return_integer arg = run [acpigen_emit_byte RETURN_OP, acpigen_write_integer arg]"

definition acpigen_write_return_string :: "cstr option \<Rightarrow> gen_op" where
  "acpigen_write_return_string arg = run [acpigen_emit_byte RETURN_OP, acpigen_write_string arg]"

text \<open>A callback is an operation, applied to its argument; it may be absent.\<close>

record dsm_uuid =
  dsm_id :: cstr
  callbacks :: "gen_op option list"

definition dsm_function :: "nat \<Rightarrow> gen_op option \<Rightarrow> gen_op" where
  "dsm_function i callback = run [
     acpigen_write_if_lequal_op_int LOCAL1_OP (word_of_nat i),
     (case callback of None \<Rightarrow> run [] | Some f \<Rightarrow> f),
     acpigen_pop_len]"

definition acpigen_write_dsm_uuid :: "dsm_uuid \<Rightarrow> gen_op" where
  "acpigen_write_dsm_uuid dsm = run (
     [acpigen_write_if,
      acpigen_emit_byte LEQUAL_OP,
      acpigen_emit_byte LOCAL0_OP,
      acpigen_write_uuid (dsm_id dsm),
      acpigen_write_to_integer ARG2_OP LOCAL1_OP] @
     map (\<lambda>(i, f). dsm_function i f) (enumerate 0 (callbacks dsm)) @
     [acpigen_write_return_singleton_buffer 0x0,
      acpigen_pop_len])"

definition acpigen_write_dsm_uuid_arr :: "dsm_uuid list \<Rightarrow> gen_op" where
  "acpigen_write_dsm_uuid_arr ids = run (
     [acpigen_write_method_serialized (str ''_DSM'') 0x4,
      acpigen_write_to_buffer ARG0_OP LOCAL0_OP] @
     map acpigen_write_dsm_uuid ids @
     [acpigen_write_return_singleton_buffer 0x0,
      acpigen_pop_len])"

definition acpigen_write_dsm :: "cstr \<Rightarrow> gen_op option list \<Rightarrow> gen_op" where
  "acpigen_write_dsm uuid cbs = acpigen_write_dsm_uuid_arr [\<lparr>dsm_id = uuid, callbacks = cbs\<rparr>]"

text \<open>The weak default implementations of the GPIO hooks.\<close>

definition acpigen_soc_read_rx_gpio :: "u32 \<Rightarrow> acpigen \<Rightarrow> int \<times> acpigen option" where
  "acpigen_soc_read_rx_gpio gpio_num s =
     (- 1, acpigen_write_debug_string (Some (str ''read_rx_gpio not available'')) s)"

definition acpigen_soc_get_tx_gpio :: "u32 \<Rightarrow> acpigen \<Rightarrow> int \<times> acpigen option" where
  "acpigen_soc_get_tx_gpio gpio_num s =
     (- 1, acpigen_write_debug_string (Some (str ''get_tx_gpio not available'')) s)"

definition acpigen_soc_set_tx_gpio :: "u32 \<Rightarrow> acpigen \<Rightarrow> int \<times> acpigen option" where
  "acpigen_soc_set_tx_gpio gpio_num s =
     (- 1, acpigen_write_debug_string (Some (str ''set_tx_gpio not available'')) s)"

definition acpigen_soc_clear_tx_gpio :: "u32 \<Rightarrow> acpigen \<Rightarrow> int \<times> acpigen option" where
  "acpigen_soc_clear_tx_gpio gpio_num s =
     (- 1, acpigen_write_debug_string (Some (str ''clear_tx_gpio not available'')) s)"

end
