(* ===== verification/Acpigen_Spec.thy ===== *)
theory Acpigen_Spec
  imports Acpigen
begin

text \<open>
  What the generator of \<open>Acpigen\<close> writes. \<open>produces d f bs\<close> says that the operation \<open>f\<close>,
  started with \<open>d\<close> free places on \<open>len_stack\<close>, succeeds and writes exactly the bytes \<open>bs\<close>
  at the write pointer, with the stack as it was: the intermediate zeros and the patching
  of the length fields do not show. The bytes are then read back by decoders written from
  the encoding of the ACPI specification (package lengths, integers, names, resource
  descriptors).
\<close>

section \<open>Little-endian bytes\<close>

primrec le_bytes :: "nat \<Rightarrow> nat \<Rightarrow> u8 list" where
  "le_bytes 0 n = []"
| "le_bytes (Suc k) n = word_of_nat n # le_bytes k (n div 256)"

primrec le_nat :: "u8 list \<Rightarrow> nat" where
  "le_nat [] = 0"
| "le_nat (b # bs) = unat b + 256 * le_nat bs"

lemma length_le_bytes [simp]: "length (le_bytes k n) = k"
  by (induction k arbitrary: n) simp_all

lemma le_bytes_2: "le_bytes 2 n = [word_of_nat n, word_of_nat (n div 256)]"
  by (simp add: numeral_2_eq_2)

lemma le_bytes_4: "le_bytes 4 n =
  [word_of_nat n, word_of_nat (n div 256), word_of_nat (n div 65536), word_of_nat (n div 16777216)]"
proof -
  have "4 = Suc (Suc (Suc (Suc 0)))" by simp
  then show ?thesis by (simp only: le_bytes.simps div_mult2_eq [symmetric]) simp
qed

lemma unat_u8_of_nat: "unat (word_of_nat n :: u8) = n mod 256"
  by (simp add: unat_of_nat)

lemma le_nat_le_bytes: "le_nat (le_bytes k n) = n mod 256 ^ k"
proof (induction k arbitrary: n)
  case (Suc k)
  have "n mod 256 + 256 * (n div 256 mod 256 ^ k) = n mod (256 * 256 ^ k)"
    by (simp add: mod_mult2_eq)
  with Suc show ?case by (simp add: unat_u8_of_nat)
qed simp

lemma byte_of_word: "ucast (x AND 0xff) = (word_of_nat (unat x) :: u8)" for x :: "'a::len word"
proof -
  have "x AND 0xff = take_bit 8 x" by (simp add: take_bit_eq_mask mask_eq_exp_minus_1)
  then have "ucast (x AND 0xff) = (ucast x :: u8)"
    by (auto intro!: bit_eqI simp: bit_simps dest: bit_imp_le_length)
  then show ?thesis by (simp add: of_nat_unat)
qed

lemma unat_drop_bit_word: "unat (drop_bit k x) = unat x div 2 ^ k" for x :: "'a::len word"
  unfolding unat_drop_bit_eq by (simp add: drop_bit_eq_div)

lemma byte_of_drop_bit:
  "ucast (drop_bit k x AND 0xff) = (word_of_nat (unat x div 2 ^ k) :: u8)" for x :: "'a::len word"
  by (simp add: byte_of_word unat_drop_bit_word)

section \<open>Writing and patching\<close>

lemma mem_write_patch:
  assumes "length new = length old" "length old + length bs \<le> 4294967296"
  shows "mem_write (mem_write m p (old @ bs)) p new = mem_write m p (new @ bs)"
  using assms by (auto simp: fun_eq_iff mem_write_apply nth_append)

declare run.simps [simp del]

definition emitted :: "u8 list \<Rightarrow> acpigen \<Rightarrow> acpigen" where
  "emitted bs s = s\<lparr>amem := mem_write (amem s) (gencurrent s) bs,
     gencurrent := gencurrent s + word_of_nat (length bs)\<rparr>"

lemma emitted_Nil [simp]: "emitted [] s = s"
  by (simp add: emitted_def)

lemma emitted_emitted [simp]: "emitted ys (emitted xs s) = emitted (xs @ ys) s"
  by (simp add: emitted_def mem_write_append ac_simps)

lemma emitted_simps [simp]:
  "len_stack (emitted bs s) = len_stack s"
  "gencurrent (emitted bs s) = gencurrent s + word_of_nat (length bs)"
  "emitted bs (s\<lparr>len_stack := st\<rparr>) = (emitted bs s)\<lparr>len_stack := st\<rparr>"
  by (simp_all add: emitted_def)

definition produces :: "nat \<Rightarrow> gen_op \<Rightarrow> u8 list \<Rightarrow> bool" where
  "produces d f bs \<longleftrightarrow>
     (\<forall>s. length (len_stack s) + d \<le> ACPIGEN_LENSTACK_SIZE \<longrightarrow> f s = Some (emitted bs s))"

lemma producesD:
  "produces d f bs \<Longrightarrow> length (len_stack s) + d \<le> ACPIGEN_LENSTACK_SIZE \<Longrightarrow> f s = Some (emitted bs s)"
  by (simp add: produces_def)

lemma produces_mono: "produces d f bs \<Longrightarrow> d \<le> e \<Longrightarrow> produces e f bs"
  by (simp add: produces_def)

lemma produces_emit_byte [simp, intro]: "produces d (acpigen_emit_byte b) [b]"
  by (simp add: produces_def acpigen_emit_byte_def emitted_def)

lemma produces_run_Nil [simp, intro]: "produces d (run []) []"
  by (simp add: produces_def run.simps)

lemma produces_run_Cons [intro]:
  "produces d f bs \<Longrightarrow> produces d (run fs) cs \<Longrightarrow> produces d (run (f # fs)) (bs @ cs)"
  by (simp add: produces_def run.simps)

lemma run_append: "run (fs @ gs) s = (case run fs s of None \<Rightarrow> None | Some s' \<Rightarrow> run gs s')"
  by (induction fs arbitrary: s) (simp_all add: run.simps split: option.splits)

lemma run_appendI: "run fs s = Some s1 \<Longrightarrow> run gs s1 = r \<Longrightarrow> run (fs @ gs) s = r"
  by (simp add: run_append)

lemma produces_run_append:
  "produces d (run fs) bs \<Longrightarrow> produces d (run gs) cs \<Longrightarrow> produces d (run (fs @ gs)) (bs @ cs)"
  by (simp add: produces_def run_append)

lemma produces_run_all:
  "list_all2 (produces d) fs bss \<Longrightarrow> produces d (run fs) (concat bss)"
  by (induction rule: list_all2_induct) auto

text \<open>A sequence whose parts are known, with the bytes to be matched at the end.\<close>

lemma produces_seq:
  "list_all2 (produces d) fs bss \<Longrightarrow> bs = concat bss \<Longrightarrow> produces d (run fs) bs"
  by (simp add: produces_run_all)

lemma produces_emit_stream [simp, intro]: "produces d (acpigen_emit_stream bs) bs"
  unfolding acpigen_emit_stream_def
  by (rule produces_seq [where bss = "map (\<lambda>b. [b]) bs"]) (simp_all add: list_all2_conv_all_nth)

section \<open>Integers\<close>

named_theorems emits \<open>what the operations write\<close>

declare produces_emit_byte [emits] produces_emit_stream [emits]
  produces_run_Nil [emits] produces_run_Cons [emits]

text \<open>The bytes found by resolution with \<open>emits\<close>, then compared.\<close>

lemma produces_eq: "produces d f bs \<Longrightarrow> bs = cs \<Longrightarrow> produces d f cs"
  by simp

lemma produces_emit_word [emits]: "produces d (acpigen_emit_word x) (le_bytes 2 (unat x))"
  unfolding acpigen_emit_word_def
  by (rule produces_eq, (rule emits)+) (simp add: byte_of_word unat_drop_bit_word le_bytes_2 del: of_nat_unat)

lemma produces_emit_dword [emits]: "produces d (acpigen_emit_dword x) (le_bytes 4 (unat x))"
  unfolding acpigen_emit_dword_def
  by (rule produces_eq, (rule emits)+)
    (simp add: byte_of_word unat_drop_bit_word le_bytes_4 del: of_nat_unat)

lemma produces_emit_ext_op [emits]: "produces d (acpigen_emit_ext_op b) [EXT_OP_PREFIX, b]"
  unfolding acpigen_emit_ext_op_def by (rule produces_eq, (rule emits)+) simp

lemma produces_write_byte [emits]: "produces d (acpigen_write_byte x) [BYTE_PREFIX, ucast x]"
  unfolding acpigen_write_byte_def by (rule produces_eq, (rule emits)+) (simp add: byte_of_word)

lemma produces_write_word [emits]: "produces d (acpigen_write_word x) (WORD_PREFIX # le_bytes 2 (unat x))"
  unfolding acpigen_write_word_def by (rule produces_eq, (rule emits)+) simp

lemma produces_write_dword [emits]: "produces d (acpigen_write_dword x) (DWORD_PREFIX # le_bytes 4 (unat x))"
  unfolding acpigen_write_dword_def by (rule produces_eq, (rule emits)+) simp

lemma le_bytes_append: "le_bytes (j + k) n = le_bytes j n @ le_bytes k (n div 256 ^ j)"
  by (induction j arbitrary: n) (simp_all add: div_mult2_eq)

lemma le_bytes_mod: "le_bytes k (n mod 256 ^ k) = le_bytes k n"
proof (induction k arbitrary: n)
  case (Suc k)
  have "(word_of_nat (n mod (256 * 256 ^ k)) :: u8) = word_of_nat n"
    by (simp add: word_unat_eq_iff unat_u8_of_nat mod_mod_cancel)
  moreover have "n mod (256 * 256 ^ k) div 256 = n div 256 mod 256 ^ k"
    by (simp add: mod_mult2_eq)
  ultimately show ?case using Suc by simp
qed simp

lemma produces_write_qword [emits]: "produces d (acpigen_write_qword x) (QWORD_PREFIX # le_bytes 8 (unat x))"
proof -
  have m: "(0xffffffff :: u64) = mask 32" by (simp add: mask_eq_exp_minus_1)
  have lo: "unat (ucast (x AND 0xffffffff) :: u32) = unat x mod 4294967296"
    unfolding m take_bit_eq_mask [symmetric] unsigned_ucast_eq unat_take_bit_word
    by (simp add: take_bit_eq_mod)
  have hi: "unat (ucast (drop_bit 32 x AND 0xffffffff) :: u32) = unat x div 4294967296 mod 4294967296"
    unfolding m take_bit_eq_mask [symmetric] unsigned_ucast_eq unat_take_bit_word unat_drop_bit_word
    by (simp add: take_bit_eq_mod)
  have "le_bytes 8 (unat x) = le_bytes 4 (unat x) @ le_bytes 4 (unat x div 4294967296)"
    using le_bytes_append [of 4 4 "unat x"] by simp
  moreover have "le_bytes 4 (n mod 4294967296) = le_bytes 4 n" for n
    using le_bytes_mod [of 4 n] by simp
  ultimately show ?thesis unfolding acpigen_write_qword_def
    by - (rule produces_eq, (rule emits)+, simp add: lo hi)
qed

text \<open>The bytes of an integer: the shortest prefix that holds it.\<close>

definition integer_bytes :: "u64 \<Rightarrow> u8 list" where
  "integer_bytes n =
     (if n = 0 then [ZERO_OP] else if n = 1 then [ONE_OP]
      else if unat n \<le> 0xff then BYTE_PREFIX # le_bytes 1 (unat n)
      else if unat n \<le> 0xffff then WORD_PREFIX # le_bytes 2 (unat n)
      else if unat n \<le> 0xffffffff then DWORD_PREFIX # le_bytes 4 (unat n)
      else QWORD_PREFIX # le_bytes 8 (unat n))"

lemma produces_write_integer [emits]: "produces d (acpigen_write_integer n) (integer_bytes n)"
proof -
  have le: "n \<le> 0xff \<longleftrightarrow> unat n \<le> 0xff" "n \<le> 0xffff \<longleftrightarrow> unat n \<le> 0xffff"
    "n \<le> 0xffffffff \<longleftrightarrow> unat n \<le> 0xffffffff"
    by (simp_all add: word_le_nat_alt)
  have "produces d (acpigen_write_byte (ucast (ucast n :: u8))) (BYTE_PREFIX # le_bytes 1 (unat n))"
    by (rule produces_eq, rule emits) (auto intro!: bit_eqI simp: bit_simps)
  moreover have "produces d (acpigen_write_word (ucast n)) (WORD_PREFIX # le_bytes 2 (unat n))"
    if "unat n \<le> 0xffff"
    using that by - (rule produces_eq, rule emits, simp add: unat_ucast_small)
  moreover have "produces d (acpigen_write_dword (ucast n)) (DWORD_PREFIX # le_bytes 4 (unat n))"
    if "unat n \<le> 0xffffffff"
    using that by - (rule produces_eq, rule emits, simp add: unat_ucast_small)
  ultimately show ?thesis
    using produces_write_qword [of d n] le
    by (simp add: acpigen_write_integer_def integer_bytes_def acpigen_write_zero_def acpigen_write_one_def)
qed

section \<open>Blocks with a length\<close>

definition pkg_length :: "nat \<Rightarrow> u8 list" where
  "pkg_length n = [word_of_nat (0x80 + n mod 16), word_of_nat (n div 16), word_of_nat (n div 4096)]"

lemma length_pkg_length [simp]: "length (pkg_length n) = 3"
  by (simp add: pkg_length_def)

lemma sint_small_word: "n < 2147483648 \<Longrightarrow> sint (word_of_nat n :: 32 word) = int n"
  by (simp add: signed_of_nat signed_take_bit_int_eq_self)

lemma low_nibble: "(word_of_nat n AND 0xf :: u32) = word_of_nat (n mod 16)"
proof -
  have "(0xf :: u32) = mask 4" by (simp add: mask_eq_exp_minus_1)
  then have "(word_of_nat n AND 0xf :: u32) = take_bit 4 (word_of_nat n)"
    by (simp add: take_bit_eq_mask)
  also have "\<dots> = word_of_nat (take_bit 4 n)" by (simp add: take_bit_of_nat)
  also have "take_bit 4 n = n mod 16" by (simp add: take_bit_eq_mod)
  finally show ?thesis .
qed

lemma lead_byte: "k < 16 \<Longrightarrow> ucast (0x80 OR word_of_nat k :: u32) = (word_of_nat (0x80 + k) :: u8)"
proof -
  have "\<forall>k \<in> set [0..<16]. ucast (0x80 OR word_of_nat k :: u32) = (word_of_nat (0x80 + k) :: u8)"
    by code_simp
  then show "k < 16 \<Longrightarrow> ?thesis" by simp
qed

lemma mem_write_3: "m(p := a, p + 1 := b, p + 2 := c) = mem_write m p [a, b, c]"
  by (simp add: ac_simps)

lemma pop_len_patches:
  assumes "len_stack s = p # st" "gencurrent s = p + word_of_nat n" "n \<le> 0xfffff"
  shows "acpigen_pop_len s = Some (s\<lparr>len_stack := st, amem := mem_write (amem s) p (pkg_length n)\<rparr>)"
proof -
  have "unat (word_of_nat n :: u32) = n" using assms(3) by (simp add: unat_of_nat_u32)
  with assms show ?thesis
    by (simp add: acpigen_pop_len_def sint_small_word ACPIGEN_MAXLEN_def mem_write_3 pkg_length_def
        low_nibble lead_byte byte_of_word unat_drop_bit_word del: of_nat_unat)
qed

text \<open>
  An operation that opens a block writes \<open>hdr\<close>, reserves three bytes whose place it pushes
  on the stack, and writes \<open>pre\<close>. Whatever is written up to the matching
  \<open>acpigen_pop_len\<close>, the reserved bytes end up holding the length of the block, and the
  stack is as before.
\<close>

definition opened :: "u8 list \<Rightarrow> u8 list \<Rightarrow> acpigen \<Rightarrow> acpigen" where
  "opened hdr pre s = (emitted (hdr @ [0, 0, 0] @ pre) s)
     \<lparr>len_stack := (gencurrent s + word_of_nat (length hdr)) # len_stack s\<rparr>"

lemma pop_len_opened:
  assumes "length hdr \<le> 16" "3 + length pre \<le> 0xfffff"
  shows "acpigen_pop_len (opened hdr pre s) = Some (emitted (hdr @ pkg_length (3 + length pre) @ pre) s)"
proof -
  let ?p = "gencurrent s + word_of_nat (length hdr)"
  have "acpigen_pop_len (opened hdr pre s) = Some ((opened hdr pre s)
    \<lparr>len_stack := len_stack s,
     amem := mem_write (amem (opened hdr pre s)) ?p (pkg_length (3 + length pre))\<rparr>)"
    using assms(2) by (intro pop_len_patches) (simp_all add: opened_def)
  moreover have "mem_write (amem (opened hdr pre s)) ?p (pkg_length (3 + length pre)) =
    mem_write (amem s) (gencurrent s) (hdr @ pkg_length (3 + length pre) @ pre)"
    unfolding opened_def emitted_def
    using mem_write_patch [of "pkg_length (3 + length pre)" "[0, 0, 0]" pre] assms(2)
    by (simp add: mem_write_append)
  ultimately show ?thesis by (simp add: opened_def emitted_def)
qed

locale aml_block =
  fixes opn :: gen_op and hdr pre :: "u8 list"
  assumes opens: "length (len_stack (s :: acpigen)) + 2 \<le> ACPIGEN_LENSTACK_SIZE \<Longrightarrow> opn s = Some (opened hdr pre s)"
    and short_header: "length hdr \<le> 16"
begin

theorem block:
  assumes "produces d (run fs) bs" "3 + length pre + length bs \<le> 0xfffff"
  shows "produces (max 2 (Suc d)) (run (opn # fs @ [acpigen_pop_len]))
    (hdr @ pkg_length (3 + length pre + length bs) @ pre @ bs)"
  unfolding produces_def
proof (intro allI impI)
  fix s :: acpigen assume room: "length (len_stack s) + max 2 (Suc d) \<le> ACPIGEN_LENSTACK_SIZE"
  then have "opn s = Some (opened hdr pre s)" by (intro opens) simp
  moreover have "run fs (opened hdr pre s) = Some (emitted bs (opened hdr pre s))"
    using room by (intro producesD [OF assms(1)]) (simp add: opened_def)
  moreover have "emitted bs (opened hdr pre s) = opened hdr (pre @ bs) s"
    by (simp add: opened_def)
  moreover have "acpigen_pop_len (opened hdr (pre @ bs) s) =
    Some (emitted (hdr @ pkg_length (3 + length (pre @ bs)) @ pre @ bs) s)"
    using assms(2) short_header by (intro pop_len_opened) simp_all
  ultimately show "run (opn # fs @ [acpigen_pop_len]) s =
    Some (emitted (hdr @ pkg_length (3 + length pre + length bs) @ pre @ bs) s)"
    by (simp add: run.simps run_append add.assoc)
qed

end

lemma write_len_f_opened:
  "length (len_stack s) + 2 \<le> ACPIGEN_LENSTACK_SIZE \<Longrightarrow> acpigen_write_len_f s = Some (opened [] [] s)"
  by (simp add: acpigen_write_len_f_def opened_def emitted_def run.simps acpigen_emit_byte_def)

lemma opened_emitted: "opened hdr pre (emitted bs s) = opened (bs @ hdr) pre s"
  by (simp add: opened_def add.assoc)

lemma emitted_opened: "emitted bs (opened hdr pre s) = opened hdr (pre @ bs) s"
  by (simp add: opened_def)

text \<open>The operations that open a block: a header, the length, a prefix.\<close>

lemma opens_seq:
  assumes "produces 0 (run hs) hdr" "produces 0 (run ps) pre"
    "length (len_stack s) + 2 \<le> ACPIGEN_LENSTACK_SIZE"
  shows "run (hs @ acpigen_write_len_f # ps) s = Some (opened hdr pre s)"
proof -
  have "run hs s = Some (emitted hdr s)" using assms(3) by (intro producesD [OF assms(1)]) simp
  moreover have "acpigen_write_len_f (emitted hdr s) = Some (opened hdr [] s)"
    using assms(3) by (simp add: write_len_f_opened opened_emitted)
  moreover have "run ps (opened hdr [] s) = Some (emitted pre (opened hdr [] s))"
    using assms(3) by (intro producesD [OF assms(2)]) (simp add: opened_def)
  ultimately show ?thesis by (simp add: run_append run.simps emitted_opened)
qed

interpretation blk: aml_block "run [acpigen_emit_byte b, acpigen_write_len_f]" "[b]" "[]" for b
proof
  fix s :: acpigen assume "length (len_stack s) + 2 \<le> ACPIGEN_LENSTACK_SIZE"
  from opens_seq [OF _ _ this, of "[acpigen_emit_byte b]" "[b]" "[]" "[]"]
  show "run [acpigen_emit_byte b, acpigen_write_len_f] s = Some (opened [b] [] s)"
    using produces_run_Cons [OF produces_emit_byte produces_run_Nil] by simp
qed simp

lemma run_first_two: "run (f # g # fs) = run (run [f, g] # fs)"
  by (auto simp: fun_eq_iff run.simps split: option.splits)

interpretation pkg: aml_block "acpigen_write_package n" "[PACKAGE_OP]" "[ucast n]" for n
proof
  fix s :: acpigen assume "length (len_stack s) + 2 \<le> ACPIGEN_LENSTACK_SIZE"
  from opens_seq [OF _ _ this, of "[acpigen_emit_byte PACKAGE_OP]" _ "[acpigen_emit_byte (ucast n)]"]
  show "acpigen_write_package n s = Some (opened [PACKAGE_OP] [ucast n] s)"
    using produces_run_Cons [OF produces_emit_byte produces_run_Nil]
    by (simp add: acpigen_write_package_def)
qed simp

section \<open>Names\<close>

text \<open>The text of a path is its elements with dots between them.\<close>

fun join :: "cstr list \<Rightarrow> cstr" where
  "join [] = []"
| "join [x] = x"
| "join (x # xs) = x @ 0x2E # join xs"

definition name_char :: "u8 \<Rightarrow> bool" where
  "name_char c \<longleftrightarrow> 0x41 \<le> c \<and> c \<le> 0x5A \<or> c = 0x5F \<or> 0x30 \<le> c \<and> c \<le> 0x39"

definition name_elem :: "cstr \<Rightarrow> bool" where
  "name_elem x \<longleftrightarrow> x \<noteq> [] \<and> length x \<le> 4 \<and> (\<forall>c \<in> set x. name_char c)"

definition pad :: "cstr \<Rightarrow> u8 list" where
  "pad x = x @ replicate (4 - length x) 0x5F"

lemma name_elem_chars:
  assumes "name_elem x" "c \<in> set x"
  shows "c \<noteq> 0x2E" "c \<noteq> 0x5C" "c \<noteq> 0x5E" "c \<noteq> 0x2F" "c \<noteq> 0"
  using assms by (auto simp: name_elem_def name_char_def)

lemma name_elem_nonempty [simp]: "name_elem x \<Longrightarrow> x \<noteq> []"
  by (simp add: name_elem_def)

lemma length_pad [simp]: "name_elem x \<Longrightarrow> length (pad x) = 4"
  by (simp add: pad_def name_elem_def)

lemma join_Cons: "xs \<noteq> [] \<Longrightarrow> join (x # xs) = x @ 0x2E # join xs"
  by (cases xs) simp_all

lemma join_eq_Nil: "\<forall>x \<in> set xs. name_elem x \<Longrightarrow> join xs = [] \<longleftrightarrow> xs = []"
  by (induction xs rule: join.induct) auto

lemma str_underscores: "str ''____'' = replicate 4 0x5F"
  by code_simp

lemma simple_loop_bytes:
  assumes "\<forall>c \<in> set x. c \<noteq> 0x2E" "length x \<le> k" "k \<le> 4" "rest = [] \<or> hd rest = 0x2E"
  shows "produces d (simple_namestring_loop k (x @ rest)) (x @ replicate (k - length x) 0x5F)"
  using assms
proof (induction k arbitrary: x)
  case 0
  then show ?case by simp
next
  case (Suc k)
  then have pad: "produces d (acpigen_emit_stream (take (Suc k) (str ''____''))) (replicate (Suc k) 0x5F)"
    by (intro produces_eq [OF produces_emit_stream]) (simp add: str_underscores)
  show ?case
  proof (cases x)
    case Nil
    with Suc.prems(4) pad show ?thesis by (cases rest) auto
  next
    case (Cons c y)
    with Suc have "produces d (simple_namestring_loop k (y @ rest)) (y @ replicate (k - length y) 0x5F)"
      by auto
    then have "produces d (run [acpigen_emit_byte c, simple_namestring_loop k (y @ rest)])
      ([c] @ (y @ replicate (k - length y) 0x5F) @ [])"
      by (intro produces_run_Cons produces_emit_byte produces_run_Nil)
    with Cons Suc.prems show ?thesis by simp
  qed
qed

lemma produces_simple_namestring:
  assumes "name_elem x" "rest = [] \<or> hd rest = 0x2E"
  shows "produces d (acpigen_emit_simple_namestring (x @ rest)) (pad x)"
  using simple_loop_bytes [of x 4 rest d] assms name_elem_chars(1) [OF assms(1)]
  by (simp add: acpigen_emit_simple_namestring_def pad_def name_elem_def)

lemma produces_simple_join:
  assumes "\<forall>x \<in> set (x # xs). name_elem x"
  shows "produces d (acpigen_emit_simple_namestring (join (x # xs))) (pad x)"
  using produces_simple_namestring [of x "[]"] produces_simple_namestring [of x "0x2E # join xs"] assms
  by (cases xs) simp_all

lemma next_entity_elem: "name_elem x \<Longrightarrow> next_entity (x @ rest) = next_entity rest"
proof -
  have "\<forall>c \<in> set x. c \<noteq> 0x2E \<Longrightarrow> next_entity (x @ rest) = next_entity rest"
    by (induction x) auto
  then show "name_elem x \<Longrightarrow> ?thesis" using name_elem_chars(1) by blast
qed

lemma next_entity_join:
  "\<forall>x \<in> set (x # xs). name_elem x \<Longrightarrow> next_entity (join (x # xs)) = join xs"
  using next_entity_elem [of x "[]"] next_entity_elem [of x "0x2E # join xs"]
  by (cases xs) simp_all

declare multi_namestring_loop.simps [simp del]

lemma multi_loop_join:
  assumes "\<forall>x \<in> set xs. name_elem x" "length (len_stack s) \<le> ACPIGEN_LENSTACK_SIZE"
  shows "multi_namestring_loop (join xs) n s =
    Some (n + length xs, emitted (concat (map pad xs)) s)"
  using assms
proof (induction xs arbitrary: n s)
  case Nil
  then show ?case by (simp add: multi_namestring_loop.simps)
next
  case (Cons x xs)
  have "acpigen_emit_simple_namestring (join (x # xs)) s = Some (emitted (pad x) s)"
    using Cons.prems by (intro producesD [OF produces_simple_join [where d = 0]]) auto
  with Cons show ?case
    by (subst multi_namestring_loop.simps)
      (simp add: join_eq_Nil [of "x # xs", simplified] next_entity_join)
qed

lemma count_dots_elem:
  "\<forall>c \<in> set x. c \<noteq> 0x2E \<Longrightarrow> count_dots (x @ rest) i n p = count_dots rest (i + length x) n p"
  by (induction x arbitrary: i) auto

lemma count_dots_join:
  assumes "\<forall>x \<in> set xs. name_elem x" "xs \<noteq> []"
  shows "fst (count_dots (join xs) i n p) = n + length xs - 1"
    "length xs = 2 \<Longrightarrow> snd (count_dots (join xs) i n p) = i + length (hd xs)"
proof -
  have nodot: "name_elem x \<Longrightarrow> \<forall>c \<in> set x. c \<noteq> 0x2E" for x using name_elem_chars(1) by blast
  have last: "name_elem x \<Longrightarrow> count_dots x i n p = (n, p)" for x i n p
    using count_dots_elem [OF nodot, of x "[]"] by simp
  show "fst (count_dots (join xs) i n p) = n + length xs - 1"
    using assms
  proof (induction xs arbitrary: i n p rule: join.induct)
    case (3 x y ys)
    then show ?case by (simp add: count_dots_elem [OF nodot])
  qed (auto simp: last)
  show "snd (count_dots (join xs) i n p) = i + length (hd xs)" if "length xs = 2"
    using that assms by (cases xs; cases "tl xs") (auto simp: count_dots_elem [OF nodot] last)
qed

definition path_bytes :: "cstr list \<Rightarrow> u8 list" where
  "path_bytes xs =
     (case xs of
        [] \<Rightarrow> [0]
      | [x] \<Rightarrow> pad x
      | [x, y] \<Rightarrow> 0x2E # pad x @ pad y
      | _ \<Rightarrow> 0x2F # word_of_nat (length xs) # concat (map pad xs))"

lemma produces_multi_namestring:
  assumes "\<forall>x \<in> set xs. name_elem x" "length xs < 256"
  shows "produces d (acpigen_emit_multi_namestring (join xs))
    (0x2F # word_of_nat (length xs) # concat (map pad xs))"
  unfolding produces_def
proof (intro allI impI)
  fix s :: acpigen assume "length (len_stack s) + d \<le> ACPIGEN_LENSTACK_SIZE"
  then have loop: "multi_namestring_loop (join xs) 0 (emitted [0x2F, 0] s) =
    Some (length xs, emitted (concat (map pad xs)) (emitted [0x2F, 0] s))"
    using multi_loop_join [OF assms(1), of "emitted [0x2F, 0] s" 0] by simp
  have "length (concat (map pad xs)) = 4 * length xs" using assms(1) by (induction xs) auto
  with assms(2) have "mem_write (mem_write m p ([0] @ concat (map pad xs))) p [word_of_nat (length xs)] =
    mem_write m p ([word_of_nat (length xs)] @ concat (map pad xs))" for m p
    by (intro mem_write_patch) simp_all
  then have patch: "(mem_write (m(p := 0)) (p + 1) (concat (map pad xs)))(p := word_of_nat (length xs)) =
    mem_write (m(p := word_of_nat (length xs))) (p + 1) (concat (map pad xs))" for m p
    by simp
  have "run [acpigen_emit_byte MULTI_NAME_PREFIX, acpigen_emit_byte ZERO_OP] s = Some (emitted [0x2F, 0] s)"
    by (simp add: run.simps acpigen_emit_byte_def emitted_def MULTI_NAME_PREFIX_def ZERO_OP_def)
  with loop show "acpigen_emit_multi_namestring (join xs) s =
    Some (emitted (0x2F # word_of_nat (length xs) # concat (map pad xs)) s)"
    by (simp add: acpigen_emit_multi_namestring_def acpigen_get_current_def)
      (use patch [of "(amem s)(gencurrent s := 0x2F)" "gencurrent s + 1"] in
        \<open>simp add: emitted_def ac_simps\<close>)
qed

lemma produces_emit_path:
  assumes "\<forall>x \<in> set xs. name_elem x" "length xs < 256"
  shows "produces d (emit_path (join xs)) (path_bytes xs)"
proof -
  consider "xs = []" | x where "xs = [x]" | x y where "xs = [x, y]" | "2 < length xs"
    by (cases xs; cases "tl xs"; cases "tl (tl xs)") auto
  then show ?thesis
  proof cases
    case 1
    then show ?thesis by (simp add: emit_path_def path_bytes_def ZERO_OP_def)
  next
    case (2 x)
    with assms count_dots_join(1) [of "[x]" 0 0 0] show ?thesis
      using produces_simple_join [of x "[]" d]
      by (cases "count_dots x 0 0 0") (simp add: emit_path_def path_bytes_def)
  next
    case (3 x y)
    with assms have xy: "name_elem x" "name_elem y" by simp_all
    with count_dots_join [of "[x, y]" 0 0 0] have cd: "count_dots (join xs) 0 0 0 = (1, length x)"
      using 3 by (cases "count_dots (join xs) 0 0 0") simp
    have "produces d (acpigen_emit_double_namestring (join xs) (length x)) (path_bytes xs)"
      unfolding acpigen_emit_double_namestring_def 3
      using produces_simple_join [of x "[y]" d] produces_simple_join [of y "[]" d] xy
      by (intro produces_eq [OF produces_run_Cons [OF _ produces_run_Cons [OF _ produces_run_Cons]]] produces_emit_byte produces_run_Nil)
        (auto simp: path_bytes_def DUAL_NAME_PREFIX_def)
    with 3 cd show ?thesis by (simp add: emit_path_def)
  next
    case 4
    then obtain x y z zs where "xs = x # y # z # zs" by (cases xs; cases "tl xs"; cases "tl (tl xs)") auto
    then have "path_bytes xs = 0x2F # word_of_nat (length xs) # concat (map pad xs)"
      by (simp add: path_bytes_def)
    moreover have "join xs \<noteq> []" "fst (count_dots (join xs) 0 0 0) > 1"
      using 4 assms join_eq_Nil [of xs] count_dots_join(1) [of xs 0 0 0] by auto
    ultimately show ?thesis using produces_multi_namestring [OF assms, of d]
      by (cases "count_dots (join xs) 0 0 0") (simp add: emit_path_def)
  qed
qed

text \<open>A path as the source writes it: a root mark, carets, and the elements.\<close>

definition path_text :: "bool \<Rightarrow> nat \<Rightarrow> cstr list \<Rightarrow> cstr" where
  "path_text root k xs = (if root then [0x5C] else []) @ replicate k 0x5E @ join xs"

definition namestring_bytes :: "bool \<Rightarrow> nat \<Rightarrow> cstr list \<Rightarrow> u8 list" where
  "namestring_bytes root k xs = (if root then [0x5C] else []) @ replicate k 0x5E @ path_bytes xs"

lemma hd_join:
  assumes "\<forall>x \<in> set xs. name_elem x" "xs \<noteq> []"
  shows "hd (join xs) \<noteq> 0x5E" "hd (join xs) \<noteq> 0x5C"
proof -
  have "hd (join xs) = hd (hd xs)" using assms by (induction xs rule: join.induct) auto
  moreover have "hd (hd xs) \<in> set (hd xs)" "name_elem (hd xs)" using assms by auto
  ultimately show "hd (join xs) \<noteq> 0x5E" "hd (join xs) \<noteq> 0x5C"
    using name_elem_chars(2,3) by metis+
qed

lemma emit_carets_bytes:
  "rest = [] \<or> hd rest \<noteq> 0x5E \<Longrightarrow>
     emit_carets (replicate k 0x5E @ rest) s = Some (rest, emitted (replicate k 0x5E) s)"
proof (induction k arbitrary: s)
  case 0
  then show ?case by (cases rest) auto
next
  case (Suc k)
  have "acpigen_emit_byte 0x5E s = Some (emitted [0x5E] s)"
    by (simp add: acpigen_emit_byte_def emitted_def)
  with Suc show ?case by simp
qed

lemma produces_emit_namestring:
  assumes "\<forall>x \<in> set xs. name_elem x" "length xs < 256"
  shows "produces d (acpigen_emit_namestring (path_text root k xs)) (namestring_bytes root k xs)"
  unfolding produces_def
proof (intro allI impI)
  fix s :: acpigen assume room: "length (len_stack s) + d \<le> ACPIGEN_LENSTACK_SIZE"
  let ?text = "replicate k 0x5E @ join xs" and ?s = "emitted (if root then [0x5C] else []) s"
  have "join xs = [] \<or> hd (join xs) \<noteq> 0x5E" "join xs = [] \<or> hd (join xs) \<noteq> 0x5C"
    using hd_join [OF assms(1)] join_eq_Nil [OF assms(1)] by blast+
  moreover from this have "?text = [] \<or> hd ?text \<noteq> 0x5C" by (cases k) auto
  moreover have "acpigen_emit_byte 0x5C s = Some (emitted [0x5C] s)"
    by (simp add: acpigen_emit_byte_def emitted_def)
  moreover have "emit_path (join xs) (emitted (replicate k 0x5E) ?s) =
    Some (emitted (path_bytes xs) (emitted (replicate k 0x5E) ?s))"
    using room by (intro producesD [OF produces_emit_path [OF assms, of d]]) simp
  ultimately show "acpigen_emit_namestring (path_text root k xs) s =
    Some (emitted (namestring_bytes root k xs) s)"
    using emit_carets_bytes [of "join xs" k ?s]
    by (cases root) (auto simp: acpigen_emit_namestring_def path_text_def namestring_bytes_def)
qed

section \<open>Decoders of the specification\<close>

text \<open>A package length: the two top bits of the first byte count the bytes that follow.\<close>

fun aml_pkg_length :: "u8 list \<Rightarrow> (nat \<times> u8 list) option" where
  "aml_pkg_length [] = None"
| "aml_pkg_length (b # bs) =
     (let k = unat b div 64
      in if k = 0 then Some (unat b mod 64, bs)
         else if length bs < k then None
         else Some (unat b mod 16 + 16 * le_nat (take k bs), drop k bs))"

definition aml_take :: "nat \<Rightarrow> u8 list \<Rightarrow> (u64 \<times> u8 list) option" where
  "aml_take k bs = (if length bs < k then None else Some (word_of_nat (le_nat (take k bs)), drop k bs))"

fun aml_integer :: "u8 list \<Rightarrow> (u64 \<times> u8 list) option" where
  "aml_integer [] = None"
| "aml_integer (b # bs) =
     (if b = 0x00 then Some (0, bs) else if b = 0x01 then Some (1, bs)
      else if b = 0xFF then Some (- 1, bs)
      else if b = 0x0A then aml_take 1 bs else if b = 0x0B then aml_take 2 bs
      else if b = 0x0C then aml_take 4 bs else if b = 0x0E then aml_take 8 bs else None)"

fun aml_name_segs :: "nat \<Rightarrow> u8 list \<Rightarrow> (u8 list list \<times> u8 list) option" where
  "aml_name_segs 0 bs = Some ([], bs)"
| "aml_name_segs (Suc n) bs =
     (if length bs < 4 then None
      else (case aml_name_segs n (drop 4 bs) of
              None \<Rightarrow> None | Some (segs, rest) \<Rightarrow> Some (take 4 bs # segs, rest)))"

fun aml_name_path :: "u8 list \<Rightarrow> (u8 list list \<times> u8 list) option" where
  "aml_name_path [] = None"
| "aml_name_path (b # bs) =
     (if b = 0 then Some ([], bs)
      else if b = 0x2E then aml_name_segs 2 bs
      else if b = 0x2F
      then (case bs of [] \<Rightarrow> None | n # bs' \<Rightarrow> aml_name_segs (unat n) bs')
      else aml_name_segs 1 (b # bs))"

fun aml_carets :: "u8 list \<Rightarrow> nat \<times> u8 list" where
  "aml_carets [] = (0, [])"
| "aml_carets (b # bs) = (if b = 0x5E then apfst Suc (aml_carets bs) else (0, b # bs))"

definition aml_namestring :: "u8 list \<Rightarrow> ((bool \<times> nat \<times> u8 list list) \<times> u8 list) option" where
  "aml_namestring bs =
     (let root = (bs \<noteq> [] \<and> hd bs = 0x5C); (k, rest) = aml_carets (if root then tl bs else bs)
      in map_option (apfst (\<lambda>segs. (root, k, segs))) (aml_name_path rest))"

lemma aml_pkg_length_pkg_length:
  "n \<le> 0xfffff \<Longrightarrow> aml_pkg_length (pkg_length n @ rest) = Some (n, rest)"
proof -
  assume "n \<le> 0xfffff"
  then have "n div 4096 < 256" "n div 16 < 65536" by auto
  then have "le_nat [word_of_nat (n div 16), word_of_nat (n div 4096)] = n div 16"
    using le_nat_le_bytes [of 2 "n div 16"] by (simp add: le_bytes_2 flip: div_mult2_eq)
  moreover have "unat (word_of_nat (0x80 + n mod 16) :: u8) = 0x80 + n mod 16"
    unfolding unat_u8_of_nat by simp
  moreover have "(128 + n mod 16) div 64 = 2" by (rule div_nat_eqI) simp_all
  moreover have "(128 + n mod 16) mod 16 = n mod 16"
    using mod_mult_self1 [of "n mod 16" 8 16] by (simp add: add.commute)
  ultimately show ?thesis by (simp add: pkg_length_def Let_def numeral_2_eq_2)
qed

lemma aml_take_le_bytes:
  "n < 256 ^ k \<Longrightarrow> aml_take k (le_bytes k n @ rest) = Some (word_of_nat n, rest)"
  by (simp add: aml_take_def le_nat_le_bytes)

lemma aml_integer_bytes: "aml_integer (integer_bytes n @ rest) = Some (n, rest)"
proof -
  have "unat n < 256 ^ 8" using unat_lt_2p64 [of n] by simp
  then show ?thesis
    by (simp add: integer_bytes_def aml_take_le_bytes ZERO_OP_def ONE_OP_def BYTE_PREFIX_def
        WORD_PREFIX_def DWORD_PREFIX_def QWORD_PREFIX_def del: le_bytes.simps)
qed

lemma aml_name_segs_pad:
  "\<forall>x \<in> set xs. name_elem x \<Longrightarrow>
     aml_name_segs (length xs) (concat (map pad xs) @ rest) = Some (map pad xs, rest)"
  by (induction xs) auto

lemma hd_pad:
  assumes "name_elem x"
  shows "\<exists>c cs. pad x = c # cs \<and> c \<noteq> 0 \<and> c \<noteq> 0x2E \<and> c \<noteq> 0x2F \<and> c \<noteq> 0x5C \<and> c \<noteq> 0x5E"
  using name_elem_chars [OF assms, of "hd x"] assms
  by (cases x) (auto simp: pad_def name_elem_def)

lemma aml_name_path_bytes:
  assumes "\<forall>x \<in> set xs. name_elem x" "length xs < 256"
  shows "aml_name_path (path_bytes xs @ rest) = Some (map pad xs, rest)"
proof -
  consider "xs = []" | x where "xs = [x]" | x y where "xs = [x, y]"
    | x y z zs where "xs = x # y # z # zs"
    by (cases xs; cases "tl xs"; cases "tl (tl xs)") auto
  then show ?thesis
  proof cases
    case (2 x)
    with assms obtain c cs where "pad x = c # cs" "c \<noteq> 0" "c \<noteq> 0x2E" "c \<noteq> 0x2F"
      using hd_pad [of x] by auto
    moreover from this 2 assms have "length cs = 3" using length_pad [of x] by simp
    ultimately show ?thesis using 2 by (simp add: path_bytes_def)
  next
    case (3 x y)
    then have "length xs = 2" by simp
    with aml_name_segs_pad [OF assms(1), of rest]
    have "aml_name_segs 2 (concat (map pad xs) @ rest) = Some (map pad xs, rest)" by (simp only:)
    with 3 show ?thesis by (simp add: path_bytes_def del: aml_name_segs.simps)
  next
    case (4 x y z zs)
    then have "path_bytes xs = 0x2F # word_of_nat (length xs) # concat (map pad xs)"
      by (simp add: path_bytes_def)
    with assms aml_name_segs_pad [of xs rest] show ?thesis by (simp add: unat_u8_of_nat)
  qed (simp add: path_bytes_def)
qed

lemma hd_path_bytes:
  assumes "\<forall>x \<in> set xs. name_elem x"
  shows "\<exists>c cs. path_bytes xs = c # cs \<and> c \<noteq> 0x5C \<and> c \<noteq> 0x5E"
  using assms hd_pad by (auto simp: path_bytes_def split: list.splits) fastforce+

lemma aml_carets_bytes:
  "bs = [] \<or> hd bs \<noteq> 0x5E \<Longrightarrow> aml_carets (replicate k 0x5E @ bs) = (k, bs)"
  by (induction k) (auto simp: neq_Nil_conv, cases bs, auto)

lemma aml_namestring_bytes:
  assumes "\<forall>x \<in> set xs. name_elem x" "length xs < 256"
  shows "aml_namestring (namestring_bytes root k xs @ rest) = Some ((root, k, map pad xs), rest)"
proof -
  obtain c cs where hd: "path_bytes xs = c # cs" "c \<noteq> 0x5C" "c \<noteq> 0x5E"
    using hd_path_bytes [OF assms(1)] by blast
  then have car: "aml_carets (replicate k 0x5E @ path_bytes xs @ rest) = (k, path_bytes xs @ rest)"
    by (intro aml_carets_bytes) simp
  have "hd (replicate k 0x5E @ path_bytes xs @ rest) \<noteq> 0x5C" using hd by (cases k) simp_all
  with car aml_name_path_bytes [OF assms, of rest] show ?thesis
    by (cases root) (simp_all add: aml_namestring_def namestring_bytes_def Let_def)
qed

section \<open>Field offsets\<close>

lemma offset_tail_bytes:
  "offset_tail x = le_bytes (length (offset_tail x)) (unat x) \<and> le_nat (offset_tail x) = unat x"
proof (induction x rule: offset_tail.induct)
  case (1 x)
  show ?case
  proof (cases "x = 0")
    case True
    then show ?thesis by (simp add: offset_tail.simps)
  next
    case False
    have d: "unat (drop_bit 8 x) = unat x div 256" by (simp add: unat_drop_bit_word)
    have "unat (word_of_nat (unat x) :: u8) = unat x mod 256" by (rule unat_u8_of_nat)
    moreover have "offset_tail x = word_of_nat (unat x) # offset_tail (drop_bit 8 x)"
      using False byte_of_word [of x] by (subst offset_tail.simps) simp
    ultimately show ?thesis using 1 [OF False] d by (simp del: of_nat_unat)
  qed
qed

lemma length_offset_tail: "unat x < 256 ^ k \<Longrightarrow> length (offset_tail x) \<le> k"
proof (induction k arbitrary: x)
  case 0
  then have "x = 0" by (simp add: unat_eq_zero)
  then show ?case by (simp add: offset_tail.simps)
next
  case (Suc k)
  then have "unat (drop_bit 8 x) < 256 ^ k"
    by (simp add: unat_drop_bit_word less_mult_imp_div_less mult.commute)
  with Suc.IH show ?case by (subst offset_tail.simps) simp
qed

lemma offset_lead_byte:
  "v < 16 \<Longrightarrow> k < 4 \<Longrightarrow>
     ucast (word_of_nat v OR push_bit 6 (word_of_nat k) :: u32) = (word_of_nat (v + 64 * k) :: u8)"
proof -
  have "\<forall>k \<in> set [0..<4]. \<forall>v \<in> set [0..<16].
    ucast (word_of_nat v OR push_bit 6 (word_of_nat k) :: u32) = (word_of_nat (v + 64 * k) :: u8)"
    by code_simp
  then show "v < 16 \<Longrightarrow> k < 4 \<Longrightarrow> ?thesis" by simp
qed

definition offset_bytes :: "nat \<Rightarrow> u8 list" where
  "offset_bytes n =
     (if n < 64 then [word_of_nat n]
      else (let rest = offset_tail (word_of_nat (n div 16))
            in word_of_nat (n mod 16 + 64 * length rest) # rest))"

lemma produces_field_offset:
  assumes "cur \<le> off" "unat off - unat cur \<le> 0xFFFFFFF"
  shows "produces d (acpigen_write_field_offset off cur) (0 # offset_bytes (unat off - unat cur))"
proof -
  define n where "n = unat (off - cur)"
  have n: "n = unat off - unat cur" using assms(1) by (simp add: n_def unat_minus_no_wrap)
  have diff: "off - cur = word_of_nat n" by (simp add: n_def)
  have lim: "n \<le> 0xFFFFFFF" using assms(2) n by simp
  then have u: "unat (word_of_nat n :: u32) = n" by (simp add: unat_of_nat_u32)
  have sh: "drop_bit 4 (word_of_nat n :: u32) = word_of_nat (n div 16)"
    by (rule word_unat_eq_iff [THEN iffD2]) (use lim in \<open>simp add: unat_drop_bit_word u unat_of_nat_u32\<close>)
  have "length (offset_tail (word_of_nat (n div 16))) \<le> 3"
    using lim by (intro length_offset_tail) (simp add: unat_of_nat_u32)
  then have lead: "ucast (word_of_nat n AND 0xF OR
      push_bit 6 (word_of_nat (length (offset_tail (word_of_nat (n div 16))))) :: u32) =
    (word_of_nat (n mod 16 + 64 * length (offset_tail (word_of_nat (n div 16)))) :: u8)"
    by (simp only: low_nibble) (rule offset_lead_byte; simp)
  have small: "ucast (word_of_nat n AND 0x3F :: u32) = (word_of_nat n :: u8)" if "n < 64"
  proof -
    have "(word_of_nat n AND 0x3F :: u32) = take_bit 6 (word_of_nat n)"
      by (simp add: take_bit_eq_mask mask_eq_exp_minus_1)
    also have "\<dots> = word_of_nat n"
      using that by (simp add: take_bit_of_nat take_bit_nat_eq_self)
    finally show ?thesis using that by (simp add: unsigned_of_nat take_bit_nat_eq_self)
  qed
  have not: "\<not> off < cur" "\<not> 0xFFFFFFF < off - cur" "off - cur < 0x40 \<longleftrightarrow> n < 64"
    using assms(1) lim by (auto simp: diff word_less_nat_alt word_le_nat_alt u)
  have "acpigen_write_field_offset off cur = run (map acpigen_emit_byte (0 # offset_bytes n))"
    using not small lead by (simp add: acpigen_write_field_offset_def Let_def diff offset_bytes_def sh)
  then show ?thesis
    using produces_emit_stream [of d "0 # offset_bytes n"] by (simp add: acpigen_emit_stream_def n)
qed

lemma aml_pkg_length_offset_bytes:
  assumes "n \<le> 0xFFFFFFF"
  shows "aml_pkg_length (offset_bytes n @ rest) = Some (n, rest)"
proof (cases "n < 64")
  case True
  then have "unat (word_of_nat n :: u8) = n" by (simp add: unat_of_nat)
  with True show ?thesis by (simp add: offset_bytes_def)
next
  case False
  define tl where "tl = offset_tail (word_of_nat (n div 16))"
  have u: "unat (word_of_nat (n div 16) :: u32) = n div 16" using assms by (simp add: unat_of_nat_u32)
  then have tail: "le_nat tl = n div 16" using offset_tail_bytes tl_def by metis
  have len: "length tl \<le> 3" unfolding tl_def using assms by (intro length_offset_tail) (simp add: u)
  have "tl \<noteq> []" using tail False by auto
  then have k: "0 < length tl" by simp
  define k where "k = length tl"
  have b: "unat (word_of_nat (n mod 16 + 64 * k) :: u8) = n mod 16 + 64 * k"
    unfolding unat_u8_of_nat using len by (simp add: k_def)
  have "(n mod 16 + 64 * k) div 64 = k" by (rule div_nat_eqI) simp_all
  moreover have "(n mod 16 + 64 * k) mod 16 = n mod 16"
    using mod_mult_self1 [of "n mod 16" "4 * k" 16] by simp
  ultimately show ?thesis using False k b tail
    by (simp add: offset_bytes_def Let_def flip: tl_def k_def)
qed

section \<open>Resource templates\<close>

definition template_bytes :: "u8 list \<Rightarrow> u8 list" where
  "template_bytes items =
     BUFFER_OP # pkg_length (length items + 8) @ [WORD_PREFIX] @ le_bytes 2 (length items + 4) @
     items @ [0x79, 0x00]"

lemma footer_opened:
  fixes s :: acpigen
  assumes "length items + 4 \<le> 0xffff"
  defines "s1 \<equiv> opened [BUFFER_OP] ([WORD_PREFIX, 0, 0] @ items) s"
  shows "acpigen_write_resourcetemplate_footer (s1\<lparr>len_stack := (gencurrent s + 5) # len_stack s1\<rparr>) =
    Some (emitted (template_bytes items) s)"
proof -
  let ?n = "word_of_nat (length items + 4) :: u32"
  let ?p = "gencurrent s + 5"
  define s2 where "s2 = emitted [0x79, 0] s1"
  have g: "gencurrent s2 - ?p = ?n" by (simp add: s2_def s1_def opened_def)
  have u: "unat ?n = length items + 4" using assms(1) by (intro unat_of_nat_u32) simp
  have "(amem s2)(?p := ucast (?n AND 0xff), ?p + 1 := ucast (drop_bit 8 ?n AND 0xff)) =
    mem_write (amem s2) ?p (le_bytes 2 (length items + 4))"
    by (simp add: byte_of_word unat_drop_bit_word le_bytes_2 u del: of_nat_unat of_nat_add)
  also have "\<dots> = amem (opened [BUFFER_OP] ([WORD_PREFIX] @ le_bytes 2 (length items + 4) @ items @ [0x79, 0]) s)"
  proof -
    define m where "m = mem_write (amem s) (gencurrent s) [BUFFER_OP, 0, 0, 0, WORD_PREFIX]"
    have "amem s2 = mem_write m ?p ([0, 0] @ items @ [0x79, 0])"
      by (simp add: s2_def s1_def emitted_opened)
        (simp add: opened_def emitted_def m_def ac_simps)
    moreover have "amem (opened [BUFFER_OP] ([WORD_PREFIX] @ le_bytes 2 (length items + 4) @ items @ [0x79, 0]) s) =
      mem_write m ?p (le_bytes 2 (length items + 4) @ items @ [0x79, 0])"
      by (simp add: opened_def emitted_def m_def mem_write_append ac_simps)
    ultimately show ?thesis
      using mem_write_patch [of "le_bytes 2 (length items + 4)" "[0, 0]" "items @ [0x79, 0]" m ?p] assms(1)
      by simp
  qed
  finally have patch: "s2\<lparr>amem := (amem s2)(?p := ucast (?n AND 0xff),
      ?p + 1 := ucast (drop_bit 8 ?n AND 0xff))\<rparr> =
    opened [BUFFER_OP] ([WORD_PREFIX] @ le_bytes 2 (length items + 4) @ items @ [0x79, 0]) s"
    by (simp add: s2_def s1_def emitted_opened) (simp add: opened_def emitted_def)
  have "run [acpigen_emit_byte 0x79, acpigen_emit_byte 0] s1 = Some s2"
    by (simp add: s2_def run.simps acpigen_emit_byte_def emitted_def)
  moreover define fill :: gen_op where "fill = (\<lambda>s. let len = gencurrent s - ?p
    in Some (s\<lparr>amem := (amem s)(?p := ucast (len AND 0xff), ?p + 1 := ucast (drop_bit 8 len AND 0xff))\<rparr>))"
  have "fill s2 =
    Some (opened [BUFFER_OP] ([WORD_PREFIX] @ le_bytes 2 (length items + 4) @ items @ [0x79, 0]) s)"
    unfolding fill_def Let_def g patch ..
  then have "run [fill, acpigen_pop_len] s2 =
    acpigen_pop_len (opened [BUFFER_OP] ([WORD_PREFIX] @ le_bytes 2 (length items + 4) @ items @ [0x79, 0]) s)"
    by (simp add: run.simps split: option.splits)
  moreover have "acpigen_write_resourcetemplate_footer (s1\<lparr>len_stack := ?p # len_stack s1\<rparr>) =
    run ([acpigen_emit_byte 0x79, acpigen_emit_byte 0] @ [fill, acpigen_pop_len]) s1"
    by (simp add: acpigen_write_resourcetemplate_footer_def fill_def)
  ultimately have "acpigen_write_resourcetemplate_footer (s1\<lparr>len_stack := ?p # len_stack s1\<rparr>) =
    acpigen_pop_len (opened [BUFFER_OP] ([WORD_PREFIX] @ le_bytes 2 (length items + 4) @ items @ [0x79, 0]) s)"
    using run_appendI by metis
  with pop_len_opened [of "[BUFFER_OP]"
      "[WORD_PREFIX] @ le_bytes 2 (length items + 4) @ items @ [0x79, 0]" s] assms(1)
  show ?thesis by (simp add: template_bytes_def add.commute)
qed

text \<open>A template around operations that write its items.\<close>

theorem produces_template:
  assumes "produces d (run fs) items" "length items + 4 \<le> 0xffff"
  shows "produces (d + 2)
    (run (acpigen_write_resourcetemplate_header # fs @ [acpigen_write_resourcetemplate_footer]))
    (template_bytes items)"
  unfolding produces_def
proof (intro allI impI)
  fix s :: acpigen assume room: "length (len_stack s) + (d + 2) \<le> ACPIGEN_LENSTACK_SIZE"
  define s0 where "s0 = opened [BUFFER_OP] [WORD_PREFIX, 0, 0] s"
  define s1 where "s1 = opened [BUFFER_OP] ([WORD_PREFIX, 0, 0] @ items) s"
  let ?push = "\<lambda>st. st\<lparr>len_stack := (gencurrent s + 5) # len_stack st\<rparr>"
  have "run ([acpigen_emit_byte BUFFER_OP] @ acpigen_write_len_f # [acpigen_emit_byte WORD_PREFIX]) s =
    Some (opened [BUFFER_OP] [WORD_PREFIX] s)"
    using room by (intro opens_seq produces_eq [OF produces_run_Cons [OF produces_emit_byte produces_run_Nil]]) auto
  moreover have "run [push_current, acpigen_emit_byte 0, acpigen_emit_byte 0]
    (opened [BUFFER_OP] [WORD_PREFIX] s) = Some (?push s0)"
    using room by (simp add: run.simps push_current_def s0_def opened_def acpigen_get_current_def
        acpigen_emit_byte_def emitted_def ac_simps)
  ultimately have "run (([acpigen_emit_byte BUFFER_OP] @ acpigen_write_len_f # [acpigen_emit_byte WORD_PREFIX]) @
      [push_current, acpigen_emit_byte 0, acpigen_emit_byte 0]) s = Some (?push s0)"
    by (rule run_appendI)
  then have "acpigen_write_resourcetemplate_header s = Some (?push s0)"
    by (simp add: acpigen_write_resourcetemplate_header_def)
  moreover have "run fs (?push s0) = Some (emitted items (?push s0))"
    using room by (intro producesD [OF assms(1)]) (simp add: s0_def opened_def)
  moreover have "emitted items (?push s0) = ?push s1"
    by (simp add: s0_def s1_def emitted_opened) (simp add: opened_def)
  ultimately show "run (acpigen_write_resourcetemplate_header # fs @ [acpigen_write_resourcetemplate_footer]) s =
    Some (emitted (template_bytes items) s)"
    using footer_opened [OF assms(2), of s] by (simp add: run.simps run_append s1_def)
qed

section \<open>The reserved resources of the mainboard\<close>

function io_chunks :: "nat \<Rightarrow> nat \<Rightarrow> (nat \<times> nat) list" where
  "io_chunks b n = (if n = 0 then [] else (b, min 255 n) # io_chunks (b + min 255 n) (n - min 255 n))"
  by pat_completeness auto
termination by (relation "measure snd") auto

declare io_chunks.simps [simp del]

definition io_desc :: "nat \<times> nat \<Rightarrow> u8 list" where
  "io_desc c = [0x47, 0x01] @ le_bytes 2 (fst c) @ le_bytes 2 (fst c) @ [0, word_of_nat (snd c)]"

definition mem32_desc :: "nat \<Rightarrow> nat \<Rightarrow> u8 list" where
  "mem32_desc b n = [0x86, 0x09, 0x00, 0x00] @ le_bytes 4 b @ le_bytes 4 n"

lemma io_chunks_cover:
  "(\<Union>(a, k) \<in> set (io_chunks b n). {a..<a + k}) = {b..<b + n}"
proof (induction b n rule: io_chunks.induct)
  case (1 b n)
  then show ?case by (subst io_chunks.simps) auto
qed

lemma io_chunks_sizes:
  "(a, k) \<in> set (io_chunks b n) \<Longrightarrow> 0 < k \<and> k \<le> 255 \<and> b \<le> a \<and> a + k \<le> b + n"
proof (induction b n rule: io_chunks.induct)
  case (1 b n)
  then show ?case by (subst (asm) io_chunks.simps) (fastforce split: if_splits)
qed

lemma sum_io_chunks: "sum_list (map snd (io_chunks b n)) = n"
proof (induction b n rule: io_chunks.induct)
  case (1 b n)
  then show ?case by (subst io_chunks.simps) simp
qed

lemma produces_write_io16:
  "produces d (acpigen_write_io16 p q al len 1)
     ([0x47, 0x01] @ le_bytes 2 (unat p) @ le_bytes 2 (unat q) @ [al, len])"
proof -
  have "x AND 0xff = x" for x :: u8
  proof -
    have "x AND 0xff = x AND mask 8" by (simp add: mask_eq_exp_minus_1)
    also have "\<dots> = take_bit LENGTH(8) x" by (simp add: take_bit_eq_mask)
    finally show ?thesis by (simp only: take_bit_length_eq)
  qed
  then show ?thesis unfolding acpigen_write_io16_def
    by - (rule produces_eq, (rule emits)+,
      simp add: byte_of_word unat_drop_bit_word le_bytes_2 del: of_nat_unat)
qed

lemma produces_rsvd_io:
  "unat base + unat sz \<le> 65536 \<Longrightarrow>
     produces d (rsvd_io_loop base sz) (concat (map io_desc (io_chunks (unat base) (unat sz))))"
proof (induction "unat sz" arbitrary: base sz rule: less_induct)
  case less
  show ?case
  proof (cases "sz = 0")
    case True
    then show ?thesis by (simp add: produces_def rsvd_io_loop.simps io_chunks.simps)
  next
    case False
    define n where "n = (if sz > 255 then 255 else sz)"
    have n: "unat n = min 255 (unat sz)" by (auto simp: n_def word_less_nat_alt)
    have pos: "0 < unat sz" using False by (simp add: unat_gt_0)
    have "n \<le> sz" using n by (simp add: word_le_nat_alt)
    then have sub: "unat (sz - n) = unat sz - min 255 (unat sz)" by (simp add: unat_minus_no_wrap n)
    have "unat base + unat n < 18446744073709551616" using less.prems n by linarith
    then have add: "unat (base + n) = unat base + min 255 (unat sz)"
      by (simp add: unat_plus_no_wrap n)
    have IH: "produces d (rsvd_io_loop (base + n) (sz - n))
      (concat (map io_desc (io_chunks (unat base + min 255 (unat sz)) (unat sz - min 255 (unat sz)))))"
      using less.hyps [of "sz - n" "base + n"] less.prems pos by (simp add: add sub)
    have small: "unat (ucast base :: u16) = unat base" "(ucast n :: u8) = word_of_nat (min 255 (unat sz))"
      using less.prems pos n by (simp_all add: unat_ucast_small flip: n)
    have "acpigen_write_io16 (ucast base) (ucast base) 0 (ucast n) 1 s =
      Some (emitted (io_desc (unat base, min 255 (unat sz))) s)"
      if "length (len_stack s) + d \<le> ACPIGEN_LENSTACK_SIZE" for s
      using producesD [OF produces_write_io16 that] small by (simp add: io_desc_def)
    moreover have "rsvd_io_loop base sz s =
      (case acpigen_write_io16 (ucast base) (ucast base) 0 (ucast n) 1 s of
         None \<Rightarrow> None | Some s' \<Rightarrow> rsvd_io_loop (base + n) (sz - n) s')" for s
      using False unfolding n_def by (subst rsvd_io_loop.simps) (simp add: Let_def word_gt_0)
    ultimately show ?thesis using IH pos
      by (subst io_chunks.simps) (simp add: produces_def)
  qed
qed

lemma produces_write_mem32fixed:
  "produces d (acpigen_write_mem32fixed False b n) (mem32_desc (unat b) (unat n))"
  unfolding acpigen_write_mem32fixed_def mem32_desc_def by (rule produces_eq, (rule emits)+) simp

text \<open>The walk over the resources runs the callbacks in order.\<close>

lemma lift_op_simps [simp]: "lift_op f None = None" "lift_op f (Some s) = f s"
  by (simp_all add: lift_op_def)

lemma fold_lift_op: "fold (\<lambda>(dv, r). lift_op (f dv r)) xs (Some s) = run (map (\<lambda>(dv, r). f dv r) xs) s"
proof -
  have none: "fold (\<lambda>(dv, r). lift_op (f dv r)) xs None = None" for xs
    by (induction xs) auto
  show ?thesis
  proof (induction xs arbitrary: s)
    case (Cons x xs)
    obtain dv r where "x = (dv, r)" by fastforce
    with Cons none [of xs] show ?case by (cases "f dv r s") (simp_all add: run.simps)
  qed (simp add: run.simps)
qed

definition reserved :: "u32 \<Rightarrow> device list \<Rightarrow> (device \<times> resource) list" where
  "reserved kind devs = matching_resources devs (kind OR IORESOURCE_RESERVE) (kind OR IORESOURCE_RESERVE)"

definition mem_items :: "device list \<Rightarrow> u8 list" where
  "mem_items devs = concat (map (\<lambda>(dv, r).
     mem32_desc (unat (ucast (res_base r) :: u32)) (unat (ucast (res_size r) :: u32)))
       (reserved IORESOURCE_MEM devs))"

definition io_items :: "device list \<Rightarrow> u8 list" where
  "io_items devs = concat (map (\<lambda>(dv, r).
     concat (map io_desc (io_chunks (unat (res_base r)) (unat (res_size r)))))
       (reserved IORESOURCE_IO devs))"

lemma mainboard_template_run:
  "acpigen_write_mainboard_resource_template devs =
     run (acpigen_write_resourcetemplate_header #
       [run (map (\<lambda>(dv, r). acpigen_write_mem32fixed False (ucast (res_base r)) (ucast (res_size r)))
          (reserved IORESOURCE_MEM devs)),
        run (map (\<lambda>(dv, r). rsvd_io_loop (res_base r) (res_size r)) (reserved IORESOURCE_IO devs))] @
       [acpigen_write_resourcetemplate_footer])"
  by (simp add: acpigen_write_mainboard_resource_template_def search_global_resources_fold
      acpigen_add_mainboard_rsvd_mem32_def acpigen_add_mainboard_rsvd_io_def fold_lift_op reserved_def)

lemma produces_mem_items:
  "produces d (run (map (\<lambda>(dv, r). acpigen_write_mem32fixed False (ucast (res_base r)) (ucast (res_size r)))
     (reserved IORESOURCE_MEM devs))) (mem_items devs)"
  unfolding mem_items_def
  by (rule produces_run_all) (auto simp: list_all2_map1 list_all2_map2 list.rel_refl_strong
      produces_write_mem32fixed split: prod.splits intro!: list.rel_refl_strong)

lemma produces_io_items:
  assumes "\<forall>(dv, r) \<in> set (reserved IORESOURCE_IO devs). unat (res_base r) + unat (res_size r) \<le> 65536"
  shows "produces d (run (map (\<lambda>(dv, r). rsvd_io_loop (res_base r) (res_size r))
     (reserved IORESOURCE_IO devs))) (io_items devs)"
  unfolding io_items_def
  using assms by (intro produces_run_all)
    (auto simp: list_all2_map1 list_all2_map2 produces_rsvd_io intro!: list.rel_refl_strong)

section \<open>Universally unique identifiers\<close>

definition hex_digit :: "nat \<Rightarrow> u8" where
  "hex_digit n = (if n < 10 then word_of_nat (0x30 + n) else word_of_nat (0x57 + n))"

definition hex_byte :: "u8 \<Rightarrow> cstr" where
  "hex_byte b = [hex_digit (unat b div 16), hex_digit (unat b mod 16)]"

lemma hex_digit_value:
  "n < 16 \<Longrightarrow> isxdigit (hex_digit n) \<and>
     (if isdigit (hex_digit n) then hex_digit n - 0x30 else tolower (hex_digit n) - 0x61 + 10) = word_of_nat n"
proof -
  have "\<forall>n \<in> set [0..<16]. isxdigit (hex_digit n) \<and>
    (if isdigit (hex_digit n) then hex_digit n - 0x30 else tolower (hex_digit n) - 0x61 + 10) =
      (word_of_nat n :: u8)"
    by code_simp
  then show "n < 16 \<Longrightarrow> ?thesis" by simp
qed

lemma nibbles: "push_bit 4 (word_of_nat (unat b div 16)) OR word_of_nat (unat b mod 16) = b" for b :: u8
proof -
  have "\<forall>h \<in> set [0..<16]. \<forall>l \<in> set [0..<16].
    push_bit 4 (word_of_nat h) OR word_of_nat l = (word_of_nat (16 * h + l) :: u8)"
    by code_simp
  moreover have "unat b div 16 < 16" using unat_lt_2p8 [of b] by (simp add: less_mult_imp_div_less)
  ultimately have "push_bit 4 (word_of_nat (unat b div 16)) OR word_of_nat (unat b mod 16) =
    (word_of_nat (16 * (unat b div 16) + unat b mod 16) :: u8)" by (simp del: of_nat_add of_nat_mult)
  also have "16 * (unat b div 16) + unat b mod 16 = unat b" by simp
  finally show ?thesis by simp
qed

lemma hexstrtobin_byte:
  assumes "length buf < len"
  shows "hexstrtobin_loop (hex_byte b @ rest) len 0 0 buf = hexstrtobin_loop rest len 0 0 (buf @ [b])"
proof -
  have "unat b div 16 < 16" using unat_lt_2p8 [of b] by (simp add: less_mult_imp_div_less)
  with hex_digit_value [of "unat b div 16"] hex_digit_value [of "unat b mod 16"] nibbles [of b] assms
  show ?thesis by (auto simp: hex_byte_def Let_def)
qed

lemma hexstrtobin_dash: "hexstrtobin_loop (0x2D # rest) len byte n buf = hexstrtobin_loop rest len byte n buf"
  by (simp add: isxdigit_def)

text \<open>The text of an identifier, and its bytes in the order the specification asks for.\<close>

definition uuid_text :: "u8 list \<Rightarrow> cstr" where
  "uuid_text b =
     concat (map hex_byte (take 4 b)) @ [0x2D] @ concat (map hex_byte (take 2 (drop 4 b))) @ [0x2D] @
     concat (map hex_byte (take 2 (drop 6 b))) @ [0x2D] @ concat (map hex_byte (take 2 (drop 8 b))) @ [0x2D] @
     concat (map hex_byte (drop 10 b))"

lemma hexstrtobin_bytes:
  "length buf + length bs \<le> len \<Longrightarrow>
     hexstrtobin_loop (concat (map hex_byte bs) @ rest) len 0 0 buf = hexstrtobin_loop rest len 0 0 (buf @ bs)"
  by (induction bs arbitrary: buf) (simp_all add: hexstrtobin_byte)

lemma hexstrtobin_uuid_text:
  assumes "length b = 16"
  shows "hexstrtobin (uuid_text b) 16 = b"
proof -
  have "\<not> isxdigit 0x2D" by (simp add: isxdigit_def)
  moreover have "take 2 (drop 8 b) @ drop 10 b = drop 8 b" "take 2 (drop 6 b) @ drop 8 b = drop 6 b"
    "take 2 (drop 4 b) @ drop 6 b = drop 4 b"
    using append_take_drop_id [of 2 "drop 8 b"] append_take_drop_id [of 2 "drop 6 b"]
      append_take_drop_id [of 2 "drop 4 b"] by simp_all
  ultimately show ?thesis
    using assms hexstrtobin_bytes [of _ "drop 10 b" 16 "[]"]
    by (simp add: hexstrtobin_def uuid_text_def hexstrtobin_bytes)
qed

lemma uuid_order_permutes:
  assumes "length b = 16"
  shows "map (\<lambda>i. b ! i) uuid_order =
    rev (take 4 b) @ rev (take 2 (drop 4 b)) @ rev (take 2 (drop 6 b)) @ drop 8 b"
proof -
  have "b = map (\<lambda>i. b ! i) [0..<16]" using map_nth [of b] assms by simp
  then obtain f where "b = map f [0..<16]" by metis
  then show ?thesis by (simp add: uuid_order_def upt_rec)
qed

section \<open>Properties\<close>

text \<open>A state to start from, used in examples.\<close>

definition gen0 :: acpigen where
  "gen0 = \<lparr>amem = (\<lambda>_. 0), gencurrent = 0x1000, len_stack = []\<rparr>"

text \<open>
  C25. \<open>acpigen_write_integer\<close> writes an encoding from which the specification's decoder
  recovers the value and the rest of the stream, for every 64-bit value.
\<close>

theorem acpigen_write_integer_decodes:
  "\<exists>bs. produces d (acpigen_write_integer n) bs \<and> aml_integer (bs @ rest) = Some (n, rest)"
  using produces_write_integer aml_integer_bytes by blast

text \<open>
  C24. A path with root mark, carets and up to 255 elements of one to four name characters
  is written in the single, dual or multi-name form that decodes to the same root mark,
  the same number of carets and the elements padded with underscores.
\<close>

theorem acpigen_emit_namestring_decodes:
  assumes "\<forall>x \<in> set xs. name_elem x" "length xs < 256"
  shows "\<exists>bs. produces d (acpigen_emit_namestring (path_text root k xs)) bs \<and>
    aml_namestring (bs @ rest) = Some ((root, k, map pad xs), rest)"
  using produces_emit_namestring [OF assms] aml_namestring_bytes [OF assms] by blast

theorem acpigen_emit_namestring_decodes_witness:
  "\<exists>bs. produces 0 (acpigen_emit_namestring (path_text True 0 [str ''_SB'', str ''PCI0'', str ''LPCB''])) bs \<and>
     aml_namestring (bs @ [7]) = Some ((True, 0, [str ''_SB_'', str ''PCI0'', str ''LPCB'']), [7])"
proof -
  have e: "\<forall>x \<in> set [str ''_SB'', str ''PCI0'', str ''LPCB'']. name_elem x" by code_simp
  have p: "map pad [str ''_SB'', str ''PCI0'', str ''LPCB''] = [str ''_SB_'', str ''PCI0'', str ''LPCB'']"
    by code_simp
  show ?thesis using acpigen_emit_namestring_decodes [OF e, of 0 True 0 "[7]"] unfolding p by simp
qed

text \<open>
  C23. Whatever balanced operations stand between \<open>acpigen_write_package\<close> and its
  \<open>acpigen_pop_len\<close>, the patched length field counts exactly the bytes from the field to
  the end of the package, and the length stack is as it was; this holds at every nesting
  depth for which the stack has room, and for packages of up to 0xfffff bytes.
\<close>

theorem acpigen_package_length:
  assumes "produces d (run fs) bs" "4 + length bs \<le> 0xfffff"
  shows "\<exists>lf. produces (max 2 (Suc d)) (run (acpigen_write_package n # fs @ [acpigen_pop_len]))
      (PACKAGE_OP # lf @ ucast n # bs) \<and>
    aml_pkg_length (lf @ ucast n # bs @ rest) = Some (length (lf @ ucast n # bs), ucast n # bs @ rest)"
  using pkg.block [OF assms(1), of n] assms(2) aml_pkg_length_pkg_length [of "4 + length bs" "ucast n # bs @ rest"]
  by (intro exI [of _ "pkg_length (4 + length bs)"]) simp

theorem acpigen_package_length_witness:
  "\<exists>lf. produces (max 2 (Suc 0))
       (run (acpigen_write_package 2 # [acpigen_write_zero, acpigen_write_one] @ [acpigen_pop_len]))
       (PACKAGE_OP # lf @ [2, 0, 1]) \<and>
     aml_pkg_length (lf @ [2, 0, 1]) = Some (length (lf @ [2, 0, 1 :: u8]), [2, 0, 1])"
proof -
  have "produces 0 (run [acpigen_write_zero, acpigen_write_one]) [0, 1]"
    unfolding acpigen_write_zero_def acpigen_write_one_def
    by (rule produces_eq, (rule emits)+) (simp add: ZERO_OP_def ONE_OP_def)
  from acpigen_package_length [OF this, of 2 "[]"] show ?thesis by simp
qed

text \<open>
  C26. The resource template of the mainboard is a buffer whose package length is exact and
  whose items are, in the order of the devices, one memory descriptor per reserved memory
  resource and the port descriptors of the reserved port resources, then the end tag. The
  size that the template declares is two more than the bytes of items and end tag.
\<close>

theorem mainboard_resource_template_bytes:
  assumes "\<forall>(dv, r) \<in> set (reserved IORESOURCE_IO devs). unat (res_base r) + unat (res_size r) \<le> 65536"
    and "length (mem_items devs @ io_items devs) + 4 \<le> 0xffff"
  shows "produces 2 (acpigen_write_mainboard_resource_template devs)
    (BUFFER_OP # pkg_length (length (mem_items devs @ io_items devs) + 8) @
     WORD_PREFIX # le_bytes 2 (length (mem_items devs @ io_items devs @ [0x79, 0x00]) + 2) @
     mem_items devs @ io_items devs @ [0x79, 0x00])"
proof -
  have "produces 0 (run [run (map (\<lambda>(dv, r). acpigen_write_mem32fixed False (ucast (res_base r)) (ucast (res_size r)))
          (reserved IORESOURCE_MEM devs)),
        run (map (\<lambda>(dv, r). rsvd_io_loop (res_base r) (res_size r)) (reserved IORESOURCE_IO devs))])
      (mem_items devs @ io_items devs @ [])"
    by (intro produces_run_Cons produces_mem_items produces_io_items assms produces_run_Nil)
  then have "produces 0 (run [run (map (\<lambda>(dv, r). acpigen_write_mem32fixed False (ucast (res_base r)) (ucast (res_size r)))
          (reserved IORESOURCE_MEM devs)),
        run (map (\<lambda>(dv, r). rsvd_io_loop (res_base r) (res_size r)) (reserved IORESOURCE_IO devs))])
      (mem_items devs @ io_items devs)" by simp
  note produces_template [OF this assms(2), unfolded add_0, folded mainboard_template_run]
  moreover have "template_bytes (mem_items devs @ io_items devs) =
    BUFFER_OP # pkg_length (length (mem_items devs @ io_items devs) + 8) @
     WORD_PREFIX # le_bytes 2 (length (mem_items devs @ io_items devs @ [0x79, 0x00]) + 2) @
     mem_items devs @ io_items devs @ [0x79, 0x00]"
  proof -
    have "length (mem_items devs @ io_items devs @ [0x79, 0x00 :: u8]) + 2 =
      length (mem_items devs @ io_items devs) + 4" by simp
    then show ?thesis by (simp only: template_bytes_def append_assoc append_Cons append_Nil)
  qed
  ultimately show ?thesis by (simp only:)
qed

definition ex_io_devs :: "device list" where
  "ex_io_devs = [\<lparr>dev_enabled = True,
     resource_list = [zero_resource\<lparr>res_base := 0x400, res_size := 0x180, res_flags := 0x10000100\<rparr>]\<rparr>]"

theorem mainboard_resource_template_bytes_witness:
  "produces 2 (acpigen_write_mainboard_resource_template ex_io_devs)
     (BUFFER_OP # pkg_length 24 @ WORD_PREFIX # [20, 0] @
      [0x47, 1, 0, 4, 0, 4, 0, 255, 0x47, 1, 255, 4, 255, 4, 0, 129] @ [0x79, 0x00])"
proof -
  have "reserved IORESOURCE_IO ex_io_devs =
      [(hd ex_io_devs, hd (resource_list (hd ex_io_devs)))]" "reserved IORESOURCE_MEM ex_io_devs = []"
    by (simp_all add: reserved_def matching_resources_def ex_io_devs_def res_matches_def
        IORESOURCE_IO_def IORESOURCE_MEM_def IORESOURCE_RESERVE_def IORESOURCE_SUBTRACTIVE_def zero_resource_def)
  moreover from this have "io_items ex_io_devs = [0x47, 1, 0, 4, 0, 4, 0, 255, 0x47, 1, 255, 4, 255, 4, 0, 129]"
    "mem_items ex_io_devs = []"
    by (simp_all add: io_items_def mem_items_def io_chunks.simps io_desc_def ex_io_devs_def le_bytes_2)
  ultimately show ?thesis
    using mainboard_resource_template_bytes [of ex_io_devs] by (simp add: ex_io_devs_def le_bytes_2)
qed

text \<open>
  C27. A reserved range of I/O ports is written as descriptors of at most 255 ports each
  that cover exactly the ports of the range, none of them twice.
\<close>

theorem rsvd_io_tiles:
  assumes "unat base + unat sz \<le> 65536"
  shows "\<exists>ds. produces d (rsvd_io_loop base sz) (concat (map io_desc ds)) \<and>
    (\<Union>(b, k) \<in> set ds. {b..<b + k}) = {unat base..<unat base + unat sz} \<and>
    sum_list (map snd ds) = unat sz \<and> (\<forall>(b, k) \<in> set ds. 0 < k \<and> k \<le> 255)"
proof (intro exI conjI)
  show "produces d (rsvd_io_loop base sz) (concat (map io_desc (io_chunks (unat base) (unat sz))))"
    using assms by (rule produces_rsvd_io)
  show "\<forall>(b, k) \<in> set (io_chunks (unat base) (unat sz)). 0 < k \<and> k \<le> 255"
    using io_chunks_sizes by blast
qed (rule io_chunks_cover sum_io_chunks)+

theorem rsvd_io_tiles_witness:
  "\<exists>ds. produces 0 (rsvd_io_loop 0x400 0x180) (concat (map io_desc ds)) \<and> sum_list (map snd ds) = 0x180"
proof -
  have "\<exists>ds. produces 0 (rsvd_io_loop 0x400 0x180) (concat (map io_desc ds)) \<and>
    (\<Union>(b, k) \<in> set ds. {b..<b + k}) = {unat (0x400 :: u64)..<unat (0x400 :: u64) + unat (0x180 :: u64)} \<and>
    sum_list (map snd ds) = unat (0x180 :: u64) \<and> (\<forall>(b, k) \<in> set ds. 0 < k \<and> k \<le> 255)"
    by (rule rsvd_io_tiles) simp
  then obtain ds where "produces 0 (rsvd_io_loop 0x400 0x180) (concat (map io_desc ds))"
    "sum_list (map snd ds) = unat (0x180 :: u64)" by blast
  then show ?thesis by (intro exI [of _ ds]) simp
qed

text \<open>
  C28. The offset of a field is written after a zero byte in the package-length encoding of
  its distance in bits from the current position, for every distance up to 0xFFFFFFF.
\<close>

theorem acpigen_write_field_offset_decodes:
  assumes "cur \<le> off" "unat off - unat cur \<le> 0xFFFFFFF"
  shows "\<exists>bs. produces d (acpigen_write_field_offset off cur) (0 # bs) \<and>
    aml_pkg_length (bs @ rest) = Some (unat off - unat cur, rest)"
  using produces_field_offset [OF assms] aml_pkg_length_offset_bytes [OF assms(2)] by blast

theorem acpigen_write_field_offset_decodes_witness:
  "\<exists>bs. produces 0 (acpigen_write_field_offset 0x420 0x10) (0 # bs) \<and> aml_pkg_length bs = Some (0x410, [])"
  using acpigen_write_field_offset_decodes [of "0x10" "0x420" 0 "[]"] by simp

text \<open>
  A UUID is written as a buffer of sixteen bytes in the mixed byte order that the ACPI
  specification prescribes: the first three groups reversed, the others as they are.
\<close>

theorem acpigen_write_uuid_order:
  assumes "length b = 16"
  shows "produces 2 (acpigen_write_uuid (uuid_text b))
    (BUFFER_OP # pkg_length 22 @ WORD_PREFIX # [16, 0] @
     rev (take 4 b) @ rev (take 2 (drop 4 b)) @ rev (take 2 (drop 6 b)) @ drop 8 b)"
proof -
  define out where "out = rev (take 4 b) @ rev (take 2 (drop 4 b)) @ rev (take 2 (drop 6 b)) @ drop 8 b"
  have out: "map (\<lambda>i. b ! i) uuid_order = out" and len: "length out = 16"
    using uuid_order_permutes [OF assms] assms by (simp_all add: out_def)
  have "produces 0 (run [acpigen_write_word 16, acpigen_emit_stream out]) (WORD_PREFIX # [16, 0] @ out)"
    by (rule produces_eq, (rule emits)+) (simp add: le_bytes_2)
  from blk.block [OF this, of BUFFER_OP] len
  have "produces 2 (run (run [acpigen_emit_byte BUFFER_OP, acpigen_write_len_f] #
      [acpigen_write_word 16, acpigen_emit_stream out] @ [acpigen_pop_len]))
    (BUFFER_OP # pkg_length 22 @ WORD_PREFIX # [16, 0] @ out)" by (simp add: numeral_2_eq_2)
  then have "produces 2 (run [acpigen_emit_byte BUFFER_OP, acpigen_write_len_f, acpigen_write_word 16,
      acpigen_emit_stream out, acpigen_pop_len]) (BUFFER_OP # pkg_length 22 @ WORD_PREFIX # [16, 0] @ out)"
    by (subst run_first_two) simp
  then show ?thesis
    using hexstrtobin_uuid_text [OF assms] assms by (simp add: acpigen_write_uuid_def Let_def out out_def)
qed

theorem acpigen_write_uuid_order_witness:
  "produces 2 (acpigen_write_uuid (uuid_text (map word_of_nat [0..<16])))
    (BUFFER_OP # pkg_length 22 @ WORD_PREFIX # [16, 0] @
     [3, 2, 1, 0, 5, 4, 7, 6, 8, 9, 10, 11, 12, 13, 14, 15])"
  using acpigen_write_uuid_order [of "map word_of_nat [0..<16]"] by (simp add: upt_rec)

text \<open>
  \<open>acpigen_write_name_zero\<close> gives the name the value one, and \<open>acpigen_write_name_one\<close>
  the value zero.
\<close>

theorem acpigen_write_name_zero_one_swapped:
  "produces d (acpigen_write_name_zero (str ''CRSE'')) (NAME_OP # str ''CRSE'' @ [0x01]) \<and>
   produces d (acpigen_write_name_one (str ''CRSE'')) (NAME_OP # str ''CRSE'' @ [0x00])"
proof -
  have "path_text False 0 [str ''CRSE''] = str ''CRSE''" "namestring_bytes False 0 [str ''CRSE''] = str ''CRSE''"
    "\<forall>x \<in> set [str ''CRSE'']. name_elem x"
    by code_simp+
  then have name: "produces d (acpigen_emit_namestring (str ''CRSE'')) (str ''CRSE'')"
    using produces_emit_namestring [of "[str ''CRSE'']" d False 0] by simp
  show ?thesis
    unfolding acpigen_write_name_zero_def acpigen_write_name_one_def acpigen_write_name_def
      acpigen_write_one_def acpigen_write_zero_def
    by (intro conjI; rule produces_eq, (rule emits name)+) (simp_all add: ONE_OP_def ZERO_OP_def)
qed

lemma simple_namestring_cut:
  assumes "\<forall>x \<in> set [a, b, c, e]. x \<noteq> 0x2E"
  shows "acpigen_emit_simple_namestring (a # b # c # e # rest) = acpigen_emit_simple_namestring [a, b, c, e]"
proof -
  have "4 = Suc (Suc (Suc (Suc 0)))" by simp
  with assms show ?thesis by (simp only: acpigen_emit_simple_namestring_def) simp
qed

text \<open>
  The processor with index 100 is declared under the name of the processor with
  index 10: the third digit is cut off with the fifth character of the name.
\<close>

theorem acpigen_write_processor_name_clash:
  "acpigen_emit_namestring (processor_name 100) = acpigen_emit_namestring (processor_name 10)"
proof -
  have names: "processor_name 100 = [0x5C, 0x5F, 0x50, 0x52, 0x2E, 0x43, 0x50, 0x31, 0x30, 0x30]"
    "processor_name 10 = [0x5C, 0x5F, 0x50, 0x52, 0x2E, 0x43, 0x50, 0x31, 0x30]"
    by code_simp+
  have first: "acpigen_emit_simple_namestring (0x5F # 0x50 # 0x52 # 0x2E # rest) =
    acpigen_emit_simple_namestring [0x5F, 0x50, 0x52, 0x2E]" for rest
  proof -
    have "4 = Suc (Suc (Suc (Suc 0)))" by simp
    then show ?thesis by (simp only: acpigen_emit_simple_namestring_def) simp
  qed
  have "acpigen_emit_simple_namestring [0x43, 0x50, 0x31, 0x30, 0x30] =
    acpigen_emit_simple_namestring [0x43, 0x50, 0x31, 0x30]"
    by (rule simple_namestring_cut) simp
  moreover have "acpigen_emit_simple_namestring [0x5F, 0x50, 0x52, 0x2E, 0x43, 0x50, 0x31, 0x30, 0x30] =
    acpigen_emit_simple_namestring [0x5F, 0x50, 0x52, 0x2E, 0x43, 0x50, 0x31, 0x30]"
    using first [of "[0x43, 0x50, 0x31, 0x30, 0x30]"] first [of "[0x43, 0x50, 0x31, 0x30]"] by (rule trans [OF _ sym])
  ultimately have "emit_path [0x5F, 0x50, 0x52, 0x2E, 0x43, 0x50, 0x31, 0x30, 0x30] =
    emit_path [0x5F, 0x50, 0x52, 0x2E, 0x43, 0x50, 0x31, 0x30]"
    by (simp add: emit_path_def acpigen_emit_double_namestring_def)
  then show ?thesis
    by (simp add: names fun_eq_iff acpigen_emit_namestring_def split: option.splits)
qed

end
