(* ===== verification/Bootmem.thy ===== *)
theory Bootmem
  imports Memrange
begin

text \<open>
  The memory map handed to the payload, \<^verbatim>\<open>src/coreboot/src/lib/bootmem.c\<close>, with the two
  hooks that \<open>bootmem_init\<close> calls on x86 (\<open>cbmem_add_bootmem\<close> of
  \<^verbatim>\<open>src/coreboot/src/lib/imd_cbmem.c\<close>, \<open>bootmem_arch_add_ranges\<close> of
  \<^verbatim>\<open>src/coreboot/src/arch/x86/tables.c\<close>). The state is the range structure \<open>bootmem\<close>; the
  region used by CBMEM and the address \<open>forwarding_table\<close> are arguments. The theory uses
  the ranges through their map (\<open>tag_at\<close>) and the interface \<open>range_map\<close>.
\<close>

definition LB_MEM_RAM :: u32 where "LB_MEM_RAM = 1"
definition LB_MEM_RESERVED :: u32 where "LB_MEM_RESERVED = 2"
definition LB_MEM_ACPI :: u32 where "LB_MEM_ACPI = 3"
definition LB_MEM_NVS :: u32 where "LB_MEM_NVS = 4"
definition LB_MEM_UNUSABLE :: u32 where "LB_MEM_UNUSABLE = 5"
definition LB_MEM_VENDOR_RSVD :: u32 where "LB_MEM_VENDOR_RSVD = 6"
definition LB_MEM_TABLE :: u32 where "LB_MEM_TABLE = 16"

lemmas LB_MEM_defs = LB_MEM_RAM_def LB_MEM_RESERVED_def LB_MEM_ACPI_def LB_MEM_NVS_def
  LB_MEM_UNUSABLE_def LB_MEM_VENDOR_RSVD_def LB_MEM_TABLE_def

definition bootmem_add_range :: "memranges \<Rightarrow> u64 \<Rightarrow> u64 \<Rightarrow> u32 \<Rightarrow> memranges" where
  "bootmem_add_range bm start sz type = memranges_insert True bm start sz type"

definition cbmem_add_bootmem :: "uintptr \<times> size_t \<Rightarrow> memranges \<Rightarrow> memranges" where
  "cbmem_add_bootmem used bm =
     bootmem_add_range bm (ucast (fst used)) (ucast (snd used)) LB_MEM_TABLE"

definition bootmem_arch_add_ranges :: "uintptr \<Rightarrow> memranges \<Rightarrow> memranges" where
  "bootmem_arch_add_ranges forwarding_table bm =
     (let base = 0 in bootmem_add_range bm base (ucast (forwarding_table - 0)) LB_MEM_TABLE)"

definition bootmem_init :: "device list \<Rightarrow> uintptr \<times> size_t \<Rightarrow> uintptr \<Rightarrow> memranges" where
  "bootmem_init devs used forwarding_table =
     (let bm = memranges_init True devs IORESOURCE_CACHEABLE IORESOURCE_CACHEABLE LB_MEM_RAM;
          bm = memranges_add_resources True devs bm IORESOURCE_RESERVE IORESOURCE_RESERVE LB_MEM_RESERVED;
          bm = cbmem_add_bootmem used bm
      in bootmem_arch_add_ranges forwarding_table bm)"

record lb_memory_range =
  lb_start :: u64
  lb_size :: u64
  lb_type :: u32

text \<open>
  \<open>pack_lb64\<close> stores a number as two halves; the record holds the number. The table's
  array is written from its first element, over what is there.
\<close>

record lb_memory =
  lm_size :: u32
  lm_map :: "lb_memory_range list"

definition bootmem_write_memory_table :: "memranges \<Rightarrow> lb_memory \<Rightarrow> lb_memory" where
  "bootmem_write_memory_table bm m =
     \<lparr>lm_size = foldl (\<lambda>n r. n + 20) (lm_size m) (entries bm),
      lm_map = map (\<lambda>r. \<lparr>lb_start = range_entry_base r, lb_size = range_entry_size r,
                          lb_type = range_entry_tag r\<rparr>) (entries bm) @
        drop (length (entries bm)) (lm_map m)\<rparr>"

definition type_strings :: "(u32 \<times> string) list" where
  "type_strings = [
     (LB_MEM_RAM, ''RAM''),
     (LB_MEM_RESERVED, ''RESERVED''),
     (LB_MEM_ACPI, ''ACPI''),
     (LB_MEM_NVS, ''NVS''),
     (LB_MEM_UNUSABLE, ''UNUSABLE''),
     (LB_MEM_VENDOR_RSVD, ''VENDOR RESERVED''),
     (LB_MEM_TABLE, ''CONFIGURATION TABLES'')]"

fun range_string_loop :: "(u32 \<times> string) list \<Rightarrow> u32 \<Rightarrow> string" where
  "range_string_loop [] t = ''UNKNOWN!''"
| "range_string_loop ((t', s) # rest) t = (if t' = t then s else range_string_loop rest t)"

definition bootmem_range_string :: "u32 \<Rightarrow> string" where
  "bootmem_range_string t = range_string_loop type_strings t"

fun usable_ram_loop :: "u64 \<Rightarrow> u64 \<Rightarrow> range_entry list \<Rightarrow> bool" where
  "usable_ram_loop start e [] = False"
| "usable_ram_loop start e (r # rs) =
     (if e \<le> range_entry_base r then False
      else if start \<ge> range_entry_base r \<and> e \<le> range_entry_end r \<and> range_entry_tag r = LB_MEM_RAM
      then True
      else usable_ram_loop start e rs)"

definition bootmem_region_targets_usable_ram :: "memranges \<Rightarrow> u64 \<Rightarrow> u64 \<Rightarrow> bool" where
  "bootmem_region_targets_usable_ram bm start sz = usable_ram_loop start (start + sz) (entries bm)"

text \<open>The tests of the search loop, on one entry; the last entry that passes is taken.\<close>

definition buffer_end :: "range_entry \<Rightarrow> resource_t" where
  "buffer_end r = (let max_addr = push_bit 32 1; e = range_entry_end r
                   in if e > max_addr then max_addr else e)"

definition buffer_fits :: "resource_t \<Rightarrow> range_entry \<Rightarrow> bool" where
  "buffer_fits sz r \<longleftrightarrow>
     \<not> range_entry_size r < sz \<and> range_entry_tag r = LB_MEM_RAM \<and>
     \<not> range_entry_base r \<ge> push_bit 32 1 \<and> \<not> buffer_end r - range_entry_base r < sz"

fun highest_fit :: "resource_t \<Rightarrow> range_entry option \<Rightarrow> range_entry list \<Rightarrow> range_entry option" where
  "highest_fit sz region [] = region"
| "highest_fit sz region (r # rs) =
     (if buffer_fits sz r then highest_fit sz (Some r) rs else highest_fit sz region rs)"

text \<open>The pointer returned (\<open>None\<close> is \<open>NULL\<close> from the search) and the new map.\<close>

definition bootmem_allocate_buffer :: "memranges \<Rightarrow> size_t \<Rightarrow> uintptr option \<times> memranges" where
  "bootmem_allocate_buffer bm n =
     (let sz = ucast (ALIGN_UP n 4096)
      in case highest_fit sz None (entries bm) of
           None \<Rightarrow> (None, bm)
         | Some region \<Rightarrow>
             (let b = buffer_end region - sz
              in (Some (ucast b), bootmem_add_range bm b sz LB_MEM_UNUSABLE)))"

section \<open>Lemmas\<close>

lemma fits_ucast: "fits (ucast (b :: u32)) (ucast (n :: u32))"
  using unat_lt_2p32 [of b] unat_lt_2p32 [of n] unfolding fits_def unat_ucast_u64 by linarith

lemma highest_fit_Some:
  "highest_fit sz region es = Some r \<Longrightarrow> region = Some r \<or> r \<in> set es \<and> buffer_fits sz r"
  by (induction es arbitrary: region) (auto split: if_splits)

lemma highest_fit_None:
  "highest_fit sz region es = None \<longleftrightarrow> region = None \<and> (\<forall>r \<in> set es. \<not> buffer_fits sz r)"
  by (induction es arbitrary: region) auto

lemma tag_in_member:
  assumes "entries_ok es" "r \<in> set es" "covers r a"
  shows "tag_in es a = Some (re_tag r)"
  using assms
proof (induction es)
  case (Cons x es)
  show ?case
  proof (cases "r = x")
    case False
    with Cons.prems have "re_end x < re_begin r" "r \<in> set es" by auto
    with Cons.prems(3) have "\<not> covers x a" by (auto simp: covers_def)
    with Cons False \<open>r \<in> set es\<close> show ?thesis by simp
  qed (use Cons in simp)
qed simp

text \<open>Whole pages, none of them the last one of the address space.\<close>

definition page_entries :: "range_entry list \<Rightarrow> bool" where
  "page_entries es \<longleftrightarrow> (\<forall>r \<in> set es. 4096 dvd unat (re_begin r) \<and> 4096 dvd (unat (re_end r) + 1) \<and>
     unat (re_end r) + 1 < 18446744073709551616)"

lemma unat_range_entry_end:
  "unat (re_end r) + 1 < 18446744073709551616 \<Longrightarrow> unat (range_entry_end r) = unat (re_end r) + 1"
  by (simp add: range_entry_end_def unat_plus_no_wrap)

lemma unat_2p32: "unat (push_bit 32 1 :: u64) = 4294967296"
  by simp

lemma unat_buffer_end:
  assumes "unat (re_end r) + 1 < 18446744073709551616"
  shows "unat (buffer_end r) = min 4294967296 (unat (re_end r) + 1)"
  using unat_range_entry_end [OF assms] unat_2p32
  by (auto simp: buffer_end_def Let_def word_less_nat_alt min_def)

lemma buffer_fits_iff:
  assumes "re_begin r \<le> re_end r" "unat (re_end r) + 1 < 18446744073709551616"
  shows "buffer_fits sz r \<longleftrightarrow> re_tag r = LB_MEM_RAM \<and> unat (re_begin r) < 4294967296 \<and>
    unat (re_begin r) + unat sz \<le> min 4294967296 (unat (re_end r) + 1)"
proof -
  have le: "unat (re_begin r) \<le> unat (re_end r)" using assms(1) by (simp add: word_le_nat_alt)
  have "unat (range_entry_size r) = unat (re_end r) + 1 - unat (re_begin r)"
    using assms le by (simp add: range_entry_size_def unat_plus_no_wrap unat_minus_no_wrap)
  moreover have "unat (buffer_end r - range_entry_base r) =
      min 4294967296 (unat (re_end r) + 1) - unat (re_begin r)" if "unat (re_begin r) < 4294967296"
    using that le unat_buffer_end [OF assms(2)]
    by (subst unat_minus_no_wrap) (auto simp: range_entry_base_def word_le_nat_alt)
  ultimately show ?thesis using le unat_2p32
    by (auto simp: buffer_fits_def range_entry_tag_def range_entry_base_def word_less_nat_alt word_le_nat_alt)
qed

lemma page_request_aligned:
  assumes "4096 dvd unat b" "4096 dvd unat sz" "sz \<noteq> 0"
  shows "page_request b sz a \<longleftrightarrow> unat b \<le> unat a \<and> unat a < unat b + unat sz"
proof -
  obtain i j where ij: "unat b = 4096 * i" "unat sz = 4096 * j" using assms by (auto elim!: dvdE)
  with assms(3) have "0 < j" by (metis gr0I mult_0_right unat_eq_zero)
  then obtain k where j: "j = Suc k" by (cases j) auto
  have "(4096 * i + 4096 * j - 1) div 4096 = i + k"
    by (rule div_nat_eqI) (simp_all add: j)
  moreover have "4096 * i div 4096 = i" by simp
  moreover have "i \<le> unat a div 4096 \<longleftrightarrow> 4096 * i \<le> unat a"
    by (simp add: less_eq_div_iff_mult_less_eq mult.commute)
  moreover have "unat a div 4096 < Suc (i + k) \<longleftrightarrow> unat a < Suc (i + k) * 4096"
    by (rule div_less_iff_less_mult) simp
  then have "unat a div 4096 \<le> i + k \<longleftrightarrow> unat a < 4096 * i + 4096 * j"
    by (simp add: j less_Suc_eq_le algebra_simps)
  ultimately show ?thesis using assms(3) unfolding page_request_def ij by simp
qed

lemma unat_buffer_size:
  fixes n :: size_t
  assumes "unat n \<le> 0xfffff000" "n \<noteq> 0"
  defines "sz \<equiv> (unat n + 4095) div 4096 * 4096"
  shows "unat (ucast (ALIGN_UP n 4096) :: u64) = sz" "4096 dvd sz" "0 < sz"
proof -
  have "unat (ALIGN_UP n (2 ^ 12)) = (unat n + 2 ^ 12 - 1) div 2 ^ 12 * 2 ^ 12"
    by (rule unat_ALIGN_UP) (use assms(1) in simp_all)
  then have "unat (ALIGN_UP n 4096) = sz" by (simp add: sz_def)
  then show "unat (ucast (ALIGN_UP n 4096) :: u64) = sz" by (simp add: unat_ucast_u64)
  have "0 < unat n" using assms(2) by (simp add: unat_gt_0)
  then have "0 < (unat n + 4095) div 4096" by (simp add: div_greater_zero_iff)
  then show "0 < sz" by (simp add: sz_def)
  show "4096 dvd sz" by (simp add: sz_def)
qed

section \<open>Properties\<close>

text \<open>
  C29. The boot memory map gives an address the type \<open>LB_MEM_TABLE\<close> when it lies in a page
  below the forwarding table or of the CBMEM area, otherwise \<open>LB_MEM_RESERVED\<close> when it
  lies in a page of a reserved memory resource, otherwise \<open>LB_MEM_RAM\<close> when it lies in a
  page of a cacheable one, and otherwise none: each kind of range takes over the ones
  before it.
\<close>

theorem bootmem_init_priorities:
  fixes devs used forwarding_table a
  defines "cacheable \<equiv> collected devs IORESOURCE_CACHEABLE IORESOURCE_CACHEABLE None"
    and "reserve \<equiv> collected devs IORESOURCE_RESERVE IORESOURCE_RESERVE None"
  assumes "\<forall>(base, sz) \<in> set cacheable. fits base sz" "\<forall>(base, sz) \<in> set reserve. fits base sz"
  shows "ranges_ok (bootmem_init devs used forwarding_table) \<and>
    tag_at (bootmem_init devs used forwarding_table) a =
      (if page_request 0 (ucast forwarding_table) a \<or> page_request (ucast (fst used)) (ucast (snd used)) a
       then Some LB_MEM_TABLE
       else if \<exists>(base, sz) \<in> set reserve. page_request base sz a then Some LB_MEM_RESERVED
       else if \<exists>(base, sz) \<in> set cacheable. page_request base sz a then Some LB_MEM_RAM else None)"
proof -
  define bm1 where "bm1 = memranges_init True devs IORESOURCE_CACHEABLE IORESOURCE_CACHEABLE LB_MEM_RAM"
  define bm2 where "bm2 = memranges_add_resources True devs bm1 IORESOURCE_RESERVE IORESOURCE_RESERVE LB_MEM_RESERVED"
  define bm3 where "bm3 = cbmem_add_bootmem used bm2"
  have e: "ranges_ok (memranges_init_empty [])" "tag_at (memranges_init_empty []) a = None"
    by (simp_all add: memranges_init_empty_def ranges_ok_def tag_at_def)
  note c = memranges_add_resources_filter_map [OF e(1) assms(3) [unfolded cacheable_def], of LB_MEM_RAM]
  have 1: "ranges_ok bm1" "tag_at bm1 a =
      (if \<exists>(base, sz) \<in> set cacheable. page_request base sz a then Some LB_MEM_RAM else None)"
    using c e(2) by (simp_all add: bm1_def memranges_init_def memranges_add_resources_def cacheable_def)
  have 2: "ranges_ok bm2" "tag_at bm2 a =
      (if \<exists>(base, sz) \<in> set reserve. page_request base sz a then Some LB_MEM_RESERVED else tag_at bm1 a)"
    using memranges_add_resources_filter_map [OF 1(1) assms(4) [unfolded reserve_def], of LB_MEM_RESERVED]
    by (simp_all add: bm2_def memranges_add_resources_def reserve_def)
  have 3: "ranges_ok bm3" "tag_at bm3 a =
      (if page_request (ucast (fst used)) (ucast (snd used)) a then Some LB_MEM_TABLE else tag_at bm2 a)"
    using memranges_insert_ok [OF 2(1) fits_ucast]
    by (simp_all add: bm3_def cbmem_add_bootmem_def bootmem_add_range_def)
  have "fits 0 (ucast forwarding_table)" using fits_ucast [of 0 forwarding_table] by simp
  note memranges_insert_ok [OF 3(1) this]
  moreover have "bootmem_init devs used forwarding_table =
    memranges_insert True bm3 0 (ucast forwarding_table) LB_MEM_TABLE"
    by (simp add: bootmem_init_def bootmem_arch_add_ranges_def bootmem_add_range_def bm1_def bm2_def bm3_def)
  ultimately show ?thesis using 1(2) 2(2) 3(2) by simp
qed

theorem bootmem_init_priorities_witness:
  "tag_at (bootmem_init ex_devs (0x9e000, 0x1000) 0x1000) 0x500 = Some LB_MEM_TABLE \<and>
   tag_at (bootmem_init ex_devs (0x9e000, 0x1000) 0x1000) 0x5000 = Some LB_MEM_RAM"
proof -
  have c: "collected ex_devs IORESOURCE_CACHEABLE IORESOURCE_CACHEABLE None = [(0, 0xa0000)]"
    "collected ex_devs IORESOURCE_RESERVE IORESOURCE_RESERVE None = []"
    by (simp_all add: collected_def ex_devs_def matching_resources_def res_matches_def ex_res_def
        wanted_def zero_resource_def IORESOURCE_MEM_def IORESOURCE_SUBTRACTIVE_def
        IORESOURCE_CACHEABLE_def IORESOURCE_RESERVE_def)
  show ?thesis
    using bootmem_init_priorities [of ex_devs "(0x9e000, 0x1000)" "0x1000" "0x500"]
      bootmem_init_priorities [of ex_devs "(0x9e000, 0x1000)" "0x1000" "0x5000"]
    by (simp add: c fits_def page_request_def)
qed

lemma buffer_fits_entry:
  assumes "ranges_ok bm" "page_entries (entries bm)" "r \<in> set (entries bm)"
  shows "buffer_fits s r \<longleftrightarrow> re_tag r = LB_MEM_RAM \<and> unat (re_begin r) < 4294967296 \<and>
      unat (re_begin r) + unat s \<le> min 4294967296 (unat (re_end r) + 1)"
  using assms by (subst buffer_fits_iff) (auto simp: ranges_ok_def entries_ok_def page_entries_def)

text \<open>The buffer at the end of an entry that fits: a page-aligned range of RAM.\<close>

lemma buffer_in_entry:
  assumes "ranges_ok bm" "page_entries (entries bm)" "r \<in> set (entries bm)" "buffer_fits s r"
    "4096 dvd unat s" "s \<noteq> 0"
  defines "b \<equiv> buffer_end r - s"
  shows "unat b + unat s \<le> 4294967296" "unat b < 4294967296" "4096 dvd unat b"
    "page_request b s a \<longleftrightarrow> unat b \<le> unat a \<and> unat a < unat b + unat s"
    "unat b \<le> unat a \<Longrightarrow> unat a < unat b + unat s \<Longrightarrow> tag_at bm a = Some LB_MEM_RAM"
proof -
  define e where "e = min 4294967296 (unat (re_end r) + 1)"
  have room: "re_tag r = LB_MEM_RAM" "unat (re_begin r) + unat s \<le> e"
    using buffer_fits_entry [OF assms(1-3)] assms(4) by (auto simp: e_def)
  have pg: "4096 dvd unat (re_end r) + 1" "unat (re_end r) + 1 < 18446744073709551616"
    using assms(2,3) by (auto simp: page_entries_def)
  then have "4096 dvd e" by (auto simp: e_def min_def)
  have be: "unat (buffer_end r) = e" using unat_buffer_end [OF pg(2)] by (simp add: e_def)
  have s0: "0 < unat s" using assms(6) by (simp add: unat_gt_0)
  have "s \<le> buffer_end r" using be room(2) by (simp add: word_le_nat_alt)
  then have b: "unat b = e - unat s" by (simp add: b_def unat_minus_no_wrap be)
  then have al: "4096 dvd unat b" using \<open>4096 dvd e\<close> assms(5) by simp
  show "4096 dvd unat b" by (rule al)
  show "unat b + unat s \<le> 4294967296" "unat b < 4294967296" using b room(2) s0 by (auto simp: e_def)
  show "page_request b s a \<longleftrightarrow> unat b \<le> unat a \<and> unat a < unat b + unat s"
    using page_request_aligned [OF al assms(5,6), of a] .
  assume "unat b \<le> unat a" "unat a < unat b + unat s"
  moreover have "e \<le> unat (re_end r) + 1" by (simp add: e_def)
  ultimately have "unat (re_begin r) \<le> unat a" "unat a \<le> unat (re_end r)" using b room(2) by linarith+
  then have "covers r a" by (simp add: covers_def word_le_nat_alt)
  with assms(1,3) room(1) show "tag_at bm a = Some LB_MEM_RAM" by (simp add: tag_at_def ranges_ok_def tag_in_member)
qed

text \<open>
  C30. On a map of whole pages, for a size of 1 to \<open>0xfffff000\<close> bytes,
  \<open>bootmem_allocate_buffer\<close> either finds a buffer of the rounded size that starts at a page,
  lies in RAM below 4 GiB, and is marked unusable, exactly it; or it leaves the map alone, when
  no RAM entry has that much room below 4 GiB.
\<close>

theorem bootmem_allocate_buffer_ok:
  fixes n :: size_t
  assumes "ranges_ok bm" "page_entries (entries bm)" "n \<noteq> 0" "unat n \<le> 0xfffff000"
  defines "sz \<equiv> (unat n + 4095) div 4096 * 4096"
  shows "case bootmem_allocate_buffer bm n of
    (Some p, bm') \<Rightarrow> 4096 dvd unat p \<and> unat p + sz \<le> 4294967296 \<and> ranges_ok bm' \<and>
      (\<forall>a. if unat p \<le> unat a \<and> unat a < unat p + sz
           then tag_at bm a = Some LB_MEM_RAM \<and> tag_at bm' a = Some LB_MEM_UNUSABLE
           else tag_at bm' a = tag_at bm a)
  | (None, bm') \<Rightarrow> bm' = bm \<and>
      (\<forall>r \<in> set (entries bm). re_tag r \<noteq> LB_MEM_RAM \<or>
         min 4294967296 (unat (re_end r) + 1) < unat (re_begin r) + sz)"
proof -
  let ?s = "ucast (ALIGN_UP n 4096) :: u64"
  note s = unat_buffer_size [OF assms(4,3), folded sz_def]
  note fit = buffer_fits_entry [OF assms(1,2), of _ ?s, unfolded s(1)]
  show ?thesis
  proof (cases "highest_fit ?s None (entries bm)")
    case None
    then have "\<forall>r \<in> set (entries bm). \<not> buffer_fits ?s r" by (simp add: highest_fit_None)
    with fit s(3) have "\<forall>r \<in> set (entries bm). re_tag r \<noteq> LB_MEM_RAM \<or>
      min 4294967296 (unat (re_end r) + 1) < unat (re_begin r) + sz" by fastforce
    with None show ?thesis by (simp add: bootmem_allocate_buffer_def Let_def)
  next
    case (Some r)
    then have r: "r \<in> set (entries bm)" "buffer_fits ?s r" using highest_fit_Some by blast+
    define b where "b = buffer_end r - ?s"
    have "4096 dvd unat ?s" "?s \<noteq> 0" using s by (simp_all add: unat_eq_0 [symmetric] del: unat_eq_0)
    note b = buffer_in_entry [OF assms(1,2) r this, folded b_def, unfolded s(1)]
    have "fits b ?s" using b(1) by (simp add: fits_def s(1))
    note ins = memranges_insert_ok [OF assms(1) this, of True LB_MEM_UNUSABLE]
    have "unat (ucast b :: u32) = unat b" using b(2) by (simp add: unat_ucast_small)
    moreover have "bootmem_allocate_buffer bm n = (Some (ucast b), memranges_insert True bm b ?s LB_MEM_UNUSABLE)"
      using Some by (simp add: bootmem_allocate_buffer_def Let_def b_def bootmem_add_range_def)
    ultimately show ?thesis using ins b by simp
  qed
qed

definition ex_bootmem :: memranges where
  "ex_bootmem = \<lparr>entries = [\<lparr>re_begin = 0x1000, re_end = 0x9ffff, re_tag = LB_MEM_RAM\<rparr>], free_list = []\<rparr>"

theorem bootmem_allocate_buffer_ok_witness:
  "case bootmem_allocate_buffer ex_bootmem 0x1800 of
     (Some p, bm') \<Rightarrow> p = 0x9e000 \<and> tag_at bm' 0x9f000 = Some LB_MEM_UNUSABLE
   | (None, bm') \<Rightarrow> False"
proof -
  have p: "fst (bootmem_allocate_buffer ex_bootmem 0x1800) = Some 0x9e000"
    by (simp add: bootmem_allocate_buffer_def ex_bootmem_def Let_def ALIGN_UP_def ALIGN_MASK_def
        buffer_fits_def buffer_end_def range_entry_base_def range_entry_end_def range_entry_size_def
        range_entry_tag_def)
  have "ranges_ok ex_bootmem" "page_entries (entries ex_bootmem)"
    by (simp_all add: ex_bootmem_def ranges_ok_def page_entries_def)
  from bootmem_allocate_buffer_ok [OF this, of "0x1800"] p show ?thesis
    by (cases "bootmem_allocate_buffer ex_bootmem 0x1800") (auto dest: spec [of _ "0x9f000"])
qed

lemma tag_in_entry: "tag_in es a = Some t \<Longrightarrow> \<exists>r \<in> set es. covers r a \<and> re_tag r = t"
  by (induction es) (auto split: if_splits)

lemma entries_ok_ordered:
  "entries_ok es \<Longrightarrow> r \<in> set es \<Longrightarrow> s \<in> set es \<Longrightarrow>
     r = s \<or> re_end r < re_begin s \<or> re_end s < re_begin r"
  by (induction es) auto

lemma usable_ram_loop_iff:
  assumes "entries_ok es" "start < e"
  shows "usable_ram_loop start e es \<longleftrightarrow>
    (\<exists>r \<in> set es. re_begin r \<le> start \<and> e \<le> range_entry_end r \<and> re_tag r = LB_MEM_RAM)"
  using assms
proof (induction es)
  case (Cons r es)
  show ?case
  proof (cases "e \<le> re_begin r")
    case True
    with Cons.prems have "\<forall>s \<in> set (r # es). start < re_begin s" by fastforce
    with True show ?thesis by (fastforce simp: range_entry_base_def)
  qed (use Cons in \<open>auto simp: range_entry_base_def range_entry_tag_def\<close>)
qed simp

lemma merged_touching:
  assumes "entries_ok es" "merged es" "r \<in> set es" "s \<in> set es"
    "re_end r < re_begin s" "re_end r + 1 = re_begin s"
  shows "re_tag r \<noteq> re_tag s"
  using assms
proof (induction es rule: merged.induct)
  case (1 x y es)
  consider "r = x" "s = y" | "r = x" "s \<in> set es" | "s = x" "r \<in> set (y # es)" | "r \<in> set (y # es)" "s \<in> set (y # es)"
    | "r = x" "s = x"
    using 1 by auto
  then show ?case
  proof cases
    case 1
    with "1.prems" show ?thesis by (simp add: mergeable_def)
  next
    case 2
    with "1.prems" have "re_end r < re_begin y" "re_begin y < re_begin s" by auto
    with inc_le_iff [OF this(1), of "re_begin y"] "1.prems"(6) show ?thesis by simp
  next
    case 3
    with "1.prems" have "re_end x < re_begin r" "re_begin r \<le> re_end r" "re_begin x \<le> re_end x"
      by (auto simp: entries_ok_def precedes_def)
    with 3 "1.prems"(5) show ?thesis by auto
  qed (use 1 in auto)
qed auto

lemma usable_ram_entry:
  assumes "ranges_ok bm" "page_entries (entries bm)" "sz \<noteq> 0" "unat start + unat sz < 18446744073709551616"
  shows "bootmem_region_targets_usable_ram bm start sz \<longleftrightarrow>
    (\<exists>r \<in> set (entries bm). unat (re_begin r) \<le> unat start \<and>
      unat start + unat sz \<le> unat (re_end r) + 1 \<and> re_tag r = LB_MEM_RAM)"
proof -
  have ok: "entries_ok (entries bm)" using assms(1) by (simp add: ranges_ok_def)
  have "unat (range_entry_end r) = unat (re_end r) + 1" if "r \<in> set (entries bm)" for r
    using assms(2) that by (simp add: page_entries_def unat_range_entry_end)
  moreover have "unat (start + sz) = unat start + unat sz" "0 < unat sz"
    using assms(3,4) by (simp_all add: unat_plus_no_wrap unat_gt_0)
  ultimately show ?thesis
    using usable_ram_loop_iff [OF ok, of start "start + sz"]
    by (auto simp: bootmem_region_targets_usable_ram_def word_less_nat_alt word_le_nat_alt)
qed

text \<open>In a merged map the address behind a RAM entry is not RAM.\<close>

lemma ram_ends:
  assumes "ranges_ok bm" "merged (entries bm)" "page_entries (entries bm)"
    "r \<in> set (entries bm)" "re_tag r = LB_MEM_RAM"
  shows "tag_at bm (range_entry_end r) \<noteq> Some LB_MEM_RAM"
proof
  have ok: "entries_ok (entries bm)" using assms(1) by (simp add: ranges_ok_def)
  have "unat (range_entry_end r) = unat (re_end r) + 1"
    using assms(3,4) by (simp add: page_entries_def unat_range_entry_end)
  then have lt: "re_end r < range_entry_end r" by (simp add: word_less_nat_alt)
  assume "tag_at bm (range_entry_end r) = Some LB_MEM_RAM"
  then obtain s where s: "s \<in> set (entries bm)" "covers s (range_entry_end r)" "re_tag s = LB_MEM_RAM"
    unfolding tag_at_def using tag_in_entry by blast
  have "re_begin r \<le> re_end r" using ok assms(4) by (simp add: entries_ok_def)
  then have less: "re_end r < re_begin s"
    using entries_ok_ordered [OF ok assms(4) s(1)] lt s(2) by (auto simp: covers_def)
  then have "re_end r + 1 = re_begin s"
    using inc_le_iff [OF less, of "re_begin s"] s(2) by (simp add: covers_def range_entry_end_def)
  with less show False using merged_touching [OF ok assms(2,4) s(1)] assms(5) s(3) by simp
qed

text \<open>
  C31. On a map of whole pages whose neighbours are merged, \<open>bootmem_region_targets_usable_ram\<close>
  accepts a nonempty region that does not wrap exactly when every address of it is tagged RAM.
\<close>

theorem bootmem_usable_ram_iff:
  assumes "ranges_ok bm" "merged (entries bm)" "page_entries (entries bm)"
    "sz \<noteq> 0" "unat start + unat sz < 18446744073709551616"
  shows "bootmem_region_targets_usable_ram bm start sz \<longleftrightarrow>
    (\<forall>a. unat start \<le> unat a \<and> unat a < unat start + unat sz \<longrightarrow> tag_at bm a = Some LB_MEM_RAM)"
    (is "?lhs \<longleftrightarrow> ?rhs")
proof
  have ok: "entries_ok (entries bm)" using assms(1) by (simp add: ranges_ok_def)
  assume ?lhs
  then obtain r where r: "r \<in> set (entries bm)" "unat (re_begin r) \<le> unat start"
    "unat start + unat sz \<le> unat (re_end r) + 1" "re_tag r = LB_MEM_RAM"
    using usable_ram_entry [OF assms(1,3-5)] by blast
  then show ?rhs
    using tag_in_member [OF ok r(1)] by (auto simp: tag_at_def covers_def word_le_nat_alt)
next
  assume rhs: ?rhs
  have "0 < unat sz" using assms(4) by (simp add: unat_gt_0)
  then have "tag_at bm start = Some LB_MEM_RAM" using rhs by simp
  then obtain r where r: "r \<in> set (entries bm)" "covers r start" "re_tag r = LB_MEM_RAM"
    unfolding tag_at_def using tag_in_entry by blast
  have "unat (range_entry_end r) = unat (re_end r) + 1"
    using assms(3) r(1) by (simp add: page_entries_def unat_range_entry_end)
  moreover have "unat start \<le> unat (re_end r)" using r(2) by (simp add: covers_def word_le_nat_alt)
  ultimately have "unat start + unat sz \<le> unat (re_end r) + 1"
    using rhs ram_ends [OF assms(1-3) r(1,3)] by (metis le_SucI not_less Suc_eq_plus1)
  with r show ?lhs using usable_ram_entry [OF assms(1,3-5)] by (auto simp: covers_def word_le_nat_alt)
qed

theorem bootmem_usable_ram_iff_witness:
  "bootmem_region_targets_usable_ram ex_bootmem 0x2000 0x1000 \<and>
   tag_at ex_bootmem 0x2fff = Some LB_MEM_RAM"
proof -
  have "ranges_ok ex_bootmem" "merged (entries ex_bootmem)" "page_entries (entries ex_bootmem)"
    "bootmem_region_targets_usable_ram ex_bootmem 0x2000 0x1000"
    by (simp_all add: ex_bootmem_def ranges_ok_def page_entries_def range_entry_base_def
        bootmem_region_targets_usable_ram_def range_entry_end_def range_entry_tag_def)
  with bootmem_usable_ram_iff [of ex_bootmem "0x1000" "0x2000"] show ?thesis
    by (auto dest: spec [of _ "0x2fff"])
qed

text \<open>
  A request within 4095 bytes of 4 GiB is rounded up to nothing: the function returns
  the end of a RAM entry and reserves no memory.
\<close>

theorem bootmem_allocate_buffer_wraps:
  "bootmem_allocate_buffer ex_bootmem 0xfffff001 = (Some 0xa0000, ex_bootmem)"
  by (simp add: bootmem_allocate_buffer_def ex_bootmem_def Let_def ALIGN_UP_def ALIGN_MASK_def
      buffer_fits_def buffer_end_def range_entry_base_def range_entry_end_def range_entry_size_def
      range_entry_tag_def bootmem_add_range_def memranges_insert_def do_action_def)

end
