(* ===== verification/Timer_Queue.thy ===== *)
theory Timer_Queue
  imports Prelude "HOL-Library.Multiset" "HOL-Library.Signed_Division"
begin

text \<open>
  The timer queue, \<^verbatim>\<open>src/coreboot/src/lib/timer_queue.c\<close> with the time arithmetic of
  \<^verbatim>\<open>src/coreboot/src/include/timer.h\<close>: a binary heap of at most 64 pointers to callbacks.
  A pointer is a number; the field \<open>expiration\<close> of the callback it points to is kept in a
  store, \<open>expir\<close>, because \<open>timer_sched_callback\<close> writes it through the pointer. Times are
  signed 32-bit numbers of microseconds. The list \<open>queue\<close> is the part of the array in use,
  so \<open>num_entries\<close> is its length. The clock is an argument, and a callback is a function
  on the whole state, which the boot state machine extends by its own fields.

  The specification is a priority queue on the multiset of the queued callbacks (locale
  \<open>timer_pq\<close>), which the heap implements.
\<close>

type_synonym mono_time = "32 word"
type_synonym tocb = nat

definition MAX_TIMER_QUEUE_ENTRIES :: nat where "MAX_TIMER_QUEUE_ENTRIES = 64"

definition mono_time_add_usecs :: "mono_time \<Rightarrow> 32 word \<Rightarrow> mono_time" where
  "mono_time_add_usecs mt us = mt + us"

definition mono_time_cmp :: "mono_time \<Rightarrow> mono_time \<Rightarrow> int" where
  "mono_time_cmp t1 t2 = (if t1 = t2 then 0 else if sint t1 < sint t2 then - 1 else 1)"

definition mono_time_after :: "mono_time \<Rightarrow> mono_time \<Rightarrow> bool" where
  "mono_time_after t1 t2 \<longleftrightarrow> mono_time_cmp t1 t2 > 0"

definition mono_time_before :: "mono_time \<Rightarrow> mono_time \<Rightarrow> bool" where
  "mono_time_before t1 t2 \<longleftrightarrow> mono_time_cmp t1 t2 < 0"

definition mono_time_diff_microseconds :: "mono_time \<Rightarrow> mono_time \<Rightarrow> 32 word" where
  "mono_time_diff_microseconds t1 t2 = t2 - t1"

definition USECS_PER_MSEC :: "32 word" where "USECS_PER_MSEC = 1000000 div 1000"

definition mono_time_set_usecs :: "32 word \<Rightarrow> mono_time" where
  "mono_time_set_usecs us = us"

definition mono_time_set_msecs :: "32 word \<Rightarrow> mono_time" where
  "mono_time_set_msecs ms = ms * USECS_PER_MSEC"

definition mono_time_add_msecs :: "mono_time \<Rightarrow> 32 word \<Rightarrow> mono_time" where
  "mono_time_add_msecs mt ms = mono_time_add_usecs mt (ms * USECS_PER_MSEC)"

text \<open>
  A stopwatch. The argument \<open>has_mono\<close> is \<^verbatim>\<open>CONFIG_HAVE_MONOTONIC_TIMER\<close>, and \<open>now\<close> the time
  \<^verbatim>\<open>timer_monotonic_get\<close> returns.
\<close>

record stopwatch =
  sw_start :: mono_time
  sw_current :: mono_time
  sw_expires :: mono_time

definition stopwatch_init :: "bool \<Rightarrow> mono_time \<Rightarrow> stopwatch" where
  "stopwatch_init has_mono now =
     (let t = if has_mono then now else 0 in \<lparr>sw_start = t, sw_current = t, sw_expires = t\<rparr>)"

definition stopwatch_init_usecs_expire :: "bool \<Rightarrow> mono_time \<Rightarrow> 32 word \<Rightarrow> stopwatch" where
  "stopwatch_init_usecs_expire has_mono now us =
     (let sw = stopwatch_init has_mono now in sw\<lparr>sw_expires := mono_time_add_usecs (sw_expires sw) us\<rparr>)"

definition stopwatch_init_msecs_expire :: "bool \<Rightarrow> mono_time \<Rightarrow> 32 word \<Rightarrow> stopwatch" where
  "stopwatch_init_msecs_expire has_mono now ms = stopwatch_init_usecs_expire has_mono now (USECS_PER_MSEC * ms)"

definition stopwatch_tick :: "bool \<Rightarrow> mono_time \<Rightarrow> stopwatch \<Rightarrow> stopwatch" where
  "stopwatch_tick has_mono now sw = sw\<lparr>sw_current := if has_mono then now else 0\<rparr>"

definition stopwatch_expired :: "bool \<Rightarrow> mono_time \<Rightarrow> stopwatch \<Rightarrow> bool \<times> stopwatch" where
  "stopwatch_expired has_mono now sw =
     (let sw1 = stopwatch_tick has_mono now sw
      in (\<not> mono_time_before (sw_current sw1) (sw_expires sw1), sw1))"

definition stopwatch_duration_usecs :: "bool \<Rightarrow> mono_time \<Rightarrow> stopwatch \<Rightarrow> 32 word \<times> stopwatch" where
  "stopwatch_duration_usecs has_mono now sw =
     (let sw1 = if mono_time_cmp (sw_start sw) (sw_current sw) = 0 then stopwatch_tick has_mono now sw else sw
      in (mono_time_diff_microseconds (sw_start sw1) (sw_current sw1), sw1))"

definition stopwatch_duration_msecs :: "bool \<Rightarrow> mono_time \<Rightarrow> stopwatch \<Rightarrow> 32 word \<times> stopwatch" where
  "stopwatch_duration_msecs has_mono now sw =
     (case stopwatch_duration_usecs has_mono now sw of
        (us, sw1) \<Rightarrow> (word_of_int (sint us sdiv sint USECS_PER_MSEC), sw1))"

record timer_queue =
  max_entries :: nat
  queue :: "tocb list"

record timer_state =
  expir :: "tocb \<Rightarrow> mono_time"
  tq :: timer_queue

definition global_timer_queue :: timer_queue where
  "global_timer_queue = \<lparr>max_entries = MAX_TIMER_QUEUE_ENTRIES, queue = []\<rparr>"

definition timer_queue_empty :: "timer_queue \<Rightarrow> bool" where
  "timer_queue_empty q \<longleftrightarrow> length (queue q) = 0"

definition timer_queue_full :: "timer_queue \<Rightarrow> bool" where
  "timer_queue_full q \<longleftrightarrow> length (queue q) = max_entries q"

definition timer_queue_head :: "timer_queue \<Rightarrow> tocb option" where
  "timer_queue_head q = (if timer_queue_empty q then None else Some (queue q ! 0))"

function insert_loop :: "(tocb \<Rightarrow> mono_time) \<Rightarrow> tocb \<Rightarrow> nat \<Rightarrow> tocb list \<Rightarrow> tocb list" where
  "insert_loop ex t i q =
     (if i = 0 then q
      else (let p = (i - 1) div 2; parent = q ! p
            in if mono_time_cmp (ex parent) (ex t) \<le> 0 then q
               else insert_loop ex t p (q[p := t, i := parent])))"
  by pat_completeness auto
termination by (relation "measure (\<lambda>(ex, t, i, q). i)") auto

text \<open>The return code and the queue.\<close>

definition timer_queue_insert ::
  "(tocb \<Rightarrow> mono_time) \<Rightarrow> timer_queue \<Rightarrow> tocb \<Rightarrow> int \<times> timer_queue" where
  "timer_queue_insert ex q t =
     (if timer_queue_full q then (- 1, q)
      else (let i = length (queue q)
            in (0, q\<lparr>queue := insert_loop ex t i (queue q @ [t])\<rparr>)))"

definition timer_queue_min_child_index :: "(tocb \<Rightarrow> mono_time) \<Rightarrow> tocb list \<Rightarrow> nat \<Rightarrow> nat option" where
  "timer_queue_min_child_index ex q i =
     (let left = 2 * i + 1
      in if left \<ge> length q then None
         else (let right = left + 1
               in if right \<ge> length q then Some left
                  else if mono_time_cmp (ex (q ! left)) (ex (q ! right)) < 0 then Some left
                  else Some right))"

lemma min_child_bounds:
  "timer_queue_min_child_index ex q i = Some c \<Longrightarrow> i < c \<and> c < length q \<and> (c = 2 * i + 1 \<or> c = 2 * i + 2)"
  by (auto simp: timer_queue_min_child_index_def Let_def split: if_splits)

function remove_head_loop :: "(tocb \<Rightarrow> mono_time) \<Rightarrow> tocb \<Rightarrow> nat \<Rightarrow> tocb list \<Rightarrow> tocb list" where
  "remove_head_loop ex t i q =
     (case timer_queue_min_child_index ex q i of
        None \<Rightarrow> q
      | Some c \<Rightarrow>
          (let child = q ! c
           in if mono_time_cmp (ex t) (ex child) \<le> 0 then q
              else remove_head_loop ex t c (q[c := t, i := child])))"
  by pat_completeness auto
termination
  by (relation "measure (\<lambda>(ex, t, i, q). length q - i)") (auto dest: min_child_bounds)

declare insert_loop.simps [simp del] remove_head_loop.simps [simp del]

text \<open>Called on a queue that is not empty.\<close>

definition timer_queue_remove_head :: "(tocb \<Rightarrow> mono_time) \<Rightarrow> timer_queue \<Rightarrow> timer_queue" where
  "timer_queue_remove_head ex q =
     (let t = last (queue q); q1 = butlast (queue q)
      in q\<lparr>queue := remove_head_loop ex t 0 (q1[0 := t])\<rparr>)"

definition timer_queue_expired ::
  "(tocb \<Rightarrow> mono_time) \<Rightarrow> timer_queue \<Rightarrow> mono_time \<Rightarrow> tocb option \<times> timer_queue" where
  "timer_queue_expired ex q current_time =
     (case timer_queue_head q of
        None \<Rightarrow> (None, q)
      | Some t \<Rightarrow>
          if mono_time_before current_time (ex t) then (None, q)
          else (Some t, timer_queue_remove_head ex q))"

definition timer_sched_callback ::
  "mono_time \<Rightarrow> tocb \<Rightarrow> u32 \<Rightarrow> 'a timer_state_scheme \<Rightarrow> int \<times> 'a timer_state_scheme" where
  "timer_sched_callback current_time t us s =
     (if sint us < 0 then (- 1, s)
      else (let e = mono_time_add_usecs current_time us;
                s1 = s\<lparr>expir := (expir s)(t := e)\<rparr>
            in if us \<noteq> 0 \<and> \<not> mono_time_before current_time e then (- 1, s1)
               else (case timer_queue_insert (expir s1) (tq s1) t of
                       (r, q) \<Rightarrow> (r, s1\<lparr>tq := q\<rparr>))))"

definition timers_run ::
  "(tocb \<Rightarrow> 'a timer_state_scheme \<Rightarrow> 'a timer_state_scheme) \<Rightarrow> mono_time \<Rightarrow> 'a timer_state_scheme \<Rightarrow>
   bool \<times> 'a timer_state_scheme" where
  "timers_run callback current_time s =
     (case timer_queue_expired (expir s) (tq s) current_time of
        (t, q) \<Rightarrow>
          (let s1 = s\<lparr>tq := q\<rparr>;
               s2 = (case t of None \<Rightarrow> s1 | Some t \<Rightarrow> callback t s1)
           in (\<not> timer_queue_empty (tq s2), s2)))"

section \<open>The heap\<close>

abbreviation key :: "(tocb \<Rightarrow> mono_time) \<Rightarrow> tocb \<Rightarrow> int" where
  "key ex t \<equiv> sint (ex t)"

lemma mono_time_cmp_le: "mono_time_cmp a b \<le> 0 \<longleftrightarrow> sint a \<le> sint b"
  by (auto simp: mono_time_cmp_def signed_word_eqI)

lemma mono_time_cmp_less: "mono_time_cmp a b < 0 \<longleftrightarrow> sint a < sint b"
  by (auto simp: mono_time_cmp_def)

definition par :: "nat \<Rightarrow> nat" where
  "par i = (i - 1) div 2"

lemma par_less [simp]: "0 < i \<Longrightarrow> par i < i"
  by (simp add: par_def)

lemma par_child [simp]: "par (2 * i + 1) = i" "par (2 * i + 2) = i" "par (Suc (2 * i)) = i"
    "par (Suc (Suc (2 * i))) = i"
  by (simp_all add: par_def)

lemma par_eq_iff: "0 < i \<Longrightarrow> par i = k \<longleftrightarrow> i = 2 * k + 1 \<or> i = 2 * k + 2"
  by (auto simp: par_def)

definition is_heap :: "(tocb \<Rightarrow> mono_time) \<Rightarrow> tocb list \<Rightarrow> bool" where
  "is_heap ex q \<longleftrightarrow> (\<forall>i < length q. 0 < i \<longrightarrow> key ex (q ! par i) \<le> key ex (q ! i))"

text \<open>A heap but for position \<open>k\<close> and its parent, and but for \<open>k\<close> and its children.\<close>

definition up_ok :: "(tocb \<Rightarrow> mono_time) \<Rightarrow> nat \<Rightarrow> tocb list \<Rightarrow> bool" where
  "up_ok ex k q \<longleftrightarrow>
     (\<forall>i < length q. 0 < i \<longrightarrow> i \<noteq> k \<longrightarrow> key ex (q ! par i) \<le> key ex (q ! i)) \<and>
     (\<forall>i < length q. 0 < i \<longrightarrow> 0 < k \<longrightarrow> par i = k \<longrightarrow> key ex (q ! par k) \<le> key ex (q ! i))"

definition down_ok :: "(tocb \<Rightarrow> mono_time) \<Rightarrow> nat \<Rightarrow> tocb list \<Rightarrow> bool" where
  "down_ok ex k q \<longleftrightarrow>
     (\<forall>i < length q. 0 < i \<longrightarrow> par i \<noteq> k \<longrightarrow> key ex (q ! par i) \<le> key ex (q ! i)) \<and>
     (\<forall>i < length q. 0 < i \<longrightarrow> 0 < k \<longrightarrow> par i = k \<longrightarrow> key ex (q ! par k) \<le> key ex (q ! i))"

lemma up_ok_swap:
  assumes "up_ok ex k q" "0 < k" "k < length q" "key ex (q ! k) < key ex (q ! par k)"
  shows "up_ok ex (par k) (q[par k := q ! k, k := q ! par k])"
proof -
  let ?q = "q[par k := q ! k, k := q ! par k]"
  have lt: "par k < k" using assms(2) by simp
  have nth: "?q ! j = (if j = k then q ! par k else if j = par k then q ! k else q ! j)"
    if "j < length q" for j using that lt assms(3) by (auto simp: nth_list_update)
  have heap: "key ex (q ! par i) \<le> key ex (q ! i)" if "i < length q" "0 < i" "i \<noteq> k" for i
    using assms(1) that by (simp add: up_ok_def)
  have skip: "key ex (q ! par k) \<le> key ex (q ! i)" if "i < length q" "0 < i" "par i = k" for i
    using assms(1,2) that by (simp add: up_ok_def)
  show ?thesis
    unfolding up_ok_def
  proof (intro conjI allI impI)
    fix i assume i: "i < length ?q" "0 < i" "i \<noteq> par k"
    then have "par i < i" "par i < length q" "i < length q" by (auto intro: less_trans [OF par_less])
    then show "key ex (?q ! par i) \<le> key ex (?q ! i)"
      using i heap [of i] skip [of i] assms(4) lt by (auto simp: nth)
  next
    fix i assume i: "i < length ?q" "0 < i" "0 < par k" "par i = par k"
    have pp: "par (par k) < par k" using i(3) by simp
    then have "?q ! par (par k) = q ! par (par k)" using lt assms(3) by (simp add: nth)
    moreover have "key ex (q ! par (par k)) \<le> key ex (q ! par k)"
      using heap [of "par k"] i(3) lt assms(3) by simp
    moreover have "i \<noteq> par k" using i(4) pp by auto
    ultimately show "key ex (?q ! par (par k)) \<le> key ex (?q ! i)"
      using heap [of i] i by (auto simp: nth)
  qed
qed

lemma min_child_least:
  assumes "timer_queue_min_child_index ex q k = Some c" "i < length q" "0 < i" "par i = k"
  shows "key ex (q ! c) \<le> key ex (q ! i)"
  using assms by (auto simp: timer_queue_min_child_index_def Let_def mono_time_cmp_less par_eq_iff
      split: if_splits)

lemma down_ok_swap:
  assumes "down_ok ex k q" "timer_queue_min_child_index ex q k = Some c"
    "key ex (q ! c) < key ex (q ! k)"
  shows "down_ok ex c (q[c := q ! k, k := q ! c])"
proof -
  let ?q = "q[c := q ! k, k := q ! c]"
  have c: "k < c" "c < length q" "par c = k" using min_child_bounds [OF assms(2)] by auto
  have nth: "?q ! j = (if j = k then q ! c else if j = c then q ! k else q ! j)"
    if "j < length q" for j using that c by (auto simp: nth_list_update)
  have heap: "key ex (q ! par i) \<le> key ex (q ! i)" if "i < length q" "0 < i" "par i \<noteq> k" for i
    using assms(1) that by (simp add: down_ok_def)
  have skip: "key ex (q ! par k) \<le> key ex (q ! c)" if "0 < k"
    using assms(1) that c by (simp add: down_ok_def)
  show ?thesis
    unfolding down_ok_def
  proof (intro conjI allI impI)
    fix i assume i: "i < length ?q" "0 < i" "par i \<noteq> c"
    then have "par i < i" "par i < length q" by (auto intro: less_trans [OF par_less])
    then show "key ex (?q ! par i) \<le> key ex (?q ! i)"
      using i heap [of i] skip min_child_least [OF assms(2), of i] assms(3) c
      by (auto simp: nth)
  next
    fix i assume i: "i < length ?q" "0 < i" "0 < c" "par i = c"
    then have "c < i" using par_less by metis
    with i c heap [of i] show "key ex (?q ! par c) \<le> key ex (?q ! i)" by (simp add: nth)
  qed
qed

lemma insert_loop_spec:
  assumes "up_ok ex k q" "k < length q" "q ! k = t"
  shows "is_heap ex (insert_loop ex t k q) \<and> mset (insert_loop ex t k q) = mset q"
  using assms
proof (induction k arbitrary: q rule: less_induct)
  case (less k)
  show ?case
  proof (cases "k = 0 \<or> key ex (q ! par k) \<le> key ex t")
    case True
    then have "insert_loop ex t k q = q"
      by (subst insert_loop.simps) (auto simp: Let_def mono_time_cmp_le par_def)
    moreover have "is_heap ex q" using True less.prems by (auto simp: is_heap_def up_ok_def)
    ultimately show ?thesis by simp
  next
    case False
    let ?q = "q[par k := t, k := q ! par k]"
    have k: "0 < k" "par k < k" using False by simp_all
    have "insert_loop ex t k q = insert_loop ex t (par k) ?q"
      using False by (subst insert_loop.simps) (auto simp: Let_def mono_time_cmp_le par_def)
    moreover have "up_ok ex (par k) ?q"
      using up_ok_swap [OF less.prems(1) k(1) less.prems(2)] less.prems(3) False by simp
    moreover have "mset ?q = mset q"
      using mset_swap [of k q "par k"] less.prems k by simp
    ultimately show ?thesis using less.IH [of "par k" ?q] k less.prems by simp
  qed
qed

lemma remove_head_loop_spec:
  assumes "down_ok ex k q" "k < length q" "q ! k = t"
  shows "is_heap ex (remove_head_loop ex t k q) \<and> mset (remove_head_loop ex t k q) = mset q"
  using assms
proof (induction "length q - k" arbitrary: q k rule: less_induct)
  case less
  show ?case
  proof (cases "timer_queue_min_child_index ex q k")
    case None
    then have "par i \<noteq> k" if "i < length q" "0 < i" for i
      using that by (auto simp: timer_queue_min_child_index_def Let_def par_eq_iff split: if_splits)
    with None less.prems show ?thesis
      by (subst (1 2) remove_head_loop.simps) (auto simp: is_heap_def down_ok_def)
  next
    case (Some c)
    note c = min_child_bounds [OF Some]
    show ?thesis
    proof (cases "key ex t \<le> key ex (q ! c)")
      case True
      then have "remove_head_loop ex t k q = q"
        using Some by (subst remove_head_loop.simps) (simp add: Let_def mono_time_cmp_le)
      moreover have "key ex (q ! par i) \<le> key ex (q ! i)" if "i < length q" "0 < i" for i
        using that less.prems min_child_least [OF Some, of i] True
        by (cases "par i = k") (auto simp: down_ok_def)
      ultimately show ?thesis by (simp add: is_heap_def)
    next
      case False
      let ?q = "q[c := t, k := q ! c]"
      have "remove_head_loop ex t k q = remove_head_loop ex t c ?q"
        using Some False by (subst remove_head_loop.simps) (simp add: Let_def mono_time_cmp_le)
      moreover have "down_ok ex c ?q" using down_ok_swap [OF less.prems(1) Some] False less.prems(3) by simp
      moreover have "mset ?q = mset q" using mset_swap [of k q c] less.prems c by simp
      moreover have "length q - c < length q - k" using c by linarith
      ultimately show ?thesis using less.hyps [of ?q c] c less.prems by simp
    qed
  qed
qed

lemma heap_head_least:
  assumes "is_heap ex q" "i < length q"
  shows "key ex (q ! 0) \<le> key ex (q ! i)"
  using assms(2)
proof (induction i rule: less_induct)
  case (less i)
  show ?case
  proof (cases "i = 0")
    case False
    then have "par i < i" by simp
    with less have "key ex (q ! 0) \<le> key ex (q ! par i)" by simp
    also have "\<dots> \<le> key ex (q ! i)" using assms(1) less.prems False by (simp add: is_heap_def)
    finally show ?thesis .
  qed simp
qed

section \<open>The interface of the queue\<close>

text \<open>
  A priority queue: the elements as a multiset, an insertion that is refused when the
  queue is full, the least element, and its removal.
\<close>

locale timer_pq =
  fixes invar :: "'q \<Rightarrow> bool" and elems :: "'q \<Rightarrow> 'a multiset" and prio :: "'a \<Rightarrow> 'k::linorder"
    and cap :: nat
    and push :: "'q \<Rightarrow> 'a \<Rightarrow> int \<times> 'q" and first :: "'q \<Rightarrow> 'a option" and pop :: "'q \<Rightarrow> 'q"
  assumes bounded: "invar q \<Longrightarrow> size (elems q) \<le> cap"
    and push_ok: "invar q \<Longrightarrow> size (elems q) < cap \<Longrightarrow>
      fst (push q x) = 0 \<and> invar (snd (push q x)) \<and> elems (snd (push q x)) = add_mset x (elems q)"
    and push_full: "invar q \<Longrightarrow> size (elems q) = cap \<Longrightarrow> push q x = (- 1, q)"
    and first_None: "invar q \<Longrightarrow> first q = None \<longleftrightarrow> elems q = {#}"
    and first_Some: "invar q \<Longrightarrow> first q = Some x \<Longrightarrow> x \<in># elems q \<and> (\<forall>y \<in># elems q. prio x \<le> prio y)"
    and pop_ok: "invar q \<Longrightarrow> first q = Some x \<Longrightarrow> invar (pop q) \<and> elems (pop q) = elems q - {#x#}"
begin

text \<open>Emptying the queue yields its elements in the order of their priorities.\<close>

fun drain :: "nat \<Rightarrow> 'q \<Rightarrow> 'a list" where
  "drain 0 q = []"
| "drain (Suc n) q = (case first q of None \<Rightarrow> [] | Some x \<Rightarrow> x # drain n (pop q))"

lemma drain_elems:
  "invar q \<Longrightarrow> size (elems q) \<le> n \<Longrightarrow> mset (drain n q) = elems q"
proof (induction n arbitrary: q)
  case (Suc n)
  show ?case
  proof (cases "first q")
    case None
    moreover from this have "elems q = {#}" using first_None [OF Suc.prems(1)] by simp
    ultimately show ?thesis by simp
  next
    case (Some x)
    with Suc.prems have x: "x \<in># elems q" "invar (pop q)" "elems (pop q) = elems q - {#x#}"
      using first_Some pop_ok by blast+
    then have "size (elems (pop q)) \<le> n" using Suc.prems by (simp add: size_Diff_singleton)
    with Suc.IH x Some show ?thesis by simp
  qed
qed simp

lemma drain_sorted: "invar q \<Longrightarrow> sorted (map prio (drain n q))"
proof (induction n arbitrary: q)
  case (Suc n)
  have sub: "set (drain n q) \<subseteq> set_mset (elems q)" if "invar q" for n q
    using that
  proof (induction n arbitrary: q)
    case (Suc n)
    then show ?case using first_Some pop_ok
      by (auto split: option.splits dest!: in_diffD) (metis in_diffD subsetD)
  qed simp
  show ?case
  proof (cases "first q")
    case (Some x)
    with Suc.prems have "invar (pop q)" "\<forall>y \<in># elems (pop q). prio x \<le> prio y"
      using first_Some pop_ok by (auto dest: in_diffD)
    with Suc.IH sub [of "pop q" n] Some show ?thesis by auto
  qed simp
qed simp

end

definition queue_ok :: "(tocb \<Rightarrow> mono_time) \<Rightarrow> timer_queue \<Rightarrow> bool" where
  "queue_ok ex q \<longleftrightarrow> is_heap ex (queue q) \<and> max_entries q = MAX_TIMER_QUEUE_ENTRIES \<and>
     length (queue q) \<le> MAX_TIMER_QUEUE_ENTRIES"

lemma insert_spec:
  assumes "queue_ok ex q" "length (queue q) < MAX_TIMER_QUEUE_ENTRIES"
  shows "fst (timer_queue_insert ex q t) = 0" "queue_ok ex (snd (timer_queue_insert ex q t))"
    "mset (queue (snd (timer_queue_insert ex q t))) = add_mset t (mset (queue q))"
proof -
  let ?n = "length (queue q)"
  have not_full: "\<not> timer_queue_full q" using assms by (simp add: timer_queue_full_def queue_ok_def)
  have "up_ok ex ?n (queue q @ [t])"
    unfolding up_ok_def
  proof (intro conjI allI impI)
    fix i assume i: "i < length (queue q @ [t])" "0 < i" "i \<noteq> ?n"
    then have "i < ?n" "par i < ?n" by (auto intro: less_trans [OF par_less])
    with assms(1) i show "key ex ((queue q @ [t]) ! par i) \<le> key ex ((queue q @ [t]) ! i)"
      by (simp add: nth_append queue_ok_def is_heap_def)
  next
    fix i assume "i < length (queue q @ [t])" "0 < i" "par i = ?n"
    then show "key ex ((queue q @ [t]) ! par ?n) \<le> key ex ((queue q @ [t]) ! i)"
      using par_less [of i] by simp
  qed
  from insert_loop_spec [OF this, of t]
  have loop: "is_heap ex (insert_loop ex t ?n (queue q @ [t]))"
    "mset (insert_loop ex t ?n (queue q @ [t])) = add_mset t (mset (queue q))" by simp_all
  moreover have "length (insert_loop ex t ?n (queue q @ [t])) = Suc ?n"
    using loop(2) by (metis size_add_mset size_mset)
  ultimately show "fst (timer_queue_insert ex q t) = 0" "queue_ok ex (snd (timer_queue_insert ex q t))"
    "mset (queue (snd (timer_queue_insert ex q t))) = add_mset t (mset (queue q))"
    using assms not_full by (simp_all add: timer_queue_insert_def Let_def queue_ok_def)
qed

lemma remove_head_spec:
  assumes "queue_ok ex q" "queue q \<noteq> []"
  shows "queue_ok ex (timer_queue_remove_head ex q)"
    "mset (queue (timer_queue_remove_head ex q)) = mset (queue q) - {#queue q ! 0#}"
proof -
  define t where "t = last (queue q)"
  define q1 where "q1 = (butlast (queue q))[0 := t]"
  have len: "length q1 = length (queue q) - 1" by (simp add: q1_def)
  have "is_heap ex (remove_head_loop ex t 0 q1) \<and>
    mset (remove_head_loop ex t 0 q1) = mset (queue q) - {#queue q ! 0#}"
  proof (cases "q1 = []")
    case True
    then have "length (queue q) = 1" using len assms(2) by (cases "queue q") auto
    then obtain x where "queue q = [x]" by (cases "queue q") auto
    with True show ?thesis
      by (simp add: remove_head_loop.simps timer_queue_min_child_index_def is_heap_def)
  next
    case False
    then have "0 < length q1" by simp
    then have two: "1 < length (queue q)" using len by linarith
    have nth: "q1 ! i = (if i = 0 then t else queue q ! i)" if "i < length q1" for i
      using that by (auto simp: q1_def nth_butlast nth_list_update)
    have "down_ok ex 0 q1"
      unfolding down_ok_def
    proof (intro conjI allI impI)
      fix i assume i: "i < length q1" "0 < i" "par i \<noteq> 0"
      then have "par i < length q1" by (auto intro: less_trans [OF par_less])
      then show "key ex (q1 ! par i) \<le> key ex (q1 ! i)"
        using i assms(1) len by (simp add: nth queue_ok_def is_heap_def)
    qed simp
    moreover have "mset q1 = mset (queue q) - {#queue q ! 0#}"
    proof -
      obtain x xs where q: "queue q = x # xs @ [t]"
        using two t_def by (metis append_butlast_last_id assms(2) butlast.simps(2) last.simps
            length_Cons list.exhaust_sel list.size(3) nat_neq_iff One_nat_def)
      then show ?thesis by (simp add: q1_def butlast_append)
    qed
    ultimately show ?thesis
      using remove_head_loop_spec [of ex 0 q1 t] False by (simp add: nth)
  qed
  moreover from this have "length (remove_head_loop ex t 0 q1) \<le> length (queue q)"
    by (metis size_mset diff_subset_eq_self size_mset_mono)
  ultimately show "queue_ok ex (timer_queue_remove_head ex q)"
    "mset (queue (timer_queue_remove_head ex q)) = mset (queue q) - {#queue q ! 0#}"
    using assms(1) by (auto simp: timer_queue_remove_head_def Let_def queue_ok_def t_def q1_def)
qed

interpretation heap: timer_pq "queue_ok ex" "\<lambda>q. mset (queue q)" "key ex" MAX_TIMER_QUEUE_ENTRIES
  "timer_queue_insert ex" timer_queue_head "timer_queue_remove_head ex" for ex
proof
  fix q x assume ok: "queue_ok ex q"
  then show "size (mset (queue q)) \<le> MAX_TIMER_QUEUE_ENTRIES" by (simp add: queue_ok_def)
  show "size (mset (queue q)) < MAX_TIMER_QUEUE_ENTRIES \<Longrightarrow>
    fst (timer_queue_insert ex q x) = 0 \<and> queue_ok ex (snd (timer_queue_insert ex q x)) \<and>
    mset (queue (snd (timer_queue_insert ex q x))) = add_mset x (mset (queue q))"
    using insert_spec [OF ok] by simp
  show "size (mset (queue q)) = MAX_TIMER_QUEUE_ENTRIES \<Longrightarrow> timer_queue_insert ex q x = (- 1, q)"
    using ok by (simp add: timer_queue_insert_def timer_queue_full_def queue_ok_def)
  show "timer_queue_head q = None \<longleftrightarrow> mset (queue q) = {#}"
    by (simp add: timer_queue_head_def timer_queue_empty_def)
  assume hd: "timer_queue_head q = Some x"
  then have ne: "queue q \<noteq> []" "x = queue q ! 0"
    by (auto simp: timer_queue_head_def timer_queue_empty_def split: if_splits)
  then show "x \<in># mset (queue q) \<and> (\<forall>y \<in># mset (queue q). key ex x \<le> key ex y)"
    using ok heap_head_least [of ex "queue q"] by (auto simp: queue_ok_def in_set_conv_nth)
  show "queue_ok ex (timer_queue_remove_head ex q) \<and>
    mset (queue (timer_queue_remove_head ex q)) = mset (queue q) - {#x#}"
    using remove_head_spec [OF ok ne(1)] ne(2) by simp
qed

section \<open>Scheduling and running\<close>

lemma queue_ok_update: "t \<notin> set (queue q) \<Longrightarrow> queue_ok (ex(t := e)) q \<longleftrightarrow> queue_ok ex q"
proof -
  assume t: "t \<notin> set (queue q)"
  have "(ex(t := e)) (queue q ! i) = ex (queue q ! i)" if "i < length (queue q)" for i
    using t that nth_mem by fastforce
  moreover have "par i < length (queue q)" if "i < length (queue q)" "0 < i" for i
    using that by (auto intro: less_trans [OF par_less])
  ultimately show ?thesis by (simp add: queue_ok_def is_heap_def)
qed

lemma global_timer_queue_ok: "queue_ok ex global_timer_queue"
  by (simp add: queue_ok_def global_timer_queue_def is_heap_def)

lemma queue_ok_full: "queue_ok ex q \<Longrightarrow> timer_queue_full q \<longleftrightarrow> length (queue q) = MAX_TIMER_QUEUE_ENTRIES"
  by (simp add: queue_ok_def timer_queue_full_def)

lemma mod_wrap_once: "(m::int) \<le> a \<Longrightarrow> a < 2 * m \<Longrightarrow> a mod m = a - m"
  by (metis add.commute diff_add_cancel le_iff_diff_le_0 minus_mod_self2 mod_pos_pos_trivial
      diff_less_eq mult_2 diff_ge_0_iff_ge)

text \<open>The overflow test of the scheduler is exact.\<close>

lemma sum_overflow:
  fixes a b :: "32 word"
  assumes "0 \<le> sint b"
  shows "(b \<noteq> 0 \<and> \<not> sint a < sint (a + b)) \<longleftrightarrow> 2 ^ 31 \<le> sint a + sint b"
    and "sint a + sint b < 2 ^ 31 \<Longrightarrow> sint (a + b) = sint a + sint b"
proof -
  have r: "- (2 ^ 31) \<le> sint a" "sint a < 2 ^ 31" "sint b < 2 ^ 31"
    using sint_ge [of a] sint_lt [of a] sint_lt [of b] by simp_all
  have b: "b \<noteq> 0 \<longleftrightarrow> sint b \<noteq> 0" by (simp add: signed_eq_0_iff)
  have s: "sint (a + b) = (if sint a + sint b < 2 ^ 31 then sint a + sint b else sint a + sint b - 2 ^ 32)"
    using r assms mod_wrap_once [of 4294967296 "sint a + sint b + 2147483648"]
    by (auto simp: sint_word_add signed_take_bit_eq_take_bit_shift take_bit_eq_mod mod_pos_pos_trivial)
  show "(b \<noteq> 0 \<and> \<not> sint a < sint (a + b)) \<longleftrightarrow> 2 ^ 31 \<le> sint a + sint b"
    using r assms b s by auto
  show "sint a + sint b < 2 ^ 31 \<Longrightarrow> sint (a + b) = sint a + sint b" using s by simp
qed

text \<open>Every callback is told apart by its pointer: none is queued twice.\<close>

definition timer_state_ok :: "'a timer_state_scheme \<Rightarrow> bool" where
  "timer_state_ok s \<longleftrightarrow> queue_ok (expir s) (tq s) \<and> distinct (queue (tq s))"

lemma sched_cases:
  "fst (timer_sched_callback now t us s) = 0 \<longleftrightarrow>
     0 \<le> sint us \<and> sint now + sint us < 2 ^ 31 \<and> \<not> timer_queue_full (tq s)"
  "0 \<le> sint us \<Longrightarrow> expir (snd (timer_sched_callback now t us s)) = (expir s)(t := now + us)"
  "fst (timer_sched_callback now t us s) \<noteq> 0 \<Longrightarrow>
     fst (timer_sched_callback now t us s) = - 1 \<and> tq (snd (timer_sched_callback now t us s)) = tq s"
  using sum_overflow(1) [of us now]
  by (auto simp: timer_sched_callback_def timer_queue_insert_def mono_time_before_def mono_time_cmp_less
      mono_time_add_usecs_def Let_def split: prod.splits if_splits)

lemma sched_ok:
  assumes "timer_state_ok s" "t \<notin> set (queue (tq s))"
  shows "timer_state_ok (snd (timer_sched_callback now t us s))"
proof -
  let ?ex = "(expir s)(t := now + us)"
  have ok: "queue_ok ?ex (tq s)" using assms by (simp add: timer_state_ok_def queue_ok_update)
  have ins: "queue_ok ?ex (snd (timer_queue_insert ?ex (tq s) t)) \<and>
    distinct (queue (snd (timer_queue_insert ?ex (tq s) t)))"
  proof (cases "timer_queue_full (tq s)")
    case True
    then show ?thesis using ok assms(1) by (simp add: timer_queue_insert_def timer_state_ok_def)
  next
    case False
    then have "length (queue (tq s)) < MAX_TIMER_QUEUE_ENTRIES"
      using ok queue_ok_full [OF ok] by (simp add: queue_ok_def)
    note ins = insert_spec [OF ok this, of t]
    then have "mset (queue (snd (timer_queue_insert ?ex (tq s) t))) = mset (t # queue (tq s))" by simp
    from mset_eq_imp_distinct_iff [OF this] ins assms show ?thesis by (simp add: timer_state_ok_def)
  qed
  then show ?thesis using ok assms(1)
    by (auto simp: timer_sched_callback_def mono_time_add_usecs_def timer_state_ok_def Let_def
        split: prod.splits)
qed

lemma expired_ok:
  assumes "queue_ok ex q"
  shows "queue_ok ex (snd (timer_queue_expired ex q now))"
    and "fst (timer_queue_expired ex q now) = Some t \<Longrightarrow>
      t \<in># mset (queue q) \<and> key ex t \<le> sint now \<and> (\<forall>u \<in># mset (queue q). key ex t \<le> key ex u) \<and>
      mset (queue (snd (timer_queue_expired ex q now))) = mset (queue q) - {#t#}"
    and "fst (timer_queue_expired ex q now) = None \<Longrightarrow>
      (\<forall>u \<in># mset (queue q). sint now < key ex u) \<and> snd (timer_queue_expired ex q now) = q"
proof -
  consider (none) "timer_queue_head q = None" "mset (queue q) = {#}"
    | (some) h where "timer_queue_head q = Some h" "h \<in># mset (queue q)"
        "\<forall>u \<in># mset (queue q). key ex h \<le> key ex u" "queue_ok ex (timer_queue_remove_head ex q)"
        "mset (queue (timer_queue_remove_head ex q)) = mset (queue q) - {#h#}"
    using heap.first_None [OF assms] heap.first_Some [OF assms] heap.pop_ok [OF assms]
    by (cases "timer_queue_head q") auto
  note cases = this
  show "queue_ok ex (snd (timer_queue_expired ex q now))"
    using assms by (cases rule: cases) (auto simp: timer_queue_expired_def)
  show "t \<in># mset (queue q) \<and> key ex t \<le> sint now \<and> (\<forall>u \<in># mset (queue q). key ex t \<le> key ex u) \<and>
      mset (queue (snd (timer_queue_expired ex q now))) = mset (queue q) - {#t#}"
    if "fst (timer_queue_expired ex q now) = Some t"
    using that
    by (cases rule: cases)
      (auto simp: timer_queue_expired_def mono_time_before_def mono_time_cmp_less split: if_splits)
  show "(\<forall>u \<in># mset (queue q). sint now < key ex u) \<and> snd (timer_queue_expired ex q now) = q"
    if "fst (timer_queue_expired ex q now) = None"
    using that
    by (cases rule: cases)
      (auto simp: timer_queue_expired_def mono_time_before_def mono_time_cmp_less split: if_splits)
qed

lemma timers_run_ok:
  assumes "timer_state_ok s" "\<And>t s. timer_state_ok s \<Longrightarrow> timer_state_ok (callback t s)"
  shows "timer_state_ok (snd (timers_run callback now s))"
proof -
  obtain t q where tq: "timer_queue_expired (expir s) (tq s) now = (t, q)" by fastforce
  have ok: "queue_ok (expir s) (tq s)" using assms(1) by (simp add: timer_state_ok_def)
  have "queue_ok (expir s) q" using expired_ok(1) [OF ok, of now] tq by simp
  moreover have "distinct (queue q)"
  proof (cases t)
    case None
    then show ?thesis using expired_ok(3) [OF ok, of now] tq assms(1) by (simp add: timer_state_ok_def)
  next
    case (Some u)
    then have "mset (queue q) = mset (remove1 u (queue (tq s)))" using expired_ok(2) [OF ok, of now] tq by simp
    from mset_eq_imp_distinct_iff [OF this] show ?thesis using assms(1) by (simp add: timer_state_ok_def)
  qed
  ultimately have "timer_state_ok (s\<lparr>tq := q\<rparr>)" by (simp add: timer_state_ok_def)
  then show ?thesis using tq assms(2) by (auto simp: timers_run_def Let_def split: option.split)
qed

text \<open>The callbacks that successive calls at one time take from the queue.\<close>

fun expired_all :: "(tocb \<Rightarrow> mono_time) \<Rightarrow> nat \<Rightarrow> timer_queue \<Rightarrow> mono_time \<Rightarrow> tocb list \<times> timer_queue" where
  "expired_all ex 0 q now = ([], q)"
| "expired_all ex (Suc n) q now =
     (case timer_queue_expired ex q now of
        (None, q) \<Rightarrow> ([], q)
      | (Some t, q) \<Rightarrow> (case expired_all ex n q now of (ts, q) \<Rightarrow> (t # ts, q)))"

lemma filter_mset_all: "(\<And>x. x \<in># M \<Longrightarrow> P x) \<Longrightarrow> filter_mset P M = M"
  by (simp add: filter_mset_eq_conv)

lemma expired_all_spec:
  assumes "queue_ok ex q" "length (queue q) \<le> n" "expired_all ex n q now = (ts, q')"
  shows "sorted (map (key ex) ts) \<and> mset ts = filter_mset (\<lambda>t. key ex t \<le> sint now) (mset (queue q)) \<and>
    queue_ok ex q' \<and> mset (queue q') = filter_mset (\<lambda>t. sint now < key ex t) (mset (queue q))"
  using assms
proof (induction n arbitrary: q ts)
  case (Suc n)
  obtain r q1 where r: "timer_queue_expired ex q now = (r, q1)" by fastforce
  note exp = expired_ok [OF Suc.prems(1), where now = now, unfolded r fst_conv snd_conv]
  show ?case
  proof (cases r)
    case None
    then have "ts = []" "q' = q1" "q1 = q" "\<forall>u \<in># mset (queue q). sint now < key ex u"
      using exp(3) Suc.prems(3) r by auto
    moreover from this have "filter_mset (\<lambda>t. key ex t \<le> sint now) (mset (queue q)) = {#}"
      by (auto simp: filter_mset_eq_conv)
    moreover have "filter_mset (\<lambda>t. sint now < key ex t) (mset (queue q)) = mset (queue q)"
      using calculation(4) by (rule filter_mset_all [OF bspec])
    ultimately show ?thesis using Suc.prems(1) by (metis list.simps(8) mset.simps(1) sorted0)
  next
    case (Some t)
    then have t: "t \<in># mset (queue q)" "key ex t \<le> sint now" "\<forall>u \<in># mset (queue q). key ex t \<le> key ex u"
      "mset (queue q1) = mset (queue q) - {#t#}" using exp(2) by auto
    obtain ts' where ts: "expired_all ex n q1 now = (ts', q')" "ts = t # ts'"
      using Suc.prems(3) r Some by (auto split: prod.splits)
    have "length (queue q1) \<le> n"
      using t(1,4) Suc.prems(2) by (metis Suc_le_mono size_Diff_singleton size_mset Suc_pred
          diff_le_mono diff_Suc_1)
    from Suc.IH [OF exp(1) this ts(1)]
    have ih: "sorted (map (key ex) ts')" "mset ts' = filter_mset (\<lambda>t. key ex t \<le> sint now) (mset (queue q1))"
      "queue_ok ex q'" "mset (queue q') = filter_mset (\<lambda>t. sint now < key ex t) (mset (queue q1))" by auto
    have split: "mset (queue q) = add_mset t (mset (queue q1))" using t(1,4) by simp
    have "\<forall>u \<in> set ts'. key ex t \<le> key ex u"
      using ih(2) t(3) split by (metis (no_types, lifting) filter_mset_eq_conv set_mset_mset
          mset_subset_eqD multiset_filter_subset union_single_eq_member insert_iff set_mset_add_mset_insert)
    then show ?thesis using ih ts(2) t(2) split by simp
  qed
qed simp

section \<open>Properties\<close>

text \<open>The histories of a timer queue: scheduling and running, with callbacks of the given set.\<close>

inductive timers_reach :: "(tocb \<Rightarrow> timer_state \<Rightarrow> timer_state) set \<Rightarrow> timer_state \<Rightarrow> bool" for C where
  start: "timers_reach C \<lparr>expir = ex, tq = global_timer_queue\<rparr>"
| sched: "timers_reach C s \<Longrightarrow> t \<notin> set (queue (tq s)) \<Longrightarrow>
    timers_reach C (snd (timer_sched_callback now t us s))"
| run: "timers_reach C s \<Longrightarrow> callback \<in> C \<Longrightarrow> timers_reach C (snd (timers_run callback now s))"

text \<open>
  C32. Whatever is scheduled and run, in any order and at any times, the queue stays a heap of
  at most 64 entries in which no callback stands twice, provided a callback is scheduled
  only while it is not queued, and the callbacks themselves keep this invariant.
\<close>

theorem timers_reachable_ok:
  assumes "timers_reach C s" "\<forall>callback \<in> C. \<forall>t s. timer_state_ok s \<longrightarrow> timer_state_ok (callback t s)"
  shows "is_heap (expir s) (queue (tq s)) \<and> length (queue (tq s)) \<le> 64 \<and> distinct (queue (tq s))"
proof -
  have "timer_state_ok s" using assms(1)
  proof induction
    case (start ex)
    then show ?case using global_timer_queue_ok by (simp add: timer_state_ok_def global_timer_queue_def)
  next
    case (sched s t now us)
    then show ?case by (simp add: sched_ok)
  next
    case (run s callback now)
    then show ?case using assms(2) by (intro timers_run_ok) auto
  qed
  then show ?thesis by (simp add: timer_state_ok_def queue_ok_def MAX_TIMER_QUEUE_ENTRIES_def)
qed

text \<open>A callback that schedules another one when there is none queued.\<close>

definition chain_callback :: "tocb \<Rightarrow> timer_state \<Rightarrow> timer_state" where
  "chain_callback t s = (if t \<in> set (queue (tq s)) then s else snd (timer_sched_callback 10 t 5 s))"

definition timers_demo :: timer_state where
  "timers_demo = snd (timer_sched_callback 0 1 20
     (snd (timer_sched_callback 0 2 3 \<lparr>expir = (\<lambda>_. 0), tq = global_timer_queue\<rparr>)))"

lemma timers_demo_reach: "timers_reach C (snd (timer_sched_callback 0 2 3 \<lparr>expir = (\<lambda>_. 0), tq = global_timer_queue\<rparr>))"
  "timers_reach C timers_demo"
proof -
  show s: "timers_reach C (snd (timer_sched_callback 0 2 3 \<lparr>expir = (\<lambda>_. 0), tq = global_timer_queue\<rparr>))"
    by (rule timers_reach.sched [OF timers_reach.start]) (simp add: global_timer_queue_def)
  show "timers_reach C timers_demo"
    unfolding timers_demo_def by (rule timers_reach.sched [OF s]) code_simp
qed

theorem timers_reachable_ok_witness:
  "is_heap (expir (snd (timers_run chain_callback 7 timers_demo))) (queue (tq (snd (timers_run chain_callback 7 timers_demo)))) \<and>
   queue (tq timers_demo) = [2, 1] \<and> queue (tq (snd (timers_run chain_callback 7 timers_demo))) = [2, 1]"
proof -
  have "timers_reach {chain_callback} (snd (timers_run chain_callback 7 timers_demo))"
    by (rule timers_reach.run [OF timers_demo_reach(2)]) simp
  moreover have "\<forall>callback \<in> {chain_callback}. \<forall>t s. timer_state_ok s \<longrightarrow> timer_state_ok (callback t s)"
    by (simp add: chain_callback_def sched_ok)
  ultimately have "is_heap (expir (snd (timers_run chain_callback 7 timers_demo)))
      (queue (tq (snd (timers_run chain_callback 7 timers_demo))))"
    using timers_reachable_ok by blast
  moreover have "queue (tq timers_demo) = [2, 1]" by code_simp
  moreover have "queue (tq (snd (timers_run chain_callback 7 timers_demo))) = [2, 1]" by code_simp
  ultimately show ?thesis by simp
qed

text \<open>
  C12. Successive calls at one time take from the queue exactly the callbacks that have
  expired, the earliest first: none is lost, none is taken early, and the others stay
  queued.
\<close>

theorem timer_queue_expired_complete:
  assumes "queue_ok ex q" "expired_all ex (length (queue q)) q now = (ts, q')"
  shows "sorted (map (\<lambda>t. sint (ex t)) ts) \<and>
    mset ts = filter_mset (\<lambda>t. sint (ex t) \<le> sint now) (mset (queue q)) \<and>
    mset (queue q') = filter_mset (\<lambda>t. sint now < sint (ex t)) (mset (queue q)) \<and> queue_ok ex q'"
  using expired_all_spec [OF assms(1) order_refl assms(2)] by auto

theorem timer_queue_expired_complete_witness:
  "sorted (map (\<lambda>t. sint (expir timers_demo t)) [2, 1]) \<and>
   mset [2, 1] = filter_mset (\<lambda>t. sint (expir timers_demo t) \<le> sint (20 :: 32 word)) (mset (queue (tq timers_demo)))"
proof -
  have ok: "queue_ok (expir timers_demo) (tq timers_demo)"
    unfolding queue_ok_def is_heap_def par_def
    by (intro conjI) code_simp+
  moreover have "expired_all (expir timers_demo) (length (queue (tq timers_demo))) (tq timers_demo) 20 =
    ([2, 1], timer_queue_remove_head (expir timers_demo) (timer_queue_remove_head (expir timers_demo) (tq timers_demo)))"
    by code_simp
  ultimately show ?thesis using timer_queue_expired_complete by blast
qed

text \<open>
  C33. A callback is accepted exactly when the delay is not negative, the expiration does not
  exceed the largest time, and the queue has room. Then its expiration is the exact sum.
\<close>

theorem timer_sched_callback_accepts:
  "(fst (timer_sched_callback now t us s) = 0 \<longleftrightarrow>
      0 \<le> sint us \<and> sint now + sint us < 2 ^ 31 \<and> length (queue (tq s)) \<noteq> max_entries (tq s)) \<and>
   (fst (timer_sched_callback now t us s) = 0 \<longrightarrow>
      sint (expir (snd (timer_sched_callback now t us s)) t) = sint now + sint us)"
  using sched_cases(1) [of now t us s] sched_cases(2) [of us now t s] sum_overflow(2) [of us now] by (auto simp: timer_queue_full_def)

theorem timer_sched_callback_accepts_witness:
  "fst (timer_sched_callback 7 1 2147483640 timers_demo) = 0 \<and>
   sint (expir (snd (timer_sched_callback 7 1 2147483640 timers_demo)) 1) = 2147483647 \<and>
   fst (timer_sched_callback 8 1 2147483640 timers_demo) \<noteq> 0"
proof -
  have "length (queue (tq timers_demo)) \<noteq> max_entries (tq timers_demo)" by code_simp
  then show ?thesis
    using timer_sched_callback_accepts [of 7 1 2147483640 timers_demo]
      timer_sched_callback_accepts [of 8 1 2147483640 timers_demo] by simp
qed

text \<open>
  A callback that is scheduled again while it is queued has its expiration rewritten in
  place, which breaks the heap: here callback 1, queued for time 1, is moved to time 100, and
  at time 50 callback 2, which expired at time 9, is not run.
\<close>

theorem timer_resched_loses_order:
  "let s = snd (timer_sched_callback 0 1 100 (snd (timer_sched_callback 0 2 9
             (snd (timer_sched_callback 0 1 1 \<lparr>expir = (\<lambda>_. 0), tq = global_timer_queue\<rparr>)))))
   in queue (tq s) = [1, 2, 1] \<and> expir s 2 = 9 \<and> expir s 1 = 100 \<and>
      fst (timer_queue_expired (expir s) (tq s) 50) = None"
  by code_simp

end
