(* ===== verification/Boot_State.thy ===== *)
theory Boot_State
  imports Timer_Queue
begin

text \<open>
  The boot state machine of the main stage, \<^verbatim>\<open>src/coreboot/src/lib/hardwaremain.c\<close> and
  \<^verbatim>\<open>src/coreboot/src/include/bootstate.h\<close>. The callbacks of a phase are a linked list through
  the field \<open>next\<close> of the callback structures, which are numbered by their addresses, 0 being
  the null pointer; the field is kept in a store, since scheduling a callback writes it. The
  state extends that of the timer queue, and a callback is a function on all of it.

  What the states call in the rest of the program is a parameter: the interpretation of the
  calls, which may change the state, the callbacks, the clock, and the two calls that hand
  the machine over to a payload or to a resumed system and come back only when they fail.
  A loop that does not end has the result \<open>None\<close>.
\<close>

datatype boot_state_t =
    BS_PRE_DEVICE | BS_DEV_INIT_CHIPS | BS_DEV_ENUMERATE | BS_DEV_RESOURCES | BS_DEV_ENABLE
  | BS_DEV_INIT | BS_POST_DEVICE | BS_OS_RESUME_CHECK | BS_OS_RESUME | BS_WRITE_TABLES
  | BS_PAYLOAD_LOAD | BS_PAYLOAD_BOOT

datatype boot_state_sequence_t = BS_ON_ENTRY | BS_ON_EXIT

text \<open>The enumerations are compared by their numbers.\<close>

fun bs_index :: "boot_state_t \<Rightarrow> nat" where
  "bs_index BS_PRE_DEVICE = 0"
| "bs_index BS_DEV_INIT_CHIPS = 1"
| "bs_index BS_DEV_ENUMERATE = 2"
| "bs_index BS_DEV_RESOURCES = 3"
| "bs_index BS_DEV_ENABLE = 4"
| "bs_index BS_DEV_INIT = 5"
| "bs_index BS_POST_DEVICE = 6"
| "bs_index BS_OS_RESUME_CHECK = 7"
| "bs_index BS_OS_RESUME = 8"
| "bs_index BS_WRITE_TABLES = 9"
| "bs_index BS_PAYLOAD_LOAD = 10"
| "bs_index BS_PAYLOAD_BOOT = 11"

lemma bs_index_inj: "bs_index a = bs_index b \<longleftrightarrow> a = b"
  by (cases a; cases b; simp)

instantiation boot_state_t :: linorder
begin

definition "(a :: boot_state_t) \<le> b \<longleftrightarrow> bs_index a \<le> bs_index b"

definition "(a :: boot_state_t) < b \<longleftrightarrow> bs_index a < bs_index b"

instance
  by standard (auto simp: less_eq_boot_state_t_def less_boot_state_t_def bs_index_inj)

end

instantiation boot_state_sequence_t :: linorder
begin

definition "(a :: boot_state_sequence_t) \<le> b \<longleftrightarrow> a = b \<or> a = BS_ON_ENTRY"

definition "(a :: boot_state_sequence_t) < b \<longleftrightarrow> a = BS_ON_ENTRY \<and> b = BS_ON_EXIT"

instance
  by standard (auto simp: less_eq_boot_state_sequence_t_def less_boot_state_sequence_t_def,
      (metis boot_state_sequence_t.exhaust)+)

end

record boot_phase =
  callbacks :: nat
  blockers :: "32 word"

text \<open>The time samples are the ones written so far, so \<open>num_samples\<close> is their number.\<close>

record boot_state =
  post_code :: "8 word"
  phases :: "boot_state_sequence_t \<Rightarrow> boot_phase"
  arg :: nat
  complete :: bool
  times :: "mono_time list"

record 'w boot = timer_state +
  boot_states :: "boot_state_t \<Rightarrow> boot_state"
  bscb_next :: "nat \<Rightarrow> nat"
  state_id :: boot_state_t
  phase_seq :: boot_state_sequence_t
  ticks :: nat
  world :: 'w

text \<open>The calls into the rest of the program.\<close>

datatype bs_call =
    Timestamp_add_now nat | Dev_initialize_chips | Dev_enumerate | Dev_configure | Dev_enable
  | Dev_initialize | Dev_finalize | Acpi_prepare_resume_backup | Arch_bootstate_coreboot_exit
  | Write_tables | Dev_finalize_chips | Payload_load | Post_code "8 word"
  | Ramstage_adainit | Init_timer | Console_init | Cbmem_initialize | Timestamp_init
  | Acpi_is_wakeup | Exception_init | Threads_initialize

text \<open>A hand-over ends the run of the program; otherwise it continues.\<close>

datatype ('s, 'a) outcome = Handed_over 's | Continues 's 'a

record 'w boot_env =
  config_timer_queue :: bool
  config_have_monotonic_timer :: bool
  config_have_acpi_resume :: bool
  config_arch_x86 :: bool
  config_early_cbmem_init :: bool
  call :: "bs_call \<Rightarrow> 'w boot \<Rightarrow> 'w boot"
  callback :: "nat \<Rightarrow> 'w boot \<Rightarrow> 'w boot"
  timer_callback :: "tocb \<Rightarrow> 'w boot \<Rightarrow> 'w boot"
  clock :: "nat \<Rightarrow> mono_time"
  acpi_find_wakeup_vector :: "'w boot \<Rightarrow> nat"
  acpi_resume :: "nat \<Rightarrow> 'w boot \<Rightarrow> ('w boot, unit) outcome"
  payload_run :: "'w boot \<Rightarrow> ('w boot, unit) outcome"

fun POST_BS :: "boot_state_t \<Rightarrow> 8 word" where
  "POST_BS BS_PRE_DEVICE = 0x70"
| "POST_BS BS_DEV_INIT_CHIPS = 0x71"
| "POST_BS BS_DEV_ENUMERATE = 0x72"
| "POST_BS BS_DEV_RESOURCES = 0x73"
| "POST_BS BS_DEV_ENABLE = 0x74"
| "POST_BS BS_DEV_INIT = 0x75"
| "POST_BS BS_POST_DEVICE = 0x76"
| "POST_BS BS_OS_RESUME_CHECK = 0x77"
| "POST_BS BS_OS_RESUME = 0x78"
| "POST_BS BS_WRITE_TABLES = 0x79"
| "POST_BS BS_PAYLOAD_LOAD = 0x7a"
| "POST_BS BS_PAYLOAD_BOOT = 0x7b"

definition BS_INIT :: "boot_state_t \<Rightarrow> boot_state" where
  "BS_INIT st = \<lparr>post_code = POST_BS st, phases = (\<lambda>_. \<lparr>callbacks = 0, blockers = 0\<rparr>), arg = 0,
     complete = False, times = []\<rparr>"

section \<open>The functions of the states\<close>

definition bs_pre_device :: "'w boot_env \<Rightarrow> 'w boot \<Rightarrow> ('w boot, boot_state_t) outcome" where
  "bs_pre_device e s = Continues s BS_DEV_INIT_CHIPS"

definition bs_dev_init_chips :: "'w boot_env \<Rightarrow> 'w boot \<Rightarrow> ('w boot, boot_state_t) outcome" where
  "bs_dev_init_chips e s =
     (let s1 = call e (Timestamp_add_now 30) s; s2 = call e Dev_initialize_chips s1
      in Continues s2 BS_DEV_ENUMERATE)"

definition bs_dev_enumerate :: "'w boot_env \<Rightarrow> 'w boot \<Rightarrow> ('w boot, boot_state_t) outcome" where
  "bs_dev_enumerate e s = Continues (call e Dev_enumerate s) BS_DEV_RESOURCES"

definition bs_dev_resources :: "'w boot_env \<Rightarrow> 'w boot \<Rightarrow> ('w boot, boot_state_t) outcome" where
  "bs_dev_resources e s =
     (let s1 = call e (Timestamp_add_now 40) s; s2 = call e Dev_configure s1
      in Continues s2 BS_DEV_ENABLE)"

definition bs_dev_enable :: "'w boot_env \<Rightarrow> 'w boot \<Rightarrow> ('w boot, boot_state_t) outcome" where
  "bs_dev_enable e s =
     (let s1 = call e (Timestamp_add_now 50) s; s2 = call e Dev_enable s1
      in Continues s2 BS_DEV_INIT)"

definition bs_dev_init :: "'w boot_env \<Rightarrow> 'w boot \<Rightarrow> ('w boot, boot_state_t) outcome" where
  "bs_dev_init e s =
     (let s1 = call e (Timestamp_add_now 60) s; s2 = call e Dev_initialize s1
      in Continues s2 BS_POST_DEVICE)"

definition bs_post_device :: "'w boot_env \<Rightarrow> 'w boot \<Rightarrow> ('w boot, boot_state_t) outcome" where
  "bs_post_device e s =
     (let s1 = call e Dev_finalize s; s2 = call e (Timestamp_add_now 70) s1
      in Continues s2 BS_OS_RESUME_CHECK)"

definition set_boot_state :: "boot_state_t \<Rightarrow> (boot_state \<Rightarrow> boot_state) \<Rightarrow> 'w boot \<Rightarrow> 'w boot" where
  "set_boot_state st f s = s\<lparr>boot_states := (boot_states s)(st := f (boot_states s st))\<rparr>"

definition bs_os_resume_check :: "'w boot_env \<Rightarrow> 'w boot \<Rightarrow> ('w boot, boot_state_t) outcome" where
  "bs_os_resume_check e s =
     (let wake_vector = if config_have_acpi_resume e then acpi_find_wakeup_vector e s else 0
      in if wake_vector \<noteq> 0 then
           Continues (set_boot_state BS_OS_RESUME (\<lambda>b. b\<lparr>arg := wake_vector\<rparr>) s) BS_OS_RESUME
         else
           (let s1 = if config_have_acpi_resume e then call e Acpi_prepare_resume_backup s else s;
                s2 = call e (Timestamp_add_now 75) s1
            in Continues s2 BS_WRITE_TABLES))"

definition bs_os_resume :: "'w boot_env \<Rightarrow> nat \<Rightarrow> 'w boot \<Rightarrow> ('w boot, boot_state_t) outcome" where
  "bs_os_resume e wake_vector s =
     (if config_have_acpi_resume e then
        (let s1 = call e Arch_bootstate_coreboot_exit s
         in case acpi_resume e wake_vector s1 of
              Handed_over s2 \<Rightarrow> Handed_over s2
            | Continues s2 u \<Rightarrow> Continues s2 BS_WRITE_TABLES)
      else Continues s BS_WRITE_TABLES)"

definition bs_write_tables :: "'w boot_env \<Rightarrow> 'w boot \<Rightarrow> ('w boot, boot_state_t) outcome" where
  "bs_write_tables e s =
     (let s1 = call e (Timestamp_add_now 80) s; s2 = call e Write_tables s1;
          s3 = call e (Timestamp_add_now 85) s2; s4 = call e Dev_finalize_chips s3
      in Continues s4 BS_PAYLOAD_LOAD)"

definition bs_payload_load :: "'w boot_env \<Rightarrow> 'w boot \<Rightarrow> ('w boot, boot_state_t) outcome" where
  "bs_payload_load e s = Continues (call e Payload_load s) BS_PAYLOAD_BOOT"

definition bs_payload_boot :: "'w boot_env \<Rightarrow> 'w boot \<Rightarrow> ('w boot, boot_state_t) outcome" where
  "bs_payload_boot e s =
     (let s1 = call e Arch_bootstate_coreboot_exit s
      in case payload_run e s1 of
           Handed_over s2 \<Rightarrow> Handed_over s2
         | Continues s2 u \<Rightarrow> Continues s2 BS_PAYLOAD_BOOT)"

text \<open>The table \<open>boot_states\<close>: which function a state runs.\<close>

fun run_state :: "'w boot_env \<Rightarrow> boot_state_t \<Rightarrow> nat \<Rightarrow> 'w boot \<Rightarrow> ('w boot, boot_state_t) outcome" where
  "run_state e BS_PRE_DEVICE a s = bs_pre_device e s"
| "run_state e BS_DEV_INIT_CHIPS a s = bs_dev_init_chips e s"
| "run_state e BS_DEV_ENUMERATE a s = bs_dev_enumerate e s"
| "run_state e BS_DEV_RESOURCES a s = bs_dev_resources e s"
| "run_state e BS_DEV_ENABLE a s = bs_dev_enable e s"
| "run_state e BS_DEV_INIT a s = bs_dev_init e s"
| "run_state e BS_POST_DEVICE a s = bs_post_device e s"
| "run_state e BS_OS_RESUME_CHECK a s = bs_os_resume_check e s"
| "run_state e BS_OS_RESUME a s = bs_os_resume e a s"
| "run_state e BS_WRITE_TABLES a s = bs_write_tables e s"
| "run_state e BS_PAYLOAD_LOAD a s = bs_payload_load e s"
| "run_state e BS_PAYLOAD_BOOT a s = bs_payload_boot e s"

section \<open>Walking the states\<close>

definition bs_sample_time :: "'w boot_env \<Rightarrow> boot_state_t \<Rightarrow> 'w boot \<Rightarrow> 'w boot" where
  "bs_sample_time e st s =
     (if config_have_monotonic_timer e
      then set_boot_state st (\<lambda>b. b\<lparr>times := times b @ [clock e (ticks s)]\<rparr>) (s\<lparr>ticks := Suc (ticks s)\<rparr>)
      else s)"

definition bs_timers_run :: "'w boot_env \<Rightarrow> 'w boot \<Rightarrow> bool \<times> 'w boot" where
  "bs_timers_run e s = timers_run (timer_callback e) (clock e (ticks s)) (s\<lparr>ticks := Suc (ticks s)\<rparr>)"

partial_function (option) bs_run_timers :: "'w boot_env \<Rightarrow> bool \<Rightarrow> 'w boot \<Rightarrow> 'w boot option" where
  "bs_run_timers e drain s =
     (if config_timer_queue e then
        (let r = bs_timers_run e s
         in if \<not> fst r then Some (snd r)
            else if drain then bs_run_timers e drain (snd r)
            else Some (snd r))
      else Some s)"

definition set_phase ::
  "boot_state_t \<Rightarrow> boot_state_sequence_t \<Rightarrow> (boot_phase \<Rightarrow> boot_phase) \<Rightarrow> 'w boot \<Rightarrow> 'w boot" where
  "set_phase st sq f s =
     set_boot_state st (\<lambda>b. b\<lparr>phases := (phases b)(sq := f (phases b sq))\<rparr>) s"

abbreviation phase_of :: "'w boot \<Rightarrow> boot_state_t \<Rightarrow> boot_state_sequence_t \<Rightarrow> boot_phase" where
  "phase_of s st sq \<equiv> phases (boot_states s st) sq"

definition remove_first :: "boot_state_t \<Rightarrow> boot_state_sequence_t \<Rightarrow> 'w boot \<Rightarrow> 'w boot" where
  "remove_first st sq s =
     (let bscb = callbacks (phase_of s st sq);
          s1 = set_phase st sq (\<lambda>p. p\<lparr>callbacks := bscb_next s bscb\<rparr>) s
      in s1\<lparr>bscb_next := (bscb_next s1)(bscb := 0)\<rparr>)"

partial_function (option) bs_call_callbacks ::
  "'w boot_env \<Rightarrow> boot_state_t \<Rightarrow> boot_state_sequence_t \<Rightarrow> 'w boot \<Rightarrow> 'w boot option" where
  "bs_call_callbacks e st sq s =
     (if callbacks (phase_of s st sq) \<noteq> 0 then
        bs_call_callbacks e st sq (callback e (callbacks (phase_of s st sq)) (remove_first st sq s))
      else if blockers (phase_of s st sq) = 0 then Some s
      else Option.bind (bs_run_timers e False s) (bs_call_callbacks e st sq))"

text \<open>One turn of the loop of \<open>bs_walk_state_machine\<close> on a state that is not complete.\<close>

definition bs_step :: "'w boot_env \<Rightarrow> 'w boot \<Rightarrow> ('w boot, unit) outcome option" where
  "bs_step e s =
     (let st = state_id s
      in Option.bind (bs_run_timers e False s) (\<lambda>s.
         Option.bind (bs_call_callbacks e st (phase_seq s) (bs_sample_time e st s)) (\<lambda>s.
         (let s = call e (Post_code (post_code (boot_states s st)))
                    (bs_sample_time e st (s\<lparr>phase_seq := BS_ON_EXIT\<rparr>))
          in case run_state e st (arg (boot_states s st)) s of
               Handed_over s \<Rightarrow> Some (Handed_over s)
             | Continues s next_id \<Rightarrow>
                 Option.bind (bs_call_callbacks e st (phase_seq s) (bs_sample_time e st s)) (\<lambda>s.
                 (let s = bs_sample_time e st (s\<lparr>state_id := next_id, phase_seq := BS_ON_ENTRY\<rparr>)
                  in Some (Continues (set_boot_state st (\<lambda>b. b\<lparr>complete := True\<rparr>) s) ())))))))"

partial_function (option) bs_walk_state_machine ::
  "'w boot_env \<Rightarrow> 'w boot \<Rightarrow> ('w boot, unit) outcome option" where
  "bs_walk_state_machine e s =
     (if complete (boot_states s (state_id s)) then Some (Continues s ())
      else Option.bind (bs_step e s) (\<lambda>r.
        case r of Handed_over s \<Rightarrow> Some (Handed_over s)
                | Continues s u \<Rightarrow> bs_walk_state_machine e s))"

declare bs_run_timers.simps [code] bs_call_callbacks.simps [code] bs_walk_state_machine.simps [code]

section \<open>Scheduling and blocking\<close>

definition boot_state_sched_callback ::
  "boot_state_t \<Rightarrow> nat \<Rightarrow> boot_state_sequence_t \<Rightarrow> 'w boot \<Rightarrow> int \<times> 'w boot" where
  "boot_state_sched_callback st bscb sq s =
     (if complete (boot_states s st) then (- 1, s)
      else (let s1 = s\<lparr>bscb_next := (bscb_next s)(bscb := callbacks (phase_of s st sq))\<rparr>
            in (0, set_phase st sq (\<lambda>p. p\<lparr>callbacks := bscb\<rparr>) s1)))"

definition boot_state_sched_on_entry :: "nat \<Rightarrow> boot_state_t \<Rightarrow> 'w boot \<Rightarrow> int \<times> 'w boot" where
  "boot_state_sched_on_entry bscb st s = boot_state_sched_callback st bscb BS_ON_ENTRY s"

definition boot_state_sched_on_exit :: "nat \<Rightarrow> boot_state_t \<Rightarrow> 'w boot \<Rightarrow> int \<times> 'w boot" where
  "boot_state_sched_on_exit bscb st s = boot_state_sched_callback st bscb BS_ON_EXIT s"

record boot_state_init_entry =
  when_state :: boot_state_t
  when_seq :: boot_state_sequence_t
  bscb :: nat

primrec boot_state_schedule_static_entries :: "boot_state_init_entry list \<Rightarrow> 'w boot \<Rightarrow> 'w boot" where
  "boot_state_schedule_static_entries [] s = s"
| "boot_state_schedule_static_entries (cur # slots) s =
     boot_state_schedule_static_entries slots
       (if when_seq cur = BS_ON_ENTRY
        then snd (boot_state_sched_on_entry (bscb cur) (when_state cur) s)
        else snd (boot_state_sched_on_exit (bscb cur) (when_state cur) s))"

definition phase_passed :: "boot_state_t \<Rightarrow> boot_state_sequence_t \<Rightarrow> 'w boot \<Rightarrow> bool" where
  "phase_passed st sq s \<longleftrightarrow> state_id s > st \<or> (state_id s = st \<and> phase_seq s > sq)"

definition boot_state_block :: "boot_state_t \<Rightarrow> boot_state_sequence_t \<Rightarrow> 'w boot \<Rightarrow> int \<times> 'w boot" where
  "boot_state_block st sq s =
     (if phase_passed st sq s then (- 1, s)
      else (0, set_phase st sq (\<lambda>p. p\<lparr>blockers := blockers p + 1\<rparr>) s))"

definition boot_state_unblock :: "boot_state_t \<Rightarrow> boot_state_sequence_t \<Rightarrow> 'w boot \<Rightarrow> int \<times> 'w boot" where
  "boot_state_unblock st sq s =
     (if phase_passed st sq s then (- 1, s)
      else if blockers (phase_of s st sq) = 0 then (- 1, s)
      else (0, set_phase st sq (\<lambda>p. p\<lparr>blockers := blockers p - 1\<rparr>) s))"

definition boot_state_current_block :: "'w boot \<Rightarrow> 'w boot" where
  "boot_state_current_block s = snd (boot_state_block (state_id s) (phase_seq s) s)"

definition boot_state_current_unblock :: "'w boot \<Rightarrow> 'w boot" where
  "boot_state_current_unblock s = snd (boot_state_unblock (state_id s) (phase_seq s) s)"

text \<open>The last call of \<open>main\<close>, to \<open>die\<close>, is the return of the walk.\<close>

definition main_calls :: "'w boot_env \<Rightarrow> bs_call list" where
  "main_calls e =
     [Ramstage_adainit] @ (if config_arch_x86 e then [Init_timer] else []) @
     [Console_init, Post_code 0x39] @ (if config_early_cbmem_init e then [Cbmem_initialize] else []) @
     [Timestamp_init, Timestamp_add_now 10, Post_code 0x80] @
     (if config_have_acpi_resume e then [Acpi_is_wakeup] else []) @
     [Exception_init, Threads_initialize]"

definition boot_main ::
  "'w boot_env \<Rightarrow> boot_state_init_entry list \<Rightarrow> 'w boot \<Rightarrow> ('w boot, unit) outcome option" where
  "boot_main e entries s =
     bs_walk_state_machine e (boot_state_schedule_static_entries entries (fold (call e) (main_calls e) s))"

text \<open>The state at the start of the stage.\<close>

definition boot_start :: "(tocb \<Rightarrow> mono_time) \<Rightarrow> (nat \<Rightarrow> nat) \<Rightarrow> 'w \<Rightarrow> 'w boot" where
  "boot_start ex nxt w = \<lparr>expir = ex, tq = global_timer_queue, boot_states = BS_INIT, bscb_next = nxt,
     state_id = BS_PRE_DEVICE, phase_seq = BS_ON_ENTRY, ticks = 0, world = w\<rparr>"

section \<open>The lists of callbacks\<close>

fun chain :: "(nat \<Rightarrow> nat) \<Rightarrow> nat \<Rightarrow> nat list \<Rightarrow> bool" where
  "chain nxt p [] \<longleftrightarrow> p = 0"
| "chain nxt p (x # xs) \<longleftrightarrow> p = x \<and> x \<noteq> 0 \<and> chain nxt (nxt x) xs"

lemma chain_upd [simp]: "y \<notin> set xs \<Longrightarrow> chain (nxt(y := v)) p xs = chain nxt p xs"
  by (induction xs arbitrary: p) auto

type_synonym schedule = "boot_state_t \<Rightarrow> boot_state_sequence_t \<Rightarrow> nat list"

definition set_schedule ::
  "boot_state_t \<Rightarrow> boot_state_sequence_t \<Rightarrow> nat list \<Rightarrow> schedule \<Rightarrow> schedule" where
  "set_schedule st sq xs L = (\<lambda>st' sq'. if st' = st \<and> sq' = sq then xs else L st' sq')"

lemma set_schedule_simps [simp]:
  "set_schedule st sq xs L st sq = xs"
  "st' \<noteq> st \<or> sq' \<noteq> sq \<Longrightarrow> set_schedule st sq xs L st' sq' = L st' sq'"
  "set_schedule st sq xs (set_schedule st sq ys L) = set_schedule st sq xs L"
  "set_schedule st sq (L st sq) L = L"
  by (auto simp: set_schedule_def fun_eq_iff)

text \<open>The lists in memory, no structure being in two of them, or twice in one.\<close>

definition linked :: "'w boot \<Rightarrow> schedule \<Rightarrow> bool" where
  "linked s L \<longleftrightarrow>
     (\<forall>st sq. chain (bscb_next s) (callbacks (phase_of s st sq)) (L st sq) \<and> distinct (L st sq)) \<and>
     (\<forall>st sq st' sq'. (st, sq) \<noteq> (st', sq') \<longrightarrow> set (L st sq) \<inter> set (L st' sq') = {})"

lemma phase_of_set_phase [simp]:
  "phase_of (set_phase st sq f s) st' sq' = (if st' = st \<and> sq' = sq then f (phase_of s st sq) else phase_of s st' sq')"
  by (simp add: set_phase_def set_boot_state_def)

lemma set_phase_simps [simp]:
  "bscb_next (set_phase st sq f s) = bscb_next s"
  "state_id (set_phase st sq f s) = state_id s"
  "phase_seq (set_phase st sq f s) = phase_seq s"
  "world (set_phase st sq f s) = world s"
  "ticks (set_phase st sq f s) = ticks s"
  "tq (set_phase st sq f s) = tq s" "expir (set_phase st sq f s) = expir s"
  "complete (boot_states (set_phase st sq f s) st') = complete (boot_states s st')"
  "times (boot_states (set_phase st sq f s) st') = times (boot_states s st')"
  "post_code (boot_states (set_phase st sq f s) st') = post_code (boot_states s st')"
  "arg (boot_states (set_phase st sq f s) st') = arg (boot_states s st')"
  by (simp_all add: set_phase_def set_boot_state_def)

lemma linked_sched:
  assumes "linked s L" "b \<noteq> 0" "\<forall>st sq. b \<notin> set (L st sq)" "\<not> complete (boot_states s st)"
  shows "linked (snd (boot_state_sched_callback st b sq s)) (set_schedule st sq (b # L st sq) L)"
  using assms by (auto simp: linked_def boot_state_sched_callback_def set_schedule_def Let_def)

lemma linked_remove:
  assumes "linked s L" "L st sq = b # xs"
  shows "callbacks (phase_of s st sq) = b" "b \<noteq> 0" "linked (remove_first st sq s) (set_schedule st sq xs L)"
proof -
  have c: "chain (bscb_next s) (callbacks (phase_of s st sq)) (b # xs)" "distinct (b # xs)"
    using assms by (metis linked_def)+
  then show b: "callbacks (phase_of s st sq) = b" "b \<noteq> 0" by simp_all
  have other: "b \<notin> set (L st' sq')" if "(st', sq') \<noteq> (st, sq)" for st' sq'
    using assms that unfolding linked_def by (metis disjoint_iff list.set_intros(1))
  have sub: "set (set_schedule st sq xs L st' sq') \<subseteq> set (L st' sq')" for st' sq'
    using assms(2) by (auto simp: set_schedule_def)
  show "linked (remove_first st sq s) (set_schedule st sq xs L)"
    unfolding linked_def
  proof (intro conjI allI impI)
    fix st' sq'
    show "chain (bscb_next (remove_first st sq s)) (callbacks (phase_of (remove_first st sq s) st' sq'))
        (set_schedule st sq xs L st' sq')"
      using assms(1) b c other [of st' sq'] by (auto simp: remove_first_def Let_def set_schedule_def linked_def)
    show "distinct (set_schedule st sq xs L st' sq')"
      using assms(1) c by (auto simp: set_schedule_def linked_def)
  next
    fix st1 st2 :: boot_state_t and sq1 sq2 :: boot_state_sequence_t
    assume "(st1, sq1) \<noteq> (st2, sq2)"
    then have "set (L st1 sq1) \<inter> set (L st2 sq2) = {}" using assms(1) by (simp add: linked_def)
    then show "set (set_schedule st sq xs L st1 sq1) \<inter> set (set_schedule st sq xs L st2 sq2) = {}"
      using sub [of st1 sq1] sub [of st2 sq2] by blast
  qed
qed

section \<open>The order of a boot\<close>

datatype bs_event = Run_callback nat | Do_call bs_call

text \<open>
  The environments of the ordering theorem: calls and callbacks act on the world alone, timer
  callbacks on the timers alone, there is nothing to resume, and the payload takes over.
\<close>

definition same_machine :: "'w boot \<Rightarrow> 'w boot \<Rightarrow> bool" where
  "same_machine s' s \<longleftrightarrow> boot_states s' = boot_states s \<and> bscb_next s' = bscb_next s \<and>
     state_id s' = state_id s \<and> phase_seq s' = phase_seq s \<and> world s' = world s"

definition quiet_env :: "(bs_event \<Rightarrow> 'w \<Rightarrow> 'w) \<Rightarrow> 'w boot_env \<Rightarrow> bool" where
  "quiet_env act e \<longleftrightarrow>
     (\<forall>c s. call e c s = s\<lparr>world := act (Do_call c) (world s)\<rparr>) \<and>
     (\<forall>b s. callback e b s = s\<lparr>world := act (Run_callback b) (world s)\<rparr>) \<and>
     (\<forall>t s. same_machine (timer_callback e t s) s) \<and>
     (\<forall>s. acpi_find_wakeup_vector e s = 0) \<and> (\<forall>s. payload_run e s = Handed_over s)"

definition state_calls :: "bool \<Rightarrow> boot_state_t \<Rightarrow> bs_call list" where
  "state_calls resume st = (case st of
     BS_DEV_INIT_CHIPS \<Rightarrow> [Timestamp_add_now 30, Dev_initialize_chips]
   | BS_DEV_ENUMERATE \<Rightarrow> [Dev_enumerate]
   | BS_DEV_RESOURCES \<Rightarrow> [Timestamp_add_now 40, Dev_configure]
   | BS_DEV_ENABLE \<Rightarrow> [Timestamp_add_now 50, Dev_enable]
   | BS_DEV_INIT \<Rightarrow> [Timestamp_add_now 60, Dev_initialize]
   | BS_POST_DEVICE \<Rightarrow> [Dev_finalize, Timestamp_add_now 70]
   | BS_OS_RESUME_CHECK \<Rightarrow> (if resume then [Acpi_prepare_resume_backup] else []) @ [Timestamp_add_now 75]
   | BS_WRITE_TABLES \<Rightarrow> [Timestamp_add_now 80, Write_tables, Timestamp_add_now 85, Dev_finalize_chips]
   | BS_PAYLOAD_LOAD \<Rightarrow> [Payload_load]
   | BS_PAYLOAD_BOOT \<Rightarrow> [Arch_bootstate_coreboot_exit]
   | _ \<Rightarrow> [])"

definition state_entry :: "schedule \<Rightarrow> bool \<Rightarrow> boot_state_t \<Rightarrow> bs_event list" where
  "state_entry L resume st = map Run_callback (L st BS_ON_ENTRY) @
     map Do_call (Post_code (POST_BS st) # state_calls resume st)"

definition boot_path :: "boot_state_t list" where
  "boot_path = [BS_PRE_DEVICE, BS_DEV_INIT_CHIPS, BS_DEV_ENUMERATE, BS_DEV_RESOURCES, BS_DEV_ENABLE,
     BS_DEV_INIT, BS_POST_DEVICE, BS_OS_RESUME_CHECK, BS_WRITE_TABLES, BS_PAYLOAD_LOAD]"

definition boot_script :: "schedule \<Rightarrow> bool \<Rightarrow> bs_event list" where
  "boot_script L resume =
     concat (map (\<lambda>st. state_entry L resume st @ map Run_callback (L st BS_ON_EXIT)) boot_path) @
     state_entry L resume BS_PAYLOAD_BOOT"

text \<open>What is known of a state in a quiet boot.\<close>

definition at_boot ::
  "schedule \<Rightarrow> boot_state_t set \<Rightarrow> boot_state_t \<Rightarrow> boot_state_sequence_t \<Rightarrow> 'w \<Rightarrow> 'w boot \<Rightarrow> bool" where
  "at_boot L C st sq w s \<longleftrightarrow> linked s L \<and> state_id s = st \<and> phase_seq s = sq \<and> world s = w \<and>
     (\<forall>st. (complete (boot_states s st) \<longleftrightarrow> st \<in> C) \<and> post_code (boot_states s st) = POST_BS st \<and>
       (\<forall>sq. blockers (phase_of s st sq) = 0))"

lemma run_timers_once: "bs_run_timers e False s = Some (if config_timer_queue e then snd (bs_timers_run e s) else s)"
  by (simp add: bs_run_timers.simps Let_def)

lemma at_boot_cong: "at_boot L C st sq w s \<Longrightarrow> same_machine s' s \<Longrightarrow> at_boot L C st sq w s'"
  by (simp add: at_boot_def linked_def same_machine_def)

lemma timers_same_machine:
  assumes "\<forall>t s. same_machine (timer_callback e t s) s"
  shows "same_machine (snd (bs_timers_run e s)) s"
proof -
  obtain t q where q: "timer_queue_expired (expir s) (tq s) (clock e (ticks s)) = (t, q)" by fastforce
  let ?s = "s\<lparr>ticks := Suc (ticks s), tq := q\<rparr>"
  have base: "same_machine ?s s" by (simp add: same_machine_def)
  have "snd (bs_timers_run e s) = (case t of None \<Rightarrow> ?s | Some u \<Rightarrow> timer_callback e u ?s)"
    using q by (simp add: bs_timers_run_def timers_run_def Let_def)
  then show ?thesis using base assms by (cases t) (auto simp: same_machine_def)
qed

lemma at_timers:
  assumes "quiet_env act e" "at_boot L C st sq w s"
  shows "\<exists>s'. bs_run_timers e False s = Some s' \<and> at_boot L C st sq w s'"
  using at_boot_cong [OF assms(2) timers_same_machine] assms by (simp add: quiet_env_def run_timers_once)

lemma at_sample:
  assumes "at_boot L C st sq w s"
  shows "at_boot L C st sq w (bs_sample_time e st' s)"
  using assms by (simp add: bs_sample_time_def at_boot_def linked_def set_boot_state_def)

lemma at_call:
  assumes "quiet_env act e" "at_boot L C st sq w s"
  shows "at_boot L C st sq (act (Do_call c) w) (call e c s)"
  using assms by (simp add: quiet_env_def at_boot_def linked_def)

lemma at_callbacks:
  assumes "quiet_env act e" "at_boot L C st sq w s"
  shows "\<exists>s'. bs_call_callbacks e st' sq' s = Some s' \<and>
    at_boot (set_schedule st' sq' [] L) C st sq (fold (\<lambda>b. act (Run_callback b)) (L st' sq') w) s'"
  using assms(2)
proof (induction "L st' sq'" arbitrary: L s w)
  case Nil
  then have "callbacks (phase_of s st' sq') = 0" "blockers (phase_of s st' sq') = 0"
    unfolding at_boot_def linked_def by (metis chain.simps(1))+
  then have "bs_call_callbacks e st' sq' s = Some s" by (simp add: bs_call_callbacks.simps)
  moreover have "set_schedule st' sq' [] L = L" using Nil.hyps set_schedule_simps(4) [of st' sq' L] by simp
  ultimately show ?case using Nil by (metis fold_simps(1))
next
  case (Cons b bs)
  then have lk: "linked s L" by (simp add: at_boot_def)
  note rem = linked_remove [OF lk Cons.hyps(2) [symmetric]]
  let ?L = "set_schedule st' sq' bs L"
  have "at_boot ?L C st sq w (remove_first st' sq' s)"
    using Cons.prems rem(3) by (simp add: at_boot_def remove_first_def Let_def)
  then have "at_boot ?L C st sq (act (Run_callback b) w) (callback e b (remove_first st' sq' s))"
    using assms(1) by (simp add: quiet_env_def at_boot_def linked_def)
  moreover have "bs_call_callbacks e st' sq' s = bs_call_callbacks e st' sq' (callback e b (remove_first st' sq' s))"
    using rem(1,2) by (subst bs_call_callbacks.simps) simp
  ultimately show ?case using Cons.hyps(1) [of ?L] Cons.hyps(2) by (metis fold_simps(2) set_schedule_simps(1,3))
qed

fun bs_succ :: "boot_state_t \<Rightarrow> boot_state_t" where
  "bs_succ BS_PRE_DEVICE = BS_DEV_INIT_CHIPS"
| "bs_succ BS_DEV_INIT_CHIPS = BS_DEV_ENUMERATE"
| "bs_succ BS_DEV_ENUMERATE = BS_DEV_RESOURCES"
| "bs_succ BS_DEV_RESOURCES = BS_DEV_ENABLE"
| "bs_succ BS_DEV_ENABLE = BS_DEV_INIT"
| "bs_succ BS_DEV_INIT = BS_POST_DEVICE"
| "bs_succ BS_POST_DEVICE = BS_OS_RESUME_CHECK"
| "bs_succ BS_OS_RESUME_CHECK = BS_WRITE_TABLES"
| "bs_succ BS_OS_RESUME = BS_WRITE_TABLES"
| "bs_succ BS_WRITE_TABLES = BS_PAYLOAD_LOAD"
| "bs_succ BS_PAYLOAD_LOAD = BS_PAYLOAD_BOOT"
| "bs_succ BS_PAYLOAD_BOOT = BS_PAYLOAD_BOOT"

lemma bs_succ_greater: "st \<in> set boot_path \<Longrightarrow> st < bs_succ st"
  by (auto simp: boot_path_def less_boot_state_t_def)

lemma at_calls:
  assumes "quiet_env act e" "at_boot L C st sq w s"
  shows "at_boot L C st sq (fold act (map Do_call cs) w) (fold (call e) cs s)"
  using assms(2) by (induction cs arbitrary: w s) (auto intro: at_call [OF assms(1)])

lemma run_state_calls:
  assumes "quiet_env act e" "st \<in> set boot_path"
  shows "run_state e st a s = Continues (fold (call e) (state_calls (config_have_acpi_resume e) st) s) (bs_succ st)"
  using assms
  by (auto simp: boot_path_def state_calls_def bs_pre_device_def bs_dev_init_chips_def bs_dev_enumerate_def
      bs_dev_resources_def bs_dev_enable_def bs_dev_init_def bs_post_device_def bs_os_resume_check_def
      bs_write_tables_def bs_payload_load_def quiet_env_def Let_def)

lemma fold_callbacks: "fold (\<lambda>b. act (Run_callback b)) bs w = fold act (map Run_callback bs) w"
  by (simp add: fold_map comp_def)

text \<open>The first half of a turn, up to the function of the state.\<close>

lemma at_entry:
  assumes "quiet_env act e" "at_boot L C st BS_ON_ENTRY w s"
  obtains s1 s2 where "bs_run_timers e False s = Some s1" "phase_seq s1 = BS_ON_ENTRY"
    "bs_call_callbacks e st BS_ON_ENTRY (bs_sample_time e st s1) = Some s2"
    "at_boot (set_schedule st BS_ON_ENTRY [] L) C st BS_ON_EXIT
       (act (Do_call (Post_code (POST_BS st))) (fold act (map Run_callback (L st BS_ON_ENTRY)) w))
       (call e (Post_code (post_code (boot_states s2 st))) (bs_sample_time e st (s2\<lparr>phase_seq := BS_ON_EXIT\<rparr>)))"
proof -
  let ?L = "set_schedule st BS_ON_ENTRY [] L" and ?w = "fold act (map Run_callback (L st BS_ON_ENTRY)) w"
  obtain s1 where s1: "bs_run_timers e False s = Some s1" "at_boot L C st BS_ON_ENTRY w s1"
    using at_timers [OF assms] by blast
  obtain s2 where s2: "bs_call_callbacks e st BS_ON_ENTRY (bs_sample_time e st s1) = Some s2"
      "at_boot ?L C st BS_ON_ENTRY ?w s2"
    using at_callbacks [OF assms(1) at_sample [OF s1(2)]] unfolding fold_callbacks by blast
  have "at_boot ?L C st BS_ON_EXIT ?w (bs_sample_time e st (s2\<lparr>phase_seq := BS_ON_EXIT\<rparr>))"
    using s2(2) by (intro at_sample) (simp add: at_boot_def linked_def)
  from at_call [OF assms(1) this] have "at_boot ?L C st BS_ON_EXIT (act (Do_call (Post_code (POST_BS st))) ?w)
      (call e (Post_code (post_code (boot_states s2 st))) (bs_sample_time e st (s2\<lparr>phase_seq := BS_ON_EXIT\<rparr>)))"
    using s2(2) by (simp add: at_boot_def)
  then show thesis using that s1 s2(1) by (simp add: at_boot_def)
qed

lemma at_complete:
  assumes "at_boot L C st sq w s"
  shows "at_boot L (insert st' C) st sq w (set_boot_state st' (\<lambda>b. b\<lparr>complete := True\<rparr>) s)"
proof -
  let ?s = "set_boot_state st' (\<lambda>b. b\<lparr>complete := True\<rparr>) s"
  have "phase_of ?s st sq = phase_of s st sq" for st sq by (simp add: set_boot_state_def)
  moreover have "bscb_next ?s = bscb_next s" by (simp add: set_boot_state_def)
  ultimately have "linked ?s L" using assms by (simp add: at_boot_def linked_def)
  then show ?thesis using assms by (auto simp: at_boot_def set_boot_state_def)
qed

lemma at_step:
  assumes "quiet_env act e" "at_boot L C st BS_ON_ENTRY w s" "st \<in> set boot_path"
  shows "\<exists>s'. bs_step e s = Some (Continues s' ()) \<and>
    at_boot (set_schedule st BS_ON_EXIT [] (set_schedule st BS_ON_ENTRY [] L)) (insert st C) (bs_succ st) BS_ON_ENTRY
      (fold act (state_entry L (config_have_acpi_resume e) st @ map Run_callback (L st BS_ON_EXIT)) w) s'"
proof -
  let ?L = "set_schedule st BS_ON_ENTRY [] L"
  from assms(2) have sid: "state_id s = st" by (simp add: at_boot_def)
  from at_entry [OF assms(1,2)] obtain s1 s2 where s1: "bs_run_timers e False s = Some s1" "phase_seq s1 = BS_ON_ENTRY"
    and s2: "bs_call_callbacks e st BS_ON_ENTRY (bs_sample_time e st s1) = Some s2"
    and s3: "at_boot ?L C st BS_ON_EXIT
       (act (Do_call (Post_code (POST_BS st))) (fold act (map Run_callback (L st BS_ON_ENTRY)) w))
       (call e (Post_code (post_code (boot_states s2 st))) (bs_sample_time e st (s2\<lparr>phase_seq := BS_ON_EXIT\<rparr>)))"
      (is "at_boot _ _ _ _ ?w3 ?s3") .
  define s4 where "s4 = fold (call e) (state_calls (config_have_acpi_resume e) st) ?s3"
  define w4 where "w4 = fold act (map Do_call (state_calls (config_have_acpi_resume e) st)) ?w3"
  have run: "run_state e st a ?s3 = Continues s4 (bs_succ st)" for a
    unfolding s4_def by (rule run_state_calls [OF assms(1,3)])
  have s4: "at_boot ?L C st BS_ON_EXIT w4 s4" unfolding s4_def w4_def by (rule at_calls [OF assms(1) s3])
  obtain s5 where s5: "bs_call_callbacks e st BS_ON_EXIT (bs_sample_time e st s4) = Some s5"
      "at_boot (set_schedule st BS_ON_EXIT [] ?L) C st BS_ON_EXIT (fold act (map Run_callback (?L st BS_ON_EXIT)) w4) s5"
    using at_callbacks [OF assms(1) at_sample [OF s4]] unfolding fold_callbacks by blast
  let ?s6 = "bs_sample_time e st (s5\<lparr>state_id := bs_succ st, phase_seq := BS_ON_ENTRY\<rparr>)"
  have "phase_seq s4 = BS_ON_EXIT" using s4 by (simp add: at_boot_def)
  then have "bs_step e s = Some (Continues (set_boot_state st (\<lambda>b. b\<lparr>complete := True\<rparr>) ?s6) ())"
    using s1 s2 run s5(1) by (simp add: bs_step_def sid Let_def)
  moreover have "at_boot (set_schedule st BS_ON_EXIT [] ?L) C (bs_succ st) BS_ON_ENTRY
      (fold act (map Run_callback (L st BS_ON_EXIT)) w4) ?s6"
    using s5(2) by (intro at_sample) (simp add: at_boot_def linked_def)
  then have "at_boot (set_schedule st BS_ON_EXIT [] ?L) (insert st C) (bs_succ st) BS_ON_ENTRY
      (fold act (map Run_callback (L st BS_ON_EXIT)) w4) (set_boot_state st (\<lambda>b. b\<lparr>complete := True\<rparr>) ?s6)"
    by (rule at_complete)
  ultimately show ?thesis by (simp add: w4_def state_entry_def)
qed

text \<open>The schedule and the completed states only matter from the current state on.\<close>

definition at_from :: "schedule \<Rightarrow> boot_state_t \<Rightarrow> 'w \<Rightarrow> 'w boot \<Rightarrow> bool" where
  "at_from L st w s \<longleftrightarrow> (\<exists>L' C. at_boot L' C st BS_ON_ENTRY w s \<and> (\<forall>st' \<ge> st. L' st' = L st' \<and> st' \<notin> C))"

lemma walk_turn:
  assumes "quiet_env act e" "at_from L st w s" "st \<in> set boot_path"
  shows "\<exists>s'. bs_walk_state_machine e s = bs_walk_state_machine e s' \<and>
    at_from L (bs_succ st) (fold act (state_entry L (config_have_acpi_resume e) st @ map Run_callback (L st BS_ON_EXIT)) w) s'"
proof -
  obtain L' C where L': "at_boot L' C st BS_ON_ENTRY w s" "\<forall>st' \<ge> st. L' st' = L st' \<and> st' \<notin> C"
    using assms(2) by (auto simp: at_from_def)
  from at_step [OF assms(1) L'(1) assms(3)] obtain s' where s': "bs_step e s = Some (Continues s' ())"
    "at_boot (set_schedule st BS_ON_EXIT [] (set_schedule st BS_ON_ENTRY [] L')) (insert st C) (bs_succ st) BS_ON_ENTRY
      (fold act (state_entry L' (config_have_acpi_resume e) st @ map Run_callback (L' st BS_ON_EXIT)) w) s'" by blast
  have "\<not> complete (boot_states s (state_id s))" using L' by (simp add: at_boot_def)
  then have "bs_walk_state_machine e s = bs_walk_state_machine e s'"
    using s'(1) by (subst bs_walk_state_machine.simps) simp
  moreover have "st < bs_succ st" using assms(3) by (rule bs_succ_greater)
  then have "\<forall>st' \<ge> bs_succ st. set_schedule st BS_ON_EXIT [] (set_schedule st BS_ON_ENTRY [] L') st' = L st' \<and>
      st' \<notin> insert st C"
    using L'(2) by (auto simp: set_schedule_def fun_eq_iff)
  moreover have "L' st = L st" using L'(2) by simp
  ultimately show ?thesis using s'(2) unfolding at_from_def state_entry_def by metis
qed

lemma walk_end:
  assumes "quiet_env act e" "at_from L BS_PAYLOAD_BOOT w s"
  shows "\<exists>s'. bs_walk_state_machine e s = Some (Handed_over s') \<and> state_id s' = BS_PAYLOAD_BOOT \<and>
    world s' = fold act (state_entry L (config_have_acpi_resume e) BS_PAYLOAD_BOOT) w"
proof -
  let ?st = BS_PAYLOAD_BOOT
  obtain L' C where L': "at_boot L' C ?st BS_ON_ENTRY w s" "L' ?st = L ?st" "?st \<notin> C"
    using assms(2) by (auto simp: at_from_def)
  then have sid: "state_id s = ?st" "\<not> complete (boot_states s ?st)" by (simp_all add: at_boot_def)
  from at_entry [OF assms(1) L'(1)] obtain s1 s2 where s1: "bs_run_timers e False s = Some s1" "phase_seq s1 = BS_ON_ENTRY"
    and s2: "bs_call_callbacks e ?st BS_ON_ENTRY (bs_sample_time e ?st s1) = Some s2"
    and s3: "at_boot (set_schedule ?st BS_ON_ENTRY [] L') C ?st BS_ON_EXIT
       (act (Do_call (Post_code (POST_BS ?st))) (fold act (map Run_callback (L' ?st BS_ON_ENTRY)) w))
       (call e (Post_code (post_code (boot_states s2 ?st))) (bs_sample_time e ?st (s2\<lparr>phase_seq := BS_ON_EXIT\<rparr>)))"
      (is "at_boot _ _ _ _ ?w3 ?s3") .
  have "run_state e ?st a ?s3 = Handed_over (call e Arch_bootstate_coreboot_exit ?s3)" for a
    using assms(1) by (simp add: bs_payload_boot_def quiet_env_def)
  then have "bs_walk_state_machine e s = Some (Handed_over (call e Arch_bootstate_coreboot_exit ?s3))"
    using s1 s2 sid by (subst bs_walk_state_machine.simps) (simp add: bs_step_def Let_def)
  with at_call [OF assms(1) s3, of Arch_bootstate_coreboot_exit] L'(2) show ?thesis
    by (auto simp: at_boot_def state_entry_def state_calls_def)
qed

fun follows :: "boot_state_t \<Rightarrow> boot_state_t list \<Rightarrow> bool" where
  "follows st [] \<longleftrightarrow> st = BS_PAYLOAD_BOOT"
| "follows st (x # xs) \<longleftrightarrow> x = st \<and> st \<in> set boot_path \<and> follows (bs_succ st) xs"

lemma walk_follows:
  assumes "quiet_env act e" "at_from L st w s" "follows st xs"
  shows "\<exists>s'. bs_walk_state_machine e s = Some (Handed_over s') \<and> state_id s' = BS_PAYLOAD_BOOT \<and>
    world s' = fold act (concat (map (\<lambda>st. state_entry L (config_have_acpi_resume e) st @
      map Run_callback (L st BS_ON_EXIT)) xs) @ state_entry L (config_have_acpi_resume e) BS_PAYLOAD_BOOT) w"
  using assms(2,3)
proof (induction xs arbitrary: st w s)
  case Nil
  then show ?case using walk_end [OF assms(1)] by simp
next
  case (Cons x xs)
  then have x: "x = st" "st \<in> set boot_path" "follows (bs_succ st) xs" by simp_all
  from walk_turn [OF assms(1) Cons.prems(1) x(2)] obtain s' where "bs_walk_state_machine e s = bs_walk_state_machine e s'"
    "at_from L (bs_succ st) (fold act (state_entry L (config_have_acpi_resume e) st @ map Run_callback (L st BS_ON_EXIT)) w) s'"
    by blast
  with Cons.IH [OF _ x(3)] x(1) show ?case by fastforce
qed

definition static_schedule :: "boot_state_init_entry list \<Rightarrow> schedule" where
  "static_schedule entries st sq =
     rev (map bscb (filter (\<lambda>c. when_state c = st \<and> when_seq c = sq) entries))"

lemma static_schedule_snoc:
  "static_schedule (entries @ [c]) =
     set_schedule (when_state c) (when_seq c) (bscb c # static_schedule entries (when_state c) (when_seq c))
       (static_schedule entries)"
  by (auto simp: static_schedule_def set_schedule_def fun_eq_iff)

lemma static_entries_snoc:
  "boot_state_schedule_static_entries (entries @ [c]) s =
     snd (boot_state_sched_callback (when_state c) (bscb c) (when_seq c) (boot_state_schedule_static_entries entries s))"
  by (induction entries arbitrary: s)
    (auto simp: boot_state_sched_on_entry_def boot_state_sched_on_exit_def split: boot_state_sequence_t.splits,
     metis boot_state_sequence_t.exhaust)

lemma at_static_entries:
  assumes "at_boot (\<lambda>_ _. []) {} st sq w s" "distinct (map bscb entries)" "0 \<notin> set (map bscb entries)"
  shows "at_boot (static_schedule entries) {} st sq w (boot_state_schedule_static_entries entries s)"
  using assms(2,3)
proof (induction entries rule: rev_induct)
  case Nil
  have "static_schedule [] = (\<lambda>_ _. [])" by (simp add: static_schedule_def fun_eq_iff)
  then show ?case using assms(1) by simp
next
  case (snoc c entries)
  let ?s = "boot_state_schedule_static_entries entries s"
  have ih: "at_boot (static_schedule entries) {} st sq w ?s" using snoc by simp
  then have inc: "\<not> complete (boot_states ?s (when_state c))" "linked ?s (static_schedule entries)"
    by (simp_all add: at_boot_def)
  have "\<forall>st sq. bscb c \<notin> set (static_schedule entries st sq)" "bscb c \<noteq> 0"
    using snoc.prems by (auto simp: static_schedule_def)
  from linked_sched [OF inc(2) this(2,1) inc(1), of "when_seq c"] ih inc(1) show ?case
    by (simp add: static_entries_snoc static_schedule_snoc at_boot_def boot_state_sched_callback_def Let_def)
qed

lemma at_boot_start: "at_boot (\<lambda>_ _. []) {} BS_PRE_DEVICE BS_ON_ENTRY w (boot_start ex nxt w)"
  by (simp add: at_boot_def boot_start_def linked_def BS_INIT_def)

section \<open>What callbacks may do\<close>

text \<open>The fields that only the walk itself writes.\<close>

definition same_track :: "'w boot \<Rightarrow> 'w boot \<Rightarrow> bool" where
  "same_track s' s \<longleftrightarrow> state_id s' = state_id s \<and> phase_seq s' = phase_seq s \<and>
     (\<forall>st. complete (boot_states s' st) = complete (boot_states s st) \<and>
           times (boot_states s' st) = times (boot_states s st))"

lemma same_track_refl [simp]: "same_track s s"
  by (simp add: same_track_def)

lemma same_track_trans: "same_track s2 s1 \<Longrightarrow> same_track s1 s \<Longrightarrow> same_track s2 s"
  by (simp add: same_track_def)

text \<open>The services offered to callbacks keep them.\<close>

lemma services_same_track:
  "same_track (snd (boot_state_sched_on_entry b st s)) s"
  "same_track (snd (boot_state_sched_on_exit b st s)) s"
  "same_track (snd (boot_state_block st sq s)) s" "same_track (snd (boot_state_unblock st sq s)) s"
  "same_track (boot_state_current_block s) s" "same_track (boot_state_current_unblock s) s"
  "same_track (snd (timer_sched_callback now t us s)) s"
  by (auto simp: same_track_def boot_state_sched_on_entry_def boot_state_sched_on_exit_def
      boot_state_sched_callback_def boot_state_block_def boot_state_unblock_def boot_state_current_block_def
      boot_state_current_unblock_def timer_sched_callback_def Let_def split: prod.splits)

definition tracked_env :: "'w boot_env \<Rightarrow> bool" where
  "tracked_env e \<longleftrightarrow>
     (\<forall>c s. same_track (call e c s) s) \<and> (\<forall>b s. same_track (callback e b s) s) \<and>
     (\<forall>t s. same_track (timer_callback e t s) s) \<and>
     (\<forall>v s s' u. acpi_resume e v s = Continues s' u \<longrightarrow> same_track s' s) \<and>
     (\<forall>s s' u. payload_run e s = Continues s' u \<longrightarrow> same_track s' s)"

lemma timers_same_track:
  assumes "tracked_env e" "bs_run_timers e False s = Some s'"
  shows "same_track s' s"
proof -
  obtain t q where q: "timer_queue_expired (expir s) (tq s) (clock e (ticks s)) = (t, q)" by fastforce
  let ?s = "s\<lparr>ticks := Suc (ticks s), tq := q\<rparr>"
  have base: "same_track ?s s" by (simp add: same_track_def)
  have "snd (bs_timers_run e s) = (case t of None \<Rightarrow> ?s | Some u \<Rightarrow> timer_callback e u ?s)"
    using q by (simp add: bs_timers_run_def timers_run_def Let_def)
  moreover have "same_track (timer_callback e u ?s) ?s" for u using assms(1) by (simp add: tracked_env_def)
  ultimately have "same_track (snd (bs_timers_run e s)) s"
    using base by (cases t) (auto intro: same_track_trans)
  then show ?thesis using assms(2) by (auto simp: run_timers_once split: if_splits)
qed

lemma callbacks_same_track:
  assumes "tracked_env e" "bs_call_callbacks e st sq s = Some s'"
  shows "same_track s' s"
  using assms(2,1)
proof (induction rule: bs_call_callbacks.raw_induct [rotated 1, consumes 1, case_names step])
  case (step rec e st sq s r)
  let ?b = "callbacks (phase_of s st sq)"
  have turn: "same_track (callback e ?b (remove_first st sq s)) s"
  proof (rule same_track_trans)
    show "same_track (callback e ?b (remove_first st sq s)) (remove_first st sq s)"
      using step.prems by (simp add: tracked_env_def)
    show "same_track (remove_first st sq s) s" by (simp add: remove_first_def same_track_def Let_def)
  qed
  consider "?b \<noteq> 0" "rec e st sq (callback e ?b (remove_first st sq s)) = Some r" | "r = s"
    | s1 where "bs_run_timers e False s = Some s1" "rec e st sq s1 = Some r"
    using step.hyps by (auto split: if_splits simp: bind_eq_Some_conv)
  then show ?case
  proof cases
    case 1
    then show ?thesis using step.IH step.prems turn by (blast intro: same_track_trans)
  next
    case 3
    then show ?thesis using step.IH step.prems timers_same_track by (blast intro: same_track_trans)
  qed simp
qed

lemma run_state_track:
  assumes "tracked_env e" "run_state e st a s = Continues s' n"
  shows "same_track s' s \<and> (n = bs_succ st \<or> st = BS_OS_RESUME_CHECK \<and> n = BS_OS_RESUME)"
proof -
  have c: "same_track (call e k s1) s" if "same_track s1 s" for k s1
    using assms(1) that unfolding tracked_env_def by (blast intro: same_track_trans)
  have o: "same_track s2 s"
    if "acpi_resume e v s1 = Continues s2 u \<or> payload_run e s1 = Continues s2 u" "same_track s1 s" for v s1 s2 u
    using assms(1) that unfolding tracked_env_def by (blast intro: same_track_trans)
  have a: "same_track (set_boot_state st (\<lambda>b. b\<lparr>arg := v\<rparr>) s) s" for st v
    by (simp add: set_boot_state_def same_track_def)
  show ?thesis using assms(2)
    by (cases st)
      (auto simp: bs_pre_device_def bs_dev_init_chips_def bs_dev_enumerate_def bs_dev_resources_def
        bs_dev_enable_def bs_dev_init_def bs_post_device_def bs_os_resume_check_def bs_os_resume_def
        bs_write_tables_def bs_payload_load_def bs_payload_boot_def Let_def
        split: outcome.splits if_splits intro!: c a intro: o)
qed

definition sampled :: "'w boot_env \<Rightarrow> boot_state_t \<Rightarrow> nat \<Rightarrow> boot_state_t \<Rightarrow> 'w boot \<Rightarrow> 'w boot \<Rightarrow> bool" where
  "sampled e st k sid s' s \<longleftrightarrow> state_id s' = sid \<and>
     (\<forall>st'. complete (boot_states s' st') = complete (boot_states s st') \<and>
       length (times (boot_states s' st')) = length (times (boot_states s st')) +
         (if st' = st \<and> config_have_monotonic_timer e then k else 0))"

lemma sampled_track: "sampled e st k sid s1 s \<Longrightarrow> same_track s2 s1 \<Longrightarrow> sampled e st k sid s2 s"
  by (simp add: sampled_def same_track_def)

lemma sampled_sample: "sampled e st k sid s1 s \<Longrightarrow> sampled e st (Suc k) sid (bs_sample_time e st s1) s"
  by (auto simp: sampled_def bs_sample_time_def set_boot_state_def)

lemma sampled_phase: "sampled e st k sid s1 s \<Longrightarrow> sampled e st k sid (s1\<lparr>phase_seq := q\<rparr>) s"
  "sampled e st k sid s1 s \<Longrightarrow> sampled e st k sid' (s1\<lparr>state_id := sid'\<rparr>) s"
  by (auto simp: sampled_def)

lemma step_track:
  assumes "tracked_env e" "bs_step e s = Some (Continues s' ())"
  shows "\<exists>n s1. (n = bs_succ (state_id s) \<or> state_id s = BS_OS_RESUME_CHECK \<and> n = BS_OS_RESUME) \<and>
    sampled e (state_id s) 4 n s1 s \<and> phase_seq s' = BS_ON_ENTRY \<and>
    s' = set_boot_state (state_id s) (\<lambda>b. b\<lparr>complete := True\<rparr>) s1"
proof -
  define st where "st = state_id s"
  define post where "post s2 = call e (Post_code (post_code (boot_states s2 st)))
    (bs_sample_time e st (s2\<lparr>phase_seq := BS_ON_EXIT\<rparr>))" for s2
  from assms(2) obtain s1 s2 where
    1: "bs_run_timers e False s = Some s1" and
    2: "bs_call_callbacks e st (phase_seq s1) (bs_sample_time e st s1) = Some s2" and
    r: "(case run_state e st (arg (boot_states (post s2) st)) (post s2) of
           Handed_over s \<Rightarrow> Some (Handed_over s)
         | Continues s next_id \<Rightarrow>
             Option.bind (bs_call_callbacks e st (phase_seq s) (bs_sample_time e st s)) (\<lambda>s.
               Some (Continues (set_boot_state st (\<lambda>b. b\<lparr>complete := True\<rparr>)
                 (bs_sample_time e st (s\<lparr>state_id := next_id, phase_seq := BS_ON_ENTRY\<rparr>))) ()))) =
        Some (Continues s' ())"
    unfolding bs_step_def Let_def st_def [symmetric] post_def by (auto simp: bind_eq_Some_conv)
  from r obtain s3 n s4 where
    3: "run_state e st (arg (boot_states (post s2) st)) (post s2) = Continues s3 n" and
    4: "bs_call_callbacks e st (phase_seq s3) (bs_sample_time e st s3) = Some s4" and
    5: "s' = set_boot_state st (\<lambda>b. b\<lparr>complete := True\<rparr>)
          (bs_sample_time e st (s4\<lparr>state_id := n, phase_seq := BS_ON_ENTRY\<rparr>))"
    by (cases "run_state e st (arg (boot_states (post s2) st)) (post s2)") (auto simp: bind_eq_Some_conv)
  have call: "same_track (call e c x) x" for c x using assms(1) by (simp add: tracked_env_def)
  note cb = callbacks_same_track [OF assms(1)]
  have "sampled e st 0 st s s" by (simp add: sampled_def st_def)
  from sampled_track [OF this timers_same_track [OF assms(1) 1]] have "sampled e st 0 st s1 s" .
  from sampled_track [OF sampled_sample [OF this] cb [OF 2]] have "sampled e st (Suc 0) st s2 s" .
  from sampled_track [OF sampled_sample [OF sampled_phase(1) [OF this]] call]
  have "sampled e st (Suc (Suc 0)) st (post s2) s" unfolding post_def .
  from sampled_track [OF this] run_state_track [OF assms(1) 3] have "sampled e st (Suc (Suc 0)) st s3 s" by blast
  from sampled_track [OF sampled_sample [OF this] cb [OF 4]] have "sampled e st (Suc (Suc (Suc 0))) st s4 s" .
  from sampled_sample [OF sampled_phase(1) [OF sampled_phase(2) [OF this]]]
  have "sampled e st 4 n (bs_sample_time e st (s4\<lparr>state_id := n, phase_seq := BS_ON_ENTRY\<rparr>)) s"
    by (simp add: numeral_eq_Suc)
  moreover have "phase_seq s' = BS_ON_ENTRY"
    unfolding 5 by (simp add: bs_sample_time_def set_boot_state_def)
  ultimately show ?thesis
    using 5 run_state_track [OF assms(1) 3] unfolding st_def by blast
qed

text \<open>The states at the head of the loop.\<close>

inductive bs_reach :: "'w boot_env \<Rightarrow> 'w boot \<Rightarrow> 'w boot \<Rightarrow> bool" for e s0 where
  start: "bs_reach e s0 s0"
| turn: "bs_reach e s0 s \<Longrightarrow> \<not> complete (boot_states s (state_id s)) \<Longrightarrow>
    bs_step e s = Some (Continues s' ()) \<Longrightarrow> bs_reach e s0 s'"

definition walk_inv :: "'w boot_env \<Rightarrow> 'w boot \<Rightarrow> bool" where
  "walk_inv e s \<longleftrightarrow> phase_seq s = BS_ON_ENTRY \<and>
     (\<forall>st. (complete (boot_states s st) \<longrightarrow> st < state_id s \<or> st = BS_PAYLOAD_BOOT \<and> state_id s = BS_PAYLOAD_BOOT) \<and>
       (st < state_id s \<longrightarrow> st \<noteq> BS_OS_RESUME \<longrightarrow> complete (boot_states s st)) \<and>
       length (times (boot_states s st)) =
         (if complete (boot_states s st) \<and> config_have_monotonic_timer e then 4 else 0))"

lemma next_order:
  assumes "n = bs_succ st \<or> st = BS_OS_RESUME_CHECK \<and> n = BS_OS_RESUME"
  shows "(st < n \<or> st = BS_PAYLOAD_BOOT \<and> n = BS_PAYLOAD_BOOT) \<and>
    (\<forall>st'. st' < n \<longrightarrow> st' \<noteq> BS_OS_RESUME \<longrightarrow> st' < st \<or> st' = st)"
  using assms
  by (cases st; cases n; auto simp: less_boot_state_t_def) (case_tac st'; simp)+

lemma walk_inv_step:
  assumes "tracked_env e" "walk_inv e s" "\<not> complete (boot_states s (state_id s))"
    "bs_step e s = Some (Continues s' ())"
  shows "walk_inv e s'"
proof -
  obtain n s1 where n: "n = bs_succ (state_id s) \<or> state_id s = BS_OS_RESUME_CHECK \<and> n = BS_OS_RESUME"
    and s1: "sampled e (state_id s) 4 n s1 s" "phase_seq s' = BS_ON_ENTRY"
      "s' = set_boot_state (state_id s) (\<lambda>b. b\<lparr>complete := True\<rparr>) s1"
    using step_track [OF assms(1,4)] by blast
  have sid: "state_id s' = n" using s1 by (simp add: sampled_def set_boot_state_def)
  have comp: "complete (boot_states s' st) \<longleftrightarrow> st = state_id s \<or> complete (boot_states s st)" for st
    using s1 by (simp add: sampled_def set_boot_state_def)
  have len: "length (times (boot_states s' st)) = length (times (boot_states s st)) +
      (if st = state_id s \<and> config_have_monotonic_timer e then 4 else 0)" for st
    using s1 by (simp add: sampled_def set_boot_state_def)
  note ord = next_order [OF n]
  show ?thesis unfolding walk_inv_def
  proof (intro conjI allI impI)
    fix st
    assume "complete (boot_states s' st)"
    then have "st \<le> state_id s" using assms(2) comp unfolding walk_inv_def by (metis order.refl less_imp_le)
    then show "st < state_id s' \<or> st = BS_PAYLOAD_BOOT \<and> state_id s' = BS_PAYLOAD_BOOT"
      using ord assms(2,3) \<open>complete (boot_states s' st)\<close> comp unfolding sid walk_inv_def
      by (metis order.strict_trans)
  next
    fix st
    assume "st < state_id s'" "st \<noteq> BS_OS_RESUME"
    then show "complete (boot_states s' st)"
      using ord assms(2) comp unfolding sid walk_inv_def by blast
  next
    fix st
    show "length (times (boot_states s' st)) =
        (if complete (boot_states s' st) \<and> config_have_monotonic_timer e then 4 else 0)"
      using assms(2,3) comp [of st] len [of st] by (auto simp: walk_inv_def)
  qed (rule s1(2))
qed

lemma walk_inv_reach: "bs_reach e s0 s \<Longrightarrow> tracked_env e \<Longrightarrow> walk_inv e s0 \<Longrightarrow> walk_inv e s"
  by (induction rule: bs_reach.induct) (auto intro: walk_inv_step)

lemma walk_inv_static:
  "walk_inv e s \<Longrightarrow> walk_inv e (boot_state_schedule_static_entries entries s)"
proof (induction entries rule: rev_induct)
  case (snoc c entries)
  then show ?case
    by (auto simp: static_entries_snoc walk_inv_def boot_state_sched_callback_def Let_def)
qed simp

section \<open>Waiting for a timer\<close>

text \<open>
  A phase with a single blocker that timer \<open>t\<close> removes; the other timers act on the world
  alone, and from its reading \<open>K\<close> on the clock is past the expiration of \<open>t\<close>.
\<close>

definition waiting :: "'w boot_env \<Rightarrow> (tocb \<Rightarrow> 'w \<Rightarrow> 'w) \<Rightarrow> boot_state_t \<Rightarrow> boot_state_sequence_t \<Rightarrow> tocb \<Rightarrow> nat \<Rightarrow>
   'w boot \<Rightarrow> bool" where
  "waiting e f st sq t K s \<longleftrightarrow>
     config_timer_queue e \<and> callbacks (phase_of s st sq) = 0 \<and> blockers (phase_of s st sq) = 1 \<and>
     \<not> phase_passed st sq s \<and> queue_ok (expir s) (tq s) \<and> t \<in> set (queue (tq s)) \<and>
     (\<forall>s. timer_callback e t s = snd (boot_state_unblock st sq s)) \<and>
     (\<forall>u s. u \<noteq> t \<longrightarrow> timer_callback e u s = s\<lparr>world := f u (world s)\<rparr>) \<and>
     (\<forall>k \<ge> K. sint (expir s t) \<le> sint (clock e k))"

lemma waiting_turn:
  assumes "waiting e f st sq t K s" "bs_run_timers e False s = Some s'"
  shows "callbacks (phase_of s' st sq) = 0 \<and> blockers (phase_of s' st sq) = 0 \<or>
    waiting e f st sq t K s' \<and> (K - ticks s') + length (queue (tq s')) < (K - ticks s) + length (queue (tq s))"
proof -
  obtain r q where q: "timer_queue_expired (expir s) (tq s) (clock e (ticks s)) = (r, q)" by fastforce
  let ?s = "s\<lparr>ticks := Suc (ticks s), tq := q\<rparr>"
  have s': "s' = (case r of None \<Rightarrow> ?s | Some u \<Rightarrow> timer_callback e u ?s)"
    using assms q by (simp add: waiting_def run_timers_once bs_timers_run_def timers_run_def Let_def)
  have ok: "queue_ok (expir s) (tq s)" and t: "t \<in> set (queue (tq s))" using assms(1) by (simp_all add: waiting_def)
  note exp = expired_ok [OF ok, where now = "clock e (ticks s)", unfolded q fst_conv snd_conv]
  show ?thesis
  proof (cases r)
    case None
    then have "q = tq s" "sint (clock e (ticks s)) < sint (expir s t)" using exp(3) t by auto
    then have "ticks s < K" using assms(1) unfolding waiting_def by (meson not_less)
    then show ?thesis using assms(1) None s' \<open>q = tq s\<close> by (simp add: waiting_def phase_passed_def)
  next
    case (Some u)
    then have u: "u \<in># mset (queue (tq s))" "mset (queue q) = mset (queue (tq s)) - {#u#}" using exp(2) by auto
    show ?thesis
    proof (cases "u = t")
      case True
      have "\<not> phase_passed st sq ?s" "phase_of ?s st sq = phase_of s st sq"
        using assms(1) by (simp_all add: waiting_def phase_passed_def)
      then show ?thesis using assms(1) True Some s' by (simp add: waiting_def boot_state_unblock_def)
    next
      case False
      then have "s' = ?s\<lparr>world := f u (world s)\<rparr>" using assms(1) Some s' by (simp add: waiting_def)
      moreover have "t \<in># mset (queue q)" using u(2) t False by (simp add: in_diff_count)
      moreover have "length (queue q) < length (queue (tq s))"
        using u by (metis size_Diff1_less size_mset)
      ultimately show ?thesis using assms(1) exp(1) by (auto simp: waiting_def phase_passed_def)
    qed
  qed
qed

lemma waiting_ends:
  assumes "waiting e f st sq t K s"
  shows "\<exists>s'. bs_call_callbacks e st sq s = Some s' \<and> blockers (phase_of s' st sq) = 0"
  using assms
proof (induction "(K - ticks s) + length (queue (tq s))" arbitrary: s rule: less_induct)
  case less
  obtain s1 where s1: "bs_run_timers e False s = Some s1" by (simp add: run_timers_once)
  have unfold: "bs_call_callbacks e st sq s = bs_call_callbacks e st sq s1"
    using less.prems s1 by (subst bs_call_callbacks.simps) (simp add: waiting_def)
  from waiting_turn [OF less.prems s1] show ?case
  proof
    assume "callbacks (phase_of s1 st sq) = 0 \<and> blockers (phase_of s1 st sq) = 0"
    then show ?thesis unfolding unfold by (simp add: bs_call_callbacks.simps)
  next
    assume "waiting e f st sq t K s1 \<and> K - ticks s1 + length (queue (tq s1)) < K - ticks s + length (queue (tq s))"
    then show ?thesis unfolding unfold using less.hyps by blast
  qed
qed

section \<open>Properties\<close>

text \<open>
  C5. An undisturbed boot: the calls and callbacks act on the world alone (they schedule
  nothing, block nothing and leave the state machine and the timers as they are), timers leave
  the machine alone, there is no wake-up vector to resume from, the payload does not return, and
  the static entries are distinct. Such a boot reaches the payload, and the calls and callbacks
  made are exactly these, in this order: the initialization of \<open>main\<close>; then for every state, from
  \<open>BS_PRE_DEVICE\<close> to \<open>BS_PAYLOAD_BOOT\<close> without \<open>BS_OS_RESUME\<close>, the entry callbacks, the last
  scheduled first, the post code, the calls of the state, and the exit callbacks.
\<close>

theorem boot_main_order:
  assumes "quiet_env act e" "distinct (map bscb entries)" "0 \<notin> set (map bscb entries)"
  shows "\<exists>s. boot_main e entries (boot_start ex nxt w) = Some (Handed_over s) \<and> state_id s = BS_PAYLOAD_BOOT \<and>
    world s = fold act (map Do_call (main_calls e) @
      boot_script (static_schedule entries) (config_have_acpi_resume e)) w"
proof -
  let ?w = "fold act (map Do_call (main_calls e)) w"
  have "at_boot (\<lambda>_ _. []) {} BS_PRE_DEVICE BS_ON_ENTRY ?w (fold (call e) (main_calls e) (boot_start ex nxt w))"
    by (rule at_calls [OF assms(1) at_boot_start])
  from at_static_entries [OF this assms(2,3)]
  have "at_from (static_schedule entries) BS_PRE_DEVICE ?w
      (boot_state_schedule_static_entries entries (fold (call e) (main_calls e) (boot_start ex nxt w)))"
    by (auto simp: at_from_def)
  moreover have "follows BS_PRE_DEVICE boot_path" by (simp add: boot_path_def)
  ultimately show ?thesis
    using walk_follows [OF assms(1)] unfolding boot_main_def boot_script_def fold_append comp_def by blast
qed

definition log_env :: "bs_event list boot_env" where
  "log_env = \<lparr>config_timer_queue = True, config_have_monotonic_timer = True, config_have_acpi_resume = False,
     config_arch_x86 = True, config_early_cbmem_init = True,
     call = (\<lambda>c s. s\<lparr>world := world s @ [Do_call c]\<rparr>),
     callback = (\<lambda>b s. s\<lparr>world := world s @ [Run_callback b]\<rparr>),
     timer_callback = (\<lambda>t s. s), clock = of_nat, acpi_find_wakeup_vector = (\<lambda>s. 0),
     acpi_resume = (\<lambda>v s. Continues s ()), payload_run = Handed_over\<rparr>"

definition two_entries :: "boot_state_init_entry list" where
  "two_entries = [\<lparr>when_state = BS_DEV_INIT, when_seq = BS_ON_EXIT, bscb = 1\<rparr>,
                  \<lparr>when_state = BS_DEV_INIT, when_seq = BS_ON_EXIT, bscb = 2\<rparr>]"

theorem boot_main_order_witness:
  "\<exists>s. boot_main log_env two_entries (boot_start (\<lambda>_. 0) (\<lambda>_. 0) []) = Some (Handed_over s) \<and>
     state_id s = BS_PAYLOAD_BOOT \<and>
     take 3 (drop (length (main_calls log_env) + 14) (world s)) =
       [Do_call Dev_initialize, Run_callback 2, Run_callback 1]"
proof -
  let ?act = "\<lambda>ev w. w @ [ev]"
  have log: "fold ?act evs w = w @ evs" for evs w :: "bs_event list"
    by (induction evs arbitrary: w) simp_all
  have "quiet_env ?act log_env" by (simp add: quiet_env_def log_env_def same_machine_def)
  moreover have "distinct (map bscb two_entries)" "0 \<notin> set (map bscb two_entries)" by (simp_all add: two_entries_def)
  ultimately obtain s where "boot_main log_env two_entries (boot_start (\<lambda>_. 0) (\<lambda>_. 0) []) = Some (Handed_over s)"
    "state_id s = BS_PAYLOAD_BOOT"
    "world s = map Do_call (main_calls log_env) @ boot_script (static_schedule two_entries) False"
    using boot_main_order [of ?act log_env two_entries "\<lambda>_. 0" "\<lambda>_. 0" "[]"]
    unfolding log by (auto simp: log_env_def)
  moreover have "take 3 (drop 14 (boot_script (static_schedule two_entries) False)) =
       [Do_call Dev_initialize, Run_callback 2, Run_callback 1]" by code_simp
  ultimately show ?thesis by auto
qed

text \<open>
  C34. Whatever the callbacks do through the services of the state machine, which leave its
  current state, its phase, the complete flags and the times alone, at every turn of the walk
  every complete state lies before the current one, but for \<open>BS_PAYLOAD_BOOT\<close> when it is met
  again; the states before the current one are complete, \<open>BS_OS_RESUME\<close> apart; and the times of
  a state never exceed the four places of its array.
\<close>

theorem boot_walk_invariant:
  assumes "tracked_env e" "bs_reach e (boot_state_schedule_static_entries entries (boot_start ex nxt w)) s"
  shows "(\<forall>st. complete (boot_states s st) \<longrightarrow> st < state_id s \<or> st = BS_PAYLOAD_BOOT \<and> state_id s = BS_PAYLOAD_BOOT) \<and>
    (\<forall>st < state_id s. st \<noteq> BS_OS_RESUME \<longrightarrow> complete (boot_states s st)) \<and>
    (\<forall>st. length (times (boot_states s st)) \<le> 4)"
proof -
  have "walk_inv e (boot_start ex nxt w)"
    by (simp add: walk_inv_def boot_start_def BS_INIT_def less_boot_state_t_def)
  from walk_inv_reach [OF assms(2,1) walk_inv_static [OF this]] have "walk_inv e s" .
  then show ?thesis unfolding walk_inv_def by (metis less_irrefl order_refl zero_le)
qed

theorem boot_walk_invariant_witness:
  "\<exists>s. bs_reach log_env (boot_state_schedule_static_entries [] (boot_start (\<lambda>_. 0) (\<lambda>_. 0) [])) s \<and>
     state_id s = BS_DEV_INIT_CHIPS \<and> complete (boot_states s BS_PRE_DEVICE)"
proof -
  let ?s0 = "boot_state_schedule_static_entries [] (boot_start (\<lambda>_. 0) (\<lambda>_. 0) [])"
  have q: "quiet_env (\<lambda>ev w. w @ [ev]) log_env" by (simp add: quiet_env_def log_env_def same_machine_def)
  have at: "at_boot (\<lambda>_ _. []) {} BS_PRE_DEVICE BS_ON_ENTRY [] ?s0" by (simp add: at_boot_start)
  from at_step [OF q at] obtain s where s: "bs_step log_env ?s0 = Some (Continues s ())" "state_id s = BS_DEV_INIT_CHIPS"
    by (auto simp: at_boot_def boot_path_def)
  have "\<not> complete (boot_states ?s0 (state_id ?s0))" by (simp add: boot_start_def BS_INIT_def)
  then have r: "bs_reach log_env ?s0 s" using s(1) by (auto intro: bs_reach.intros)
  have "tracked_env log_env" by (simp add: tracked_env_def log_env_def same_track_def)
  from boot_walk_invariant [OF this r] s(2) r show ?thesis by (auto simp: less_boot_state_t_def)
qed

text \<open>
  C35. A phase with a blocker is left once the timer that removes the blocker has expired:
  with the timer queued among any others, and a clock that passes its expiration, the loop
  over the phase ends, with no blocker left.
\<close>

theorem bs_call_callbacks_unblocked:
  assumes "config_timer_queue e" "callbacks (phase_of s st sq) = 0" "blockers (phase_of s st sq) = 1"
    "state_id s = st" "phase_seq s = sq" "queue_ok (expir s) (tq s)" "t \<in> set (queue (tq s))"
    "\<forall>s. timer_callback e t s = snd (boot_state_unblock st sq s)"
    "\<forall>u s. u \<noteq> t \<longrightarrow> timer_callback e u s = s\<lparr>world := f u (world s)\<rparr>"
    "\<forall>k \<ge> K. sint (expir s t) \<le> sint (clock e k)"
  shows "\<exists>s'. bs_call_callbacks e st sq s = Some s' \<and> blockers (phase_of s' st sq) = 0"
  using assms by (intro waiting_ends [of e f st sq t K]) (simp add: waiting_def phase_passed_def)

text \<open>A blocked state, and the timer that unblocks it.\<close>

definition blocked_state :: "unit boot" where
  "blocked_state = snd (timer_sched_callback 0 5 3 (boot_state_current_block (boot_start (\<lambda>_. 0) (\<lambda>_. 0) ())))"

definition unblock_env :: "unit boot_env" where
  "unblock_env = \<lparr>config_timer_queue = True, config_have_monotonic_timer = True, config_have_acpi_resume = False,
     config_arch_x86 = True, config_early_cbmem_init = True, call = (\<lambda>c s. s), callback = (\<lambda>b s. s),
     timer_callback = (\<lambda>t s. if t = 5 then snd (boot_state_unblock BS_PRE_DEVICE BS_ON_ENTRY s) else s),
     clock = (\<lambda>n. if n < 7 then of_nat n else 7), acpi_find_wakeup_vector = (\<lambda>s. 0),
     acpi_resume = (\<lambda>v s. Continues s ()), payload_run = Handed_over\<rparr>"

theorem bs_call_callbacks_unblocked_witness:
  "blockers (phase_of blocked_state BS_PRE_DEVICE BS_ON_ENTRY) = 1 \<and>
   (\<exists>s'. bs_call_callbacks unblock_env BS_PRE_DEVICE BS_ON_ENTRY blocked_state = Some s' \<and>
         blockers (phase_of s' BS_PRE_DEVICE BS_ON_ENTRY) = 0)"
proof -
  have ok: "queue_ok (expir blocked_state) (tq blocked_state)"
    unfolding queue_ok_def is_heap_def par_def by (intro conjI) code_simp+
  have b: "callbacks (phase_of blocked_state BS_PRE_DEVICE BS_ON_ENTRY) = 0"
    "blockers (phase_of blocked_state BS_PRE_DEVICE BS_ON_ENTRY) = 1"
    "state_id blocked_state = BS_PRE_DEVICE" "phase_seq blocked_state = BS_ON_ENTRY"
    "5 \<in> set (queue (tq blocked_state))" "expir blocked_state 5 = 3" by code_simp+
  have k: "\<forall>k \<ge> 7. sint (expir blocked_state 5) \<le> sint (clock unblock_env k)"
    by (simp add: b(6) unblock_env_def)
  show ?thesis
    using bs_call_callbacks_unblocked [OF _ b(1,2,3,4) ok b(5) _ _ k, of "\<lambda>u w. ()"] b(2)
    by (simp add: unblock_env_def)
qed

definition late_env :: "(nat \<times> int) list boot_env" where
  "late_env = \<lparr>config_timer_queue = True, config_have_monotonic_timer = True, config_have_acpi_resume = False,
     config_arch_x86 = True, config_early_cbmem_init = True, call = (\<lambda>c s. s),
     callback = (\<lambda>b s. if b = 1
        then (case boot_state_sched_on_entry 2 BS_DEV_INIT s of (r, s) \<Rightarrow> s\<lparr>world := (1, r) # world s\<rparr>)
        else s\<lparr>world := (b, 0) # world s\<rparr>),
     timer_callback = (\<lambda>t s. s), clock = of_nat, acpi_find_wakeup_vector = (\<lambda>s. 0),
     acpi_resume = (\<lambda>v s. Continues s ()), payload_run = Handed_over\<rparr>"

text \<open>
  Scheduling a callback on the entry of the state that is being left succeeds, although
  the entry callbacks of that state are over: the callback never runs. Here callback 1, on
  the exit of \<open>BS_DEV_INIT\<close>, schedules callback 2 on its entry, with result 0; the boot
  reaches the payload and callback 2 has not run.
\<close>

theorem boot_state_sched_late_lost:
  "(case boot_main late_env [\<lparr>when_state = BS_DEV_INIT, when_seq = BS_ON_EXIT, bscb = 1\<rparr>]
       (boot_start (\<lambda>_. 0) (\<lambda>_. 0) []) of
      Some (Handed_over s) \<Rightarrow> world s = [(1, 0)] \<and> callbacks (phase_of s BS_DEV_INIT BS_ON_ENTRY) = 2
    | _ \<Rightarrow> False)"
  by code_simp

end
