(* ===== verification/Imd.thy ===== *)
theory Imd
  imports Prelude
begin

text \<open>
  The in-memory database behind CBMEM, \<^verbatim>\<open>src/coreboot/src/lib/imd.c\<close>: a root below a limit,
  with an array of entries that describe the data regions handed out downwards from it, and
  a second database of the same form for small regions inside an entry of the first. The
  structures live in memory and outlast the stage that wrote them, so they are bytes of the
  memory of \<^verbatim>\<open>Prelude\<close>, read and written as 32-bit fields at the offsets of the packed
  structures; only the handles are records. Pointers and sizes have 32 bits. A null pointer
  is 0. The assertions on powers of two print a message and go on.
\<close>

section \<open>Fields in memory\<close>

definition rd32 :: "mem \<Rightarrow> uintptr \<Rightarrow> u32" where
  "rd32 m a = ucast (m a) OR push_bit 8 (ucast (m (a + 1))) OR push_bit 16 (ucast (m (a + 2))) OR
     push_bit 24 (ucast (m (a + 3)))"

definition wr32 :: "mem \<Rightarrow> uintptr \<Rightarrow> u32 \<Rightarrow> mem" where
  "wr32 m a v = mem_write m a [ucast v, ucast (drop_bit 8 v), ucast (drop_bit 16 v), ucast (drop_bit 24 v)]"

definition IMD_ROOT_PTR_MAGIC :: u32 where "IMD_ROOT_PTR_MAGIC = 0xc0389481"
definition IMD_ENTRY_MAGIC :: u32 where "IMD_ENTRY_MAGIC = NOT 0xc0389481"
definition CBMEM_ID_IMD_ROOT :: u32 where "CBMEM_ID_IMD_ROOT = 0xff4017ff"
definition SMALL_REGION_ID :: u32 where "SMALL_REGION_ID = 0x53a11439"
definition LIMIT_ALIGN :: size_t where "LIMIT_ALIGN = 4096"
definition IMD_FLAG_LOCKED :: u32 where "IMD_FLAG_LOCKED = 1"

text \<open>The fields of \<^verbatim>\<open>struct imd_root_pointer\<close>, \<^verbatim>\<open>struct imd_root\<close> and \<^verbatim>\<open>struct imd_entry\<close>.\<close>

definition rp_magic :: "uintptr \<Rightarrow> uintptr" where "rp_magic rp = rp"
definition rp_root_offset :: "uintptr \<Rightarrow> uintptr" where "rp_root_offset rp = rp + 4"

definition r_max_entries :: "uintptr \<Rightarrow> uintptr" where "r_max_entries r = r"
definition r_num_entries :: "uintptr \<Rightarrow> uintptr" where "r_num_entries r = r + 4"
definition r_flags :: "uintptr \<Rightarrow> uintptr" where "r_flags r = r + 8"
definition r_entry_align :: "uintptr \<Rightarrow> uintptr" where "r_entry_align r = r + 12"
definition r_max_offset :: "uintptr \<Rightarrow> uintptr" where "r_max_offset r = r + 16"

definition r_entry :: "uintptr \<Rightarrow> u32 \<Rightarrow> uintptr" where
  "r_entry r i = r + 20 + 16 * i"

definition e_magic :: "uintptr \<Rightarrow> uintptr" where "e_magic e = e"
definition e_start_offset :: "uintptr \<Rightarrow> uintptr" where "e_start_offset e = e + 4"
definition e_size :: "uintptr \<Rightarrow> uintptr" where "e_size e = e + 8"
definition e_id :: "uintptr \<Rightarrow> uintptr" where "e_id e = e + 12"

lemmas field_defs = rp_magic_def rp_root_offset_def r_max_entries_def r_num_entries_def r_flags_def r_entry_align_def r_max_offset_def e_magic_def e_start_offset_def e_size_def e_id_def r_entry_def

record imdr =
  limit :: uintptr
  r_root :: uintptr

record imd =
  lg :: imdr
  sm :: imdr

section \<open>The database of one root\<close>

definition relative_pointer :: "uintptr \<Rightarrow> ssize_t \<Rightarrow> uintptr" where
  "relative_pointer b offs = b + offs"

definition imd_root_pointer_valid :: "mem \<Rightarrow> uintptr \<Rightarrow> bool" where
  "imd_root_pointer_valid m rp \<longleftrightarrow> rd32 m (rp_magic rp) = IMD_ROOT_PTR_MAGIC"

definition imdr_root :: "imdr \<Rightarrow> uintptr" where
  "imdr_root d = r_root d"

definition imdr_get_root_pointer :: "imdr \<Rightarrow> uintptr" where
  "imdr_get_root_pointer d = relative_pointer (limit d) (- 8)"

definition imd_link_root :: "uintptr \<Rightarrow> uintptr \<Rightarrow> mem \<Rightarrow> mem" where
  "imd_link_root rp r m = wr32 (wr32 m (rp_magic rp) IMD_ROOT_PTR_MAGIC) (rp_root_offset rp) (r - rp)"

definition root_last_entry :: "mem \<Rightarrow> uintptr \<Rightarrow> uintptr" where
  "root_last_entry m r = r_entry r (rd32 m (r_num_entries r) - 1)"

definition root_num_entries :: "size_t \<Rightarrow> size_t" where
  "root_num_entries root_size = (root_size - 8 - 20) div 16"

definition imd_root_data_left :: "mem \<Rightarrow> uintptr \<Rightarrow> size_t" where
  "imd_root_data_left m r =
     (let last_entry = root_last_entry m r
      in if rd32 m (r_max_offset r) \<noteq> 0 then rd32 m (e_start_offset last_entry) - rd32 m (r_max_offset r)
         else NOT 0)"

definition root_is_locked :: "mem \<Rightarrow> uintptr \<Rightarrow> bool" where
  "root_is_locked m r \<longleftrightarrow> rd32 m (r_flags r) AND IMD_FLAG_LOCKED \<noteq> 0"

definition imd_entry_assign :: "uintptr \<Rightarrow> u32 \<Rightarrow> ssize_t \<Rightarrow> size_t \<Rightarrow> mem \<Rightarrow> mem" where
  "imd_entry_assign e i offs sz m =
     wr32 (wr32 (wr32 (wr32 m (e_magic e) IMD_ENTRY_MAGIC) (e_start_offset e) offs) (e_size e) sz) (e_id e) i"

definition imdr_init :: "uintptr \<Rightarrow> imdr" where
  "imdr_init upper_limit = \<lparr>limit = ALIGN_DOWN upper_limit LIMIT_ALIGN, r_root = 0\<rparr>"

definition imdr_create_empty :: "imdr \<Rightarrow> size_t \<Rightarrow> size_t \<Rightarrow> mem \<Rightarrow> int \<times> imdr \<times> mem" where
  "imdr_create_empty d root_size entry_align m =
     (if limit d = 0 then (- 1, d, m)
      else if root_size < 8 + 20 then (- 1, d, m)
      else if root_size > LIMIT_ALIGN \<or> entry_align > LIMIT_ALIGN then (- 1, d, m)
      else if entry_align > root_size then (- 1, d, m)
      else
        (let rp = imdr_get_root_pointer d;
             r = relative_pointer (limit d) (- root_size);
             m = imd_link_root rp r m;
             m = mem_set m r 0 20;
             m = wr32 m (r_entry_align r) entry_align;
             m = wr32 m (r_max_entries r) (root_num_entries root_size);
             m = wr32 m (r_num_entries r) 1;
             m = imd_entry_assign (r_entry r 0) CBMEM_ID_IMD_ROOT 0 root_size m
         in (0, d\<lparr>r_root := r\<rparr>, m)))"

definition recover_entry_ok :: "mem \<Rightarrow> uintptr \<Rightarrow> uintptr \<Rightarrow> uintptr \<Rightarrow> nat \<Rightarrow> bool" where
  "recover_entry_ok m r low_limit lim i =
     (let e = r_entry r (of_nat i);
          start_addr = relative_pointer r (rd32 m (e_start_offset e))
      in rd32 m (e_magic e) = IMD_ENTRY_MAGIC \<and> \<not> start_addr < low_limit \<and>
         \<not> (start_addr \<ge> lim \<or> start_addr + rd32 m (e_size e) > lim))"

definition imdr_recover :: "imdr \<Rightarrow> mem \<Rightarrow> int \<times> imdr" where
  "imdr_recover d m =
     (if limit d = 0 then (- 1, d)
      else
        (let rp = imdr_get_root_pointer d
         in if \<not> imd_root_pointer_valid m rp then (- 1, d)
            else
              (let r = relative_pointer rp (rd32 m (rp_root_offset rp))
               in if ALIGN_UP (r_entry r (rd32 m (r_max_entries r))) LIMIT_ALIGN \<noteq> limit d then (- 1, d)
                  else if rd32 m (r_num_entries r) > rd32 m (r_max_entries r) then (- 1, d)
                  else if \<not> IS_POWER_OF_2 (rd32 m (r_entry_align r)) then (- 1, d)
                  else
                    (let low_limit = relative_pointer r (rd32 m (r_max_offset r));
                         low_limit = if low_limit = r then 0 else low_limit
                     in if list_all (recover_entry_ok m r low_limit (limit d))
                             [0..<unat (rd32 m (r_num_entries r))]
                        then (0, d\<lparr>r_root := r\<rparr>)
                        else (- 1, d)))))"

definition imdr_entry_find :: "imdr \<Rightarrow> u32 \<Rightarrow> mem \<Rightarrow> uintptr" where
  "imdr_entry_find d i m =
     (let r = imdr_root d
      in if r = 0 then 0
         else (case find (\<lambda>k. rd32 m (e_id (r_entry r (of_nat k))) = i) [1..<unat (rd32 m (r_num_entries r))] of
                 None \<Rightarrow> 0
               | Some k \<Rightarrow> r_entry r (of_nat k)))"

definition imdr_limit_size :: "imdr \<Rightarrow> size_t \<Rightarrow> mem \<Rightarrow> int \<times> mem" where
  "imdr_limit_size d max_size m =
     (let r = imdr_root d
      in if r = 0 then (- 1, m)
         else
           (let root_size = limit d - r
            in if max_size < root_size then (- 1, m)
               else (0, wr32 m (r_max_offset r) (- (max_size - root_size)))))"

definition imdr_entry_size :: "uintptr \<Rightarrow> mem \<Rightarrow> size_t" where
  "imdr_entry_size e m = rd32 m (e_size e)"

definition imdr_entry_at :: "imdr \<Rightarrow> uintptr \<Rightarrow> mem \<Rightarrow> uintptr" where
  "imdr_entry_at d e m = relative_pointer (imdr_root d) (rd32 m (e_start_offset e))"

definition imd_entry_add_to_root :: "uintptr \<Rightarrow> u32 \<Rightarrow> size_t \<Rightarrow> mem \<Rightarrow> uintptr \<times> mem" where
  "imd_entry_add_to_root r i sz m =
     (if rd32 m (r_num_entries r) = rd32 m (r_max_entries r) then (0, m)
      else
        (let used_size = ALIGN_UP sz (rd32 m (r_entry_align r))
         in if used_size > imd_root_data_left m r then (0, m)
            else
              (let last_offset = rd32 m (e_start_offset (root_last_entry m r));
                   e_offset = last_offset - used_size
               in if sint e_offset > sint last_offset then (0, m)
                  else
                    (let entry = root_last_entry m r + 16;
                         m = wr32 m (r_num_entries r) (rd32 m (r_num_entries r) + 1)
                     in (entry, imd_entry_assign entry i e_offset sz m)))))"

definition imdr_entry_add :: "imdr \<Rightarrow> u32 \<Rightarrow> size_t \<Rightarrow> mem \<Rightarrow> uintptr \<times> mem" where
  "imdr_entry_add d i sz m =
     (let r = imdr_root d
      in if r = 0 then (0, m)
         else if root_is_locked m r then (0, m)
         else imd_entry_add_to_root r i sz m)"

text \<open>The difference of two pointers to entries is divided by their size, rounding down.\<close>

definition imdr_has_entry :: "imdr \<Rightarrow> uintptr \<Rightarrow> mem \<Rightarrow> bool" where
  "imdr_has_entry d e m =
     (let r = imdr_root d
      in if r = 0 then False
         else (let idx = word_of_int (sint (e - r_entry r 0) div 16) :: size_t
               in \<not> idx \<ge> rd32 m (r_num_entries r)))"

section \<open>The two-tiered database\<close>

definition imd_entry_to_imdr :: "imd \<Rightarrow> uintptr \<Rightarrow> mem \<Rightarrow> imdr option" where
  "imd_entry_to_imdr d entry m =
     (if imdr_has_entry (lg d) entry m then Some (lg d)
      else if imdr_has_entry (sm d) entry m then Some (sm d)
      else None)"

definition imd_handle_init :: "uintptr \<Rightarrow> imd" where
  "imd_handle_init upper_limit = \<lparr>lg = imdr_init upper_limit, sm = imdr_init 0\<rparr>"

definition imd_handle_init_partial_recovery :: "imd \<Rightarrow> mem \<Rightarrow> imd" where
  "imd_handle_init_partial_recovery d m =
     (if limit (lg d) = 0 then d
      else
        (let d = imd_handle_init (limit (lg d));
             rp = imdr_get_root_pointer (lg d);
             d = d\<lparr>lg := (lg d)\<lparr>r_root := relative_pointer rp (rd32 m (rp_root_offset rp))\<rparr>\<rparr>;
             e = imdr_entry_find (lg d) SMALL_REGION_ID m
         in if e = 0 then d
            else
              (let l = imdr_entry_at (lg d) e m + imdr_entry_size e m;
                   small = (sm d)\<lparr>limit := l\<rparr>;
                   rp = imdr_get_root_pointer small
               in d\<lparr>sm := small\<lparr>r_root := relative_pointer rp (rd32 m (rp_root_offset rp))\<rparr>\<rparr>)))"

definition imd_create_empty :: "imd \<Rightarrow> size_t \<Rightarrow> size_t \<Rightarrow> mem \<Rightarrow> int \<times> imd \<times> mem" where
  "imd_create_empty d root_size entry_align m =
     (case imdr_create_empty (lg d) root_size entry_align m of (rc, l, m) \<Rightarrow> (rc, d\<lparr>lg := l\<rparr>, m))"

definition imd_create_tiered_empty ::
  "imd \<Rightarrow> size_t \<Rightarrow> size_t \<Rightarrow> size_t \<Rightarrow> size_t \<Rightarrow> mem \<Rightarrow> int \<times> imd \<times> mem" where
  "imd_create_tiered_empty d lg_root_size lg_entry_align sm_root_size sm_entry_align m =
     (case imdr_create_empty (lg d) lg_root_size lg_entry_align m of
        (rc, l, m) \<Rightarrow>
          if rc \<noteq> 0 then (- 1, d\<lparr>lg := l\<rparr>, m)
          else
            (let sm_region_size = ALIGN_UP (root_num_entries sm_root_size * sm_entry_align + sm_root_size)
                   lg_entry_align
             in case imdr_entry_add l SMALL_REGION_ID sm_region_size m of
                  (e, m) \<Rightarrow>
                    if e = 0 then (- 1, imd_handle_init (limit l), m)
                    else
                      (let small = (sm d)\<lparr>limit := imdr_entry_at l e m + sm_region_size\<rparr>
                       in case imdr_create_empty small sm_root_size sm_entry_align m of
                            (rc, small, m) \<Rightarrow>
                              if rc \<noteq> 0 then (- 1, imd_handle_init (limit l), m)
                              else (case imdr_limit_size small sm_region_size m of
                                      (rc, m) \<Rightarrow>
                                        if rc \<noteq> 0 then (- 1, imd_handle_init (limit l), m)
                                        else (0, \<lparr>lg = l, sm = small\<rparr>, m)))))"

definition imd_recover :: "imd \<Rightarrow> mem \<Rightarrow> int \<times> imd" where
  "imd_recover d m =
     (case imdr_recover (lg d) m of
        (rc, l) \<Rightarrow>
          if rc \<noteq> 0 then (- 1, d\<lparr>lg := l\<rparr>)
          else
            (let e = imdr_entry_find l SMALL_REGION_ID m
             in if e = 0 then (0, d\<lparr>lg := l\<rparr>)
                else
                  (let small = (sm d)\<lparr>limit := imdr_entry_at l e m + imdr_entry_size e m\<rparr>
                   in case imdr_recover small m of
                        (rc, small) \<Rightarrow>
                          if rc \<noteq> 0 then (- 1, imd_handle_init (limit l))
                          else (0, \<lparr>lg = l, sm = small\<rparr>))))"

definition imd_limit_size :: "imd \<Rightarrow> size_t \<Rightarrow> mem \<Rightarrow> int \<times> mem" where
  "imd_limit_size d max_size m = imdr_limit_size (lg d) max_size m"

definition imd_lockdown :: "imd \<Rightarrow> mem \<Rightarrow> int \<times> mem" where
  "imd_lockdown d m =
     (let r = imdr_root (lg d)
      in if r = 0 then (- 1, m)
         else
           (let m = wr32 m (r_flags r) (rd32 m (r_flags r) OR IMD_FLAG_LOCKED);
                r = imdr_root (sm d)
            in (0, if r \<noteq> 0 then wr32 m (r_flags r) (rd32 m (r_flags r) OR IMD_FLAG_LOCKED) else m)))"

text \<open>The base and the size in use, when there is a database.\<close>

definition imd_region_used :: "imd \<Rightarrow> mem \<Rightarrow> (uintptr \<times> size_t) option" where
  "imd_region_used d m =
     (if limit (lg d) = 0 then None
      else
        (let r = imdr_root (lg d)
         in if r = 0 then None
            else (let low_addr = relative_pointer r (rd32 m (e_start_offset (root_last_entry m r)))
                  in Some (low_addr, limit (lg d) - low_addr))))"

definition imd_entry_add :: "imd \<Rightarrow> u32 \<Rightarrow> size_t \<Rightarrow> mem \<Rightarrow> uintptr \<times> mem" where
  "imd_entry_add d i sz m =
     (let r = imdr_root (sm d)
      in if r = 0 then imdr_entry_add (lg d) i sz m
         else
           (let (e, m) = if sz \<le> rd32 m (r_entry_align r) \<or> sz \<le> imd_root_data_left m r div 4
                         then imdr_entry_add (sm d) i sz m else (0, m)
            in if e = 0 then imdr_entry_add (lg d) i sz m else (e, m)))"

definition imd_entry_find :: "imd \<Rightarrow> u32 \<Rightarrow> mem \<Rightarrow> uintptr" where
  "imd_entry_find d i m =
     (let e = imdr_entry_find (sm d) i m in if e = 0 then imdr_entry_find (lg d) i m else e)"

definition imd_entry_find_or_add :: "imd \<Rightarrow> u32 \<Rightarrow> size_t \<Rightarrow> mem \<Rightarrow> uintptr \<times> mem" where
  "imd_entry_find_or_add d i sz m =
     (let e = imd_entry_find d i m in if e \<noteq> 0 then (e, m) else imd_entry_add d i sz m)"

definition imd_entry_size :: "imd \<Rightarrow> uintptr \<Rightarrow> mem \<Rightarrow> size_t" where
  "imd_entry_size d entry m = imdr_entry_size entry m"

definition imd_entry_at :: "imd \<Rightarrow> uintptr \<Rightarrow> mem \<Rightarrow> uintptr" where
  "imd_entry_at d entry m =
     (case imd_entry_to_imdr d entry m of None \<Rightarrow> 0 | Some i \<Rightarrow> imdr_entry_at i entry m)"

definition imd_entry_id :: "imd \<Rightarrow> uintptr \<Rightarrow> mem \<Rightarrow> u32" where
  "imd_entry_id d entry m = rd32 m (e_id entry)"

definition imd_entry_remove :: "imd \<Rightarrow> uintptr \<Rightarrow> mem \<Rightarrow> int \<times> mem" where
  "imd_entry_remove d entry m =
     (case imd_entry_to_imdr d entry m of
        None \<Rightarrow> (- 1, m)
      | Some i \<Rightarrow>
          (let r = imdr_root i
           in if r = 0 then (- 1, m)
              else if root_is_locked m r then (- 1, m)
              else if entry \<noteq> root_last_entry m r then (- 1, m)
              else (0, wr32 m (r_num_entries r) (rd32 m (r_num_entries r) - 1))))"

record imd_cursor =
  current_imdr :: nat
  current_entry :: u32
  c_imdr :: "imdr list"

definition imd_cursor_init :: "imd \<Rightarrow> imd_cursor" where
  "imd_cursor_init d = \<lparr>current_imdr = 0, current_entry = 0, c_imdr = [lg d, sm d]\<rparr>"

function imd_cursor_next :: "mem \<Rightarrow> imd_cursor \<Rightarrow> uintptr \<times> imd_cursor" where
  "imd_cursor_next m c =
     (if current_imdr c \<ge> length (c_imdr c) then (0, c)
      else
        (let r = imdr_root (c_imdr c ! current_imdr c)
         in if r = 0 then (0, c)
            else if current_entry c \<ge> rd32 m (r_num_entries r)
            then imd_cursor_next m (c\<lparr>current_imdr := current_imdr c + 1, current_entry := 0\<rparr>)
            else (r_entry r (current_entry c), c\<lparr>current_entry := current_entry c + 1\<rparr>)))"
  by pat_completeness auto
termination
  by (relation "measure (\<lambda>(m, c). length (c_imdr c) - current_imdr c)") auto

declare imd_cursor_next.simps [simp del]

section \<open>Reading back fields\<close>

lemma bit_byte:
  "bit (push_bit k (ucast (ucast (drop_bit k v) :: u8)) :: u32) n \<longleftrightarrow> k \<le> n \<and> n < k + 8 \<and> bit v n"
  if "n < 32" for v :: u32
  using that unfolding bit_push_bit_iff bit_ucast_iff bit_drop_bit_eq by auto

lemma bit_low_byte: "bit (ucast (ucast v :: u8) :: u32) n \<longleftrightarrow> n < 8 \<and> bit v n" if "n < 32" for v :: u32
  using that by (auto simp: bit_ucast_iff)

lemma bytes_join:
  "(ucast (ucast v :: u8) :: u32) OR push_bit 8 (ucast (ucast (drop_bit 8 v) :: u8)) OR
   push_bit 16 (ucast (ucast (drop_bit 16 v) :: u8)) OR push_bit 24 (ucast (ucast (drop_bit 24 v) :: u8)) = v"
  (is "?l = v")
proof (rule bit_word_eqI)
  fix n assume "n < LENGTH(32)"
  then have n: "n < 32" by simp
  have r: "n < 8 \<or> 8 \<le> n \<and> n < 16 \<or> 16 \<le> n \<and> n < 24 \<or> 24 \<le> n" by linarith
  show "bit ?l n = bit v n"
    unfolding bit_or_iff bit_byte [OF n] bit_low_byte [OF n] using r n by auto
qed

lemma rd32_wr32_same [simp]: "rd32 (wr32 m a v) a = v"
proof -
  have ne: "a + 1 \<noteq> a" "a + 2 \<noteq> a" "a + 3 \<noteq> a" "a + 2 \<noteq> a + 1" "a + 3 \<noteq> a + 1" "a + 3 \<noteq> a + 2" by simp_all
  have "wr32 m a v = m(a := ucast v, a + 1 := ucast (drop_bit 8 v), a + 2 := ucast (drop_bit 16 v),
      a + 3 := ucast (drop_bit 24 v))"
    by (simp add: wr32_def ac_simps)
  with ne show ?thesis by (simp add: rd32_def bytes_join)
qed

lemma wr32_apply: "wr32 m a v b = m b" if "4 \<le> unat (b - a)"
proof -
  have "length [ucast v, ucast (drop_bit 8 v), ucast (drop_bit 16 v), ucast (drop_bit 24 v) :: u8] \<le> 4294967296" by simp
  from mem_write_apply [OF this, of m a b] that show ?thesis unfolding wr32_def by simp
qed

text \<open>A field is not changed by a write to memory that does not overlap it.\<close>

definition apart :: "uintptr \<Rightarrow> nat \<Rightarrow> uintptr \<Rightarrow> nat \<Rightarrow> bool" where
  "apart a n b k \<longleftrightarrow> n \<le> unat (b - a) \<and> k \<le> unat (a - b)"

lemma unat_minus_swap: "a \<noteq> b \<Longrightarrow> unat (a - b) = 4294967296 - unat (b - a)" for a b :: u32
proof -
  assume "a \<noteq> b"
  then have pos: "0 < unat (b - a)" by (simp add: unat_gt_0)
  let ?s = "unat (a - b) + unat (b - a)"
  have lt: "unat (a - b) < 4294967296" "unat (b - a) < 4294967296" by (rule unat_lt_2p32)+
  have m: "?s mod 4294967296 = 0" using unat_word_ariths(1) [of "a - b" "b - a"] by simp
  have "\<not> ?s < 4294967296" using m pos by (metis add_gr_0 less_numeral_extra(3) mod_less)
  then have "(?s - 4294967296) mod 4294967296 = 0" using m by (simp add: le_mod_geq)
  moreover have "?s - 4294967296 < 4294967296" using lt by linarith
  ultimately have "?s = 4294967296" using \<open>\<not> ?s < 4294967296\<close> by simp
  then show ?thesis by simp
qed

lemma apart_offset:
  assumes "apart a n b k" "0 < k" "i < k"
  shows "n \<le> unat (b + word_of_nat i - a)"
proof -
  have "a \<noteq> b" using assms by (auto simp: apart_def)
  then have d: "n \<le> unat (b - a)" "unat (b - a) + k \<le> 4294967296"
    using assms(1) unat_minus_swap [of a b] unat_lt_2p32 [of "b - a"] unfolding apart_def by linarith+
  then have "unat (word_of_nat i :: u32) = i" using assms(3) by (simp add: unat_of_nat_u32)
  then have "unat ((b - a) + word_of_nat i) = unat (b - a) + i"
    using d assms(3) by (subst unat_plus_no_wrap) simp_all
  moreover have "b + word_of_nat i - a = (b - a) + word_of_nat i" by simp
  ultimately show ?thesis using d by (metis trans_le_add1)
qed

lemma rd32_wr32_apart: "apart a 4 b 4 \<Longrightarrow> rd32 (wr32 m a v) b = rd32 m b"
  using apart_offset [of a 4 b 4 0] apart_offset [of a 4 b 4 1] apart_offset [of a 4 b 4 2]
    apart_offset [of a 4 b 4 3]
  by (simp add: rd32_def wr32_apply)

text \<open>The fields of a root, numbered in words of four bytes from its base.\<close>

definition fld :: "mem \<Rightarrow> uintptr \<Rightarrow> nat \<Rightarrow> u32" where
  "fld m r j = rd32 m (r + 4 * word_of_nat j)"

definition setf :: "mem \<Rightarrow> uintptr \<Rightarrow> nat \<Rightarrow> u32 \<Rightarrow> mem" where
  "setf m r j v = wr32 m (r + 4 * word_of_nat j) v"

lemma unat_words: "j < 1073741824 \<Longrightarrow> unat (4 * word_of_nat j :: u32) = 4 * j"
proof -
  assume "j < 1073741824"
  then have "unat (word_of_nat (4 * j) :: u32) = 4 * j" by (intro unat_of_nat_u32) simp
  then show ?thesis by simp
qed

lemma word_diff_fields:
  "i < j \<Longrightarrow> (r + 4 * word_of_nat j) - (r + 4 * word_of_nat i) = (4 * word_of_nat (j - i) :: u32)"
  by (simp add: of_nat_diff algebra_simps)

lemma fields_apart:
  assumes "i \<noteq> j" "i < 1073741824" "j < 1073741824"
  shows "apart (r + 4 * word_of_nat i) 4 (r + 4 * word_of_nat j) 4"
proof -
  have *: "apart (r + 4 * word_of_nat i) 4 (r + 4 * word_of_nat j) 4 \<and>
      apart (r + 4 * word_of_nat j) 4 (r + 4 * word_of_nat i) 4" if "i < j" "j < 1073741824" for i j
  proof -
    have d: "unat ((r + 4 * word_of_nat j) - (r + 4 * word_of_nat i)) = 4 * (j - i)"
      unfolding word_diff_fields [OF that(1)] using that by (intro unat_words) simp
    have ne: "r + 4 * word_of_nat i \<noteq> r + 4 * word_of_nat j"
      using d that by auto
    have "unat ((r + 4 * word_of_nat i) - (r + 4 * word_of_nat j)) = 4294967296 - 4 * (j - i)"
      using unat_minus_swap [OF ne] d by simp
    with d that show ?thesis unfolding apart_def by linarith
  qed
  show ?thesis
    using * [of i j] * [of j i] assms by (cases i j rule: linorder_cases) auto
qed

lemma fld_setf [simp]:
  "i < 1073741824 \<Longrightarrow> j < 1073741824 \<Longrightarrow> fld (setf m r i v) r j = (if i = j then v else fld m r j)"
  by (auto simp: fld_def setf_def rd32_wr32_apart fields_apart)

lemma rd32_fields:
  "rd32 m (r_max_entries r) = fld m r 0" "rd32 m (r_num_entries r) = fld m r 1" "rd32 m (r_flags r) = fld m r 2"
  "rd32 m (r_entry_align r) = fld m r 3" "rd32 m (r_max_offset r) = fld m r 4"
  "rd32 m (e_magic (r_entry r (word_of_nat k))) = fld m r (5 + 4 * k)"
  "rd32 m (e_start_offset (r_entry r (word_of_nat k))) = fld m r (6 + 4 * k)"
  "rd32 m (e_size (r_entry r (word_of_nat k))) = fld m r (7 + 4 * k)"
  "rd32 m (e_id (r_entry r (word_of_nat k))) = fld m r (8 + 4 * k)"
  by (simp_all add: fld_def field_defs algebra_simps)

lemma wr32_fields:
  "wr32 m (r_max_entries r) v = setf m r 0 v" "wr32 m (r_num_entries r) v = setf m r 1 v"
  "wr32 m (r_flags r) v = setf m r 2 v" "wr32 m (r_entry_align r) v = setf m r 3 v"
  "wr32 m (r_max_offset r) v = setf m r 4 v"
  "wr32 m (e_magic (r_entry r (word_of_nat k))) v = setf m r (5 + 4 * k) v"
  "wr32 m (e_start_offset (r_entry r (word_of_nat k))) v = setf m r (6 + 4 * k) v"
  "wr32 m (e_size (r_entry r (word_of_nat k))) v = setf m r (7 + 4 * k) v"
  "wr32 m (e_id (r_entry r (word_of_nat k))) v = setf m r (8 + 4 * k) v"
  by (simp_all add: setf_def field_defs algebra_simps)

section \<open>The database of one root, abstractly\<close>

text \<open>
  The entries are triples of the offset of the data from the root, which is not positive, the
  size and the identifier; the first one is the root itself.
\<close>

record adb =
  a_max :: nat
  a_align :: nat
  a_low :: "int option"
  a_locked :: bool
  a_ents :: "(int \<times> nat \<times> u32) list"

definition a_used :: "adb \<Rightarrow> nat \<Rightarrow> nat" where
  "a_used d n = (n + a_align d - 1) div a_align d * a_align d"

definition a_last :: "adb \<Rightarrow> int" where
  "a_last d = fst (last (a_ents d))"

definition a_add :: "u32 \<Rightarrow> nat \<Rightarrow> adb \<Rightarrow> adb option" where
  "a_add i n d =
     (let offs = a_last d - int (a_used d n)
      in if a_locked d \<or> length (a_ents d) = a_max d \<or> (\<exists>l. a_low d = Some l \<and> offs < l) \<or> offs < - (2 ^ 31)
         then None
         else Some (d\<lparr>a_ents := a_ents d @ [(offs, n, i)]\<rparr>))"

text \<open>What the memory between \<open>r\<close> and the limit says.\<close>

definition num_of :: "mem \<Rightarrow> uintptr \<Rightarrow> nat" where
  "num_of m r = unat (fld m r 1)"

definition ent_of :: "mem \<Rightarrow> uintptr \<Rightarrow> nat \<Rightarrow> int \<times> nat \<times> u32" where
  "ent_of m r k = (sint (fld m r (6 + 4 * k)), unat (fld m r (7 + 4 * k)), fld m r (8 + 4 * k))"

definition adb_of :: "mem \<Rightarrow> uintptr \<Rightarrow> adb" where
  "adb_of m r = \<lparr>a_max = unat (fld m r 0), a_align = unat (fld m r 3),
     a_low = (if fld m r 4 = 0 then None else Some (sint (fld m r 4))),
     a_locked = (fld m r 2 AND IMD_FLAG_LOCKED \<noteq> 0), a_ents = map (ent_of m r) [0..<num_of m r]\<rparr>"

text \<open>
  Offsets and sizes of the entries: every region lies below the one before it, above the
  address 0, and above the lower bound if there is one.
\<close>

definition ents_ok :: "nat \<Rightarrow> (int \<times> nat \<times> u32) list \<Rightarrow> bool" where
  "ents_ok tp es \<longleftrightarrow> es \<noteq> [] \<and> fst (es ! 0) = 0 \<and>
     (\<forall>i. Suc i < length es \<longrightarrow> fst (es ! Suc i) + int (fst (snd (es ! Suc i))) \<le> fst (es ! i)) \<and>
     0 \<le> int tp + fst (last es)"

definition low_ok :: "nat \<Rightarrow> adb \<Rightarrow> bool" where
  "low_ok tp d \<longleftrightarrow> (\<forall>l. a_low d = Some l \<longrightarrow> l < 0 \<and> l \<le> a_last d \<and> 0 \<le> int tp + l)"

text \<open>
  A root at \<open>r\<close> with its root pointer below the limit; \<open>p\<close> is the place of the root pointer
  in words.
\<close>

definition root_at :: "nat \<Rightarrow> mem \<Rightarrow> uintptr \<Rightarrow> uintptr \<Rightarrow> bool" where
  "root_at p m lim r \<longleftrightarrow>
     9 \<le> p \<and> p \<le> 1022 \<and> 0 < unat r \<and> unat r + 4 * (p + 2) = unat lim \<and> 4096 dvd unat lim \<and>
     fld m r p = IMD_ROOT_PTR_MAGIC \<and> fld m r (Suc p) = - (4 * word_of_nat p) \<and>
     unat (fld m r 0) = (p - 5) div 4 \<and> num_of m r \<le> (p - 5) div 4 \<and>
     (\<exists>k \<le> 12. fld m r 3 = 2 ^ k) \<and> (\<forall>i < num_of m r. fld m r (5 + 4 * i) = IMD_ENTRY_MAGIC) \<and>
     unat (fld m r 7) = 4 * (p + 2)"

definition root_ok :: "mem \<Rightarrow> uintptr \<Rightarrow> uintptr \<Rightarrow> bool" where
  "root_ok m lim r \<longleftrightarrow> (\<exists>p. root_at p m lim r) \<and> ents_ok (unat r) (a_ents (adb_of m r)) \<and>
     low_ok (unat r) (adb_of m r)"

lemma ents_ok_below:
  assumes "ents_ok tp es" "i < j" "j < length es"
  shows "fst (es ! j) + int (fst (snd (es ! j))) \<le> fst (es ! i)"
  using assms(2,3)
proof (induction j)
  case (Suc j)
  have "fst (es ! Suc j) + int (fst (snd (es ! Suc j))) \<le> fst (es ! j)"
    using assms(1) Suc.prems by (simp add: ents_ok_def)
  moreover have "fst (es ! j) \<le> fst (es ! i)"
    using Suc by (cases "i = j") auto
  ultimately show ?case by linarith
qed simp

lemma ents_ok_offset:
  assumes "ents_ok tp es" "i < length es"
  shows "fst (last es) \<le> fst (es ! i)" "fst (es ! i) \<le> 0" "0 \<le> int tp + fst (es ! i)"
    "i \<noteq> 0 \<Longrightarrow> fst (es ! i) + int (fst (snd (es ! i))) \<le> 0"
proof -
  have l: "last es = es ! (length es - 1)" using assms by (simp add: last_conv_nth ents_ok_def)
  show 1: "fst (last es) \<le> fst (es ! i)"
  proof (cases "i = length es - 1")
    case False
    then have "i < length es - 1" "length es - 1 < length es" using assms(2) by linarith+
    from ents_ok_below [OF assms(1) this] l show ?thesis by simp
  qed (simp add: l)
  show 2: "i \<noteq> 0 \<Longrightarrow> fst (es ! i) + int (fst (snd (es ! i))) \<le> 0"
    using ents_ok_below [OF assms(1), of 0 i] assms by (simp add: ents_ok_def)
  show "fst (es ! i) \<le> 0" using 2 assms(1) by (cases "i = 0") (auto simp: ents_ok_def)
  show "0 \<le> int tp + fst (es ! i)" using 1 assms(1) by (simp add: ents_ok_def)
qed

lemma root_num_pos: "root_ok m lim r \<Longrightarrow> 0 < num_of m r"
  by (auto simp: root_ok_def ents_ok_def adb_of_def)

lemma root_last_entry_eq:
  assumes "root_ok m lim r"
  shows "root_last_entry m r = r_entry r (word_of_nat (num_of m r - 1))"
  using root_num_pos [OF assms]
  by (simp add: root_last_entry_def rd32_fields num_of_def of_nat_diff)

lemma a_last_eq:
  assumes "root_ok m lim r"
  shows "a_last (adb_of m r) = sint (fld m r (6 + 4 * (num_of m r - 1)))"
  using root_num_pos [OF assms] by (simp add: a_last_def adb_of_def last_map ent_of_def)

lemma add_to_root_fields:
  assumes "root_ok m lim r"
  shows "imd_entry_add_to_root r i sz m =
    (let n = num_of m r; l = fld m r (6 + 4 * (n - 1)); used = ALIGN_UP sz (fld m r 3)
     in if fld m r 1 = fld m r 0 \<or> used > (if fld m r 4 \<noteq> 0 then l - fld m r 4 else NOT 0) \<or> sint (l - used) > sint l
        then (0, m)
        else (r_entry r (word_of_nat n),
              setf (setf (setf (setf (setf m r 1 (fld m r 1 + 1)) r (5 + 4 * n) IMD_ENTRY_MAGIC)
                r (6 + 4 * n) (l - used)) r (7 + 4 * n) sz) r (8 + 4 * n) i))"
proof -
  have "r_entry r (word_of_nat (num_of m r - 1)) + 16 = r_entry r (word_of_nat (num_of m r))"
    using root_num_pos [OF assms] by (simp add: r_entry_def of_nat_diff algebra_simps)
  then show ?thesis
    unfolding imd_entry_add_to_root_def imd_root_data_left_def root_last_entry_eq [OF assms] Let_def
      imd_entry_assign_def rd32_fields wr32_fields
    by (auto simp: wr32_fields)
qed

text \<open>Offsets: the subtraction wraps exactly when the new offset would be too low.\<close>

lemma sint_sub_used:
  fixes l u :: u32
  assumes "sint l \<le> 0"
  shows "sint (l - u) > sint l \<longleftrightarrow> sint l - int (unat u) < - (2 ^ 31)"
    and "- (2 ^ 31) \<le> sint l - int (unat u) \<Longrightarrow> sint (l - u) = sint l - int (unat u)"
proof -
  let ?x = "sint l - int (unat u)"
  have r: "- 2147483648 \<le> sint l" using sint_ge [of l] by simp
  have u: "int (unat u) < 4294967296" using unat_lt_2p32 [of u] by linarith
  have "l - u = word_of_int ?x" by simp
  then have s: "sint (l - u) = (?x + 2147483648) mod 4294967296 - 2147483648"
    by (simp only: sint_sbintrunc') (simp add: signed_take_bit_eq_take_bit_shift take_bit_eq_mod)
  have low: "(?x + 2147483648) mod 4294967296 = ?x + 2147483648 + 4294967296" if "?x < - 2147483648"
  proof -
    have "(?x + 2147483648) mod 4294967296 = (?x + 2147483648 + 4294967296) mod 4294967296"
      by (rule mod_add_self2 [symmetric])
    also have "\<dots> = ?x + 2147483648 + 4294967296"
      using that r u by (intro mod_pos_pos_trivial) linarith+
    finally show ?thesis .
  qed
  have high: "(?x + 2147483648) mod 4294967296 = ?x + 2147483648" if "- 2147483648 \<le> ?x"
    using that assms by (intro mod_pos_pos_trivial) linarith+
  show "sint (l - u) > sint l \<longleftrightarrow> ?x < - (2 ^ 31)"
    using s low high u by (cases "?x < - 2147483648") auto
  show "- (2 ^ 31) \<le> ?x \<Longrightarrow> sint (l - u) = ?x" using s high by simp
qed

lemma unat_sub_low:
  fixes l b :: u32
  assumes "sint b \<le> sint l" "sint l \<le> 0"
  shows "int (unat (l - b)) = sint l - sint b"
proof -
  have "- (2 ^ 31) \<le> sint b" using sint_ge [of b] by simp
  moreover have "int (unat (l - b)) = (sint l - sint b) mod 4294967296"
  proof -
    have "l - b = word_of_int (sint l - sint b)" by simp
    then have "uint (l - b) = (sint l - sint b) mod 2 ^ LENGTH(32)" by (metis uint_word_of_int)
    then show ?thesis by simp
  qed
  ultimately show ?thesis using assms by (simp add: mod_pos_pos_trivial)
qed

lemma ents_ok_snoc:
  assumes "ents_ok tp es" "offs + int n \<le> fst (last es)" "0 \<le> int tp + offs"
  shows "ents_ok tp (es @ [(offs, n, i)])"
proof -
  have ne: "es \<noteq> []" using assms(1) by (simp add: ents_ok_def)
  have "fst ((es @ [(offs, n, i)]) ! Suc k) + int (fst (snd ((es @ [(offs, n, i)]) ! Suc k))) \<le> fst ((es @ [(offs, n, i)]) ! k)"
    if "Suc k < length (es @ [(offs, n, i)])" for k
  proof (cases "Suc k < length es")
    case True
    then show ?thesis using assms(1) by (simp add: nth_append ents_ok_def)
  next
    case False
    then have "Suc k = length es" using that by simp
    then have "(es @ [(offs, n, i)]) ! Suc k = (offs, n, i)" "(es @ [(offs, n, i)]) ! k = last es"
      using ne by (simp_all add: nth_append last_conv_nth flip: \<open>Suc k = length es\<close>)
    then show ?thesis using assms(2) by simp
  qed
  then show ?thesis using assms(1,3) ne by (simp add: ents_ok_def nth_append)
qed

text \<open>Adding an entry behind the last one, in terms of the fields.\<close>

definition put_entry :: "mem \<Rightarrow> uintptr \<Rightarrow> nat \<Rightarrow> u32 \<Rightarrow> u32 \<Rightarrow> u32 \<Rightarrow> mem" where
  "put_entry m r n offs sz i =
     setf (setf (setf (setf (setf m r 1 (fld m r 1 + 1)) r (5 + 4 * n) IMD_ENTRY_MAGIC)
       r (6 + 4 * n) offs) r (7 + 4 * n) sz) r (8 + 4 * n) i"

lemma fld_put_entry:
  assumes "n < 1000" "j < 1073741824"
  shows "fld (put_entry m r n offs sz i) r j =
    (if j = 8 + 4 * n then i else if j = 7 + 4 * n then sz else if j = 6 + 4 * n then offs
     else if j = 5 + 4 * n then IMD_ENTRY_MAGIC else if j = 1 then fld m r 1 + 1 else fld m r j)"
  using assms by (simp add: put_entry_def)

lemma put_entry_view:
  assumes "n = num_of m r" "n < 1000"
  shows "num_of (put_entry m r n offs sz i) r = Suc n"
    and "adb_of (put_entry m r n offs sz i) r =
      (adb_of m r)\<lparr>a_ents := a_ents (adb_of m r) @ [(sint offs, unat sz, i)]\<rparr>"
proof -
  have "unat (fld m r 1 + 1) = Suc n"
    using assms by (subst unat_plus_no_wrap) (simp_all add: num_of_def)
  then show num: "num_of (put_entry m r n offs sz i) r = Suc n"
    using assms by (simp add: num_of_def fld_put_entry)
  have "ent_of (put_entry m r n offs sz i) r k = ent_of m r k" if "k < n" for k
    using that assms(2) by (simp add: ent_of_def fld_put_entry)
  moreover have "ent_of (put_entry m r n offs sz i) r n = (sint offs, unat sz, i)"
    using assms(2) by (simp add: ent_of_def fld_put_entry)
  ultimately show "adb_of (put_entry m r n offs sz i) r =
      (adb_of m r)\<lparr>a_ents := a_ents (adb_of m r) @ [(sint offs, unat sz, i)]\<rparr>"
    using assms unfolding adb_of_def num by (simp add: fld_put_entry)
qed

lemma root_at_put_entry:
  assumes "root_at p m lim r" "n = num_of m r" "0 < n" "n < (p - 5) div 4"
  shows "root_at p (put_entry m r n offs sz i) lim r"
proof -
  have n: "n < 1000" "8 + 4 * n < p" "p < 1073741823"
    using assms by (auto simp: root_at_def)
  then have num: "num_of (put_entry m r n offs sz i) r = Suc n" using put_entry_view(1) assms(2) by simp
  have magic: "fld (put_entry m r n offs sz i) r (5 + 4 * k) = IMD_ENTRY_MAGIC" if "k < Suc n" for k
    using that assms(1,2) n by (auto simp: fld_put_entry root_at_def less_Suc_eq)
  show ?thesis
    using assms(1,3,4) n magic unfolding root_at_def num by (simp add: fld_put_entry)
qed

lemma root_ok_last:
  assumes "root_ok m lim r"
  shows "a_last (adb_of m r) \<le> 0" "0 \<le> int (unat r) + a_last (adb_of m r)"
    "sint (fld m r (6 + 4 * (num_of m r - 1))) = a_last (adb_of m r)"
proof -
  have ok: "ents_ok (unat r) (a_ents (adb_of m r))" using assms by (simp add: root_ok_def)
  then have "a_ents (adb_of m r) \<noteq> []" by (simp add: ents_ok_def)
  then have l: "last (a_ents (adb_of m r)) = a_ents (adb_of m r) ! (length (a_ents (adb_of m r)) - 1)"
    "length (a_ents (adb_of m r)) - 1 < length (a_ents (adb_of m r))" by (simp_all add: last_conv_nth)
  show "a_last (adb_of m r) \<le> 0" using ents_ok_offset(2) [OF ok l(2)] l(1) by (simp add: a_last_def)
  show "0 \<le> int (unat r) + a_last (adb_of m r)" using ok by (simp add: ents_ok_def a_last_def)
  show "sint (fld m r (6 + 4 * (num_of m r - 1))) = a_last (adb_of m r)" by (simp add: a_last_eq [OF assms])
qed

lemma used_size_eq:
  assumes "root_ok m lim r" "unat sz + a_align (adb_of m r) \<le> 4294967296"
  shows "unat (ALIGN_UP sz (fld m r 3)) = a_used (adb_of m r) (unat sz)" "unat sz \<le> a_used (adb_of m r) (unat sz)"
proof -
  obtain k where k: "k \<le> 12" "fld m r 3 = 2 ^ k" using assms(1) by (auto simp: root_ok_def root_at_def)
  have a: "unat (2 ^ k :: u32) = 2 ^ k" using k(1) by (intro unat_exp_word) simp
  have "unat sz + 2 ^ k - 1 < 4294967296" using assms(2) k(2) a by (simp add: adb_of_def)
  then have "unat (ALIGN_UP sz (2 ^ k)) = (unat sz + 2 ^ k - 1) div 2 ^ k * 2 ^ k"
    using k(1) by (intro unat_ALIGN_UP) simp_all
  with k a show "unat (ALIGN_UP sz (fld m r 3)) = a_used (adb_of m r) (unat sz)"
    by (simp add: a_used_def adb_of_def)
  show "unat sz \<le> a_used (adb_of m r) (unat sz)"
    using le_ALIGN_UP_nat [of "unat sz" k] k a by (simp add: a_used_def adb_of_def)
qed

text \<open>The three tests of the code are those of the specification.\<close>

lemma add_tests:
  assumes ok: "root_ok m lim r" and wrap: "unat sz + a_align (adb_of m r) \<le> 4294967296"
  defines "l \<equiv> fld m r (6 + 4 * (num_of m r - 1))" and "u \<equiv> ALIGN_UP sz (fld m r 3)"
  shows "fld m r 1 = fld m r 0 \<longleftrightarrow> length (a_ents (adb_of m r)) = a_max (adb_of m r)"
    and "u > (if fld m r 4 \<noteq> 0 then l - fld m r 4 else NOT 0) \<longleftrightarrow>
      (\<exists>b. a_low (adb_of m r) = Some b \<and> a_last (adb_of m r) - int (a_used (adb_of m r) (unat sz)) < b)"
    and "sint (l - u) > sint l \<longleftrightarrow> a_last (adb_of m r) - int (a_used (adb_of m r) (unat sz)) < - (2 ^ 31)"
proof -
  note last = root_ok_last [OF ok] and used = used_size_eq [OF ok wrap]
  show "fld m r 1 = fld m r 0 \<longleftrightarrow> length (a_ents (adb_of m r)) = a_max (adb_of m r)"
    by (simp add: adb_of_def num_of_def word_unat_eq_iff)
  show "sint (l - u) > sint l \<longleftrightarrow> a_last (adb_of m r) - int (a_used (adb_of m r) (unat sz)) < - (2 ^ 31)"
    using sint_sub_used(1) [of l u] last used by (simp add: l_def u_def)
  show "u > (if fld m r 4 \<noteq> 0 then l - fld m r 4 else NOT 0) \<longleftrightarrow>
      (\<exists>b. a_low (adb_of m r) = Some b \<and> a_last (adb_of m r) - int (a_used (adb_of m r) (unat sz)) < b)"
  proof (cases "fld m r 4 = 0")
    case True
    then show ?thesis by (simp add: adb_of_def)
  next
    case False
    then have low: "a_low (adb_of m r) = Some (sint (fld m r 4))" by (simp add: adb_of_def)
    then have "sint (fld m r 4) \<le> sint l" using ok last by (simp add: root_ok_def low_ok_def l_def)
    then have "int (unat (l - fld m r 4)) = sint l - sint (fld m r 4)"
      using last by (intro unat_sub_low) (simp_all add: l_def)
    then have "l - fld m r 4 < u \<longleftrightarrow> sint l - int (unat u) < sint (fld m r 4)"
      unfolding word_less_nat_alt by linarith
    then show ?thesis using False low last used by (simp add: l_def u_def)
  qed
qed

lemma add_refines:
  assumes ok: "root_ok m lim r" and wrap: "unat sz + a_align (adb_of m r) \<le> 4294967296"
    and room: "a_low (adb_of m r) = None \<Longrightarrow> int (a_used (adb_of m r) (unat sz)) \<le> int (unat r) + a_last (adb_of m r)"
    and d: "r_root d = r"
  shows "case a_add i (unat sz) (adb_of m r) of
      None \<Rightarrow> imdr_entry_add d i sz m = (0, m)
    | Some a \<Rightarrow> \<exists>offs. imdr_entry_add d i sz m = (r_entry r (word_of_nat (num_of m r)), put_entry m r (num_of m r) offs sz i) \<and>
        adb_of (put_entry m r (num_of m r) offs sz i) r = a \<and> root_ok (put_entry m r (num_of m r) offs sz i) lim r"
proof -
  let ?n = "num_of m r" and ?d = "adb_of m r"
  let ?l = "fld m r (6 + 4 * (?n - 1))" and ?u = "ALIGN_UP sz (fld m r 3)"
  obtain p where p: "root_at p m lim r" using ok by (auto simp: root_ok_def)
  have r0: "r \<noteq> 0" using p by (auto simp: root_at_def)
  note last = root_ok_last [OF ok] and used = used_size_eq [OF ok wrap] and tests = add_tests [OF ok wrap]
  have unfold: "imdr_entry_add d i sz m = (if a_add i (unat sz) ?d = None then (0, m)
      else (r_entry r (word_of_nat ?n), put_entry m r ?n (?l - ?u) sz i))"
    using r0 tests unfolding imdr_entry_add_def imdr_root_def d add_to_root_fields [OF ok] a_add_def Let_def
    by (simp add: root_is_locked_def rd32_fields put_entry_def adb_of_def)
  show ?thesis
  proof (cases "a_add i (unat sz) ?d")
    case None
    then show ?thesis using unfold by simp
  next
    case (Some a)
    let ?o = "a_last ?d - int (a_used ?d (unat sz))"
    have c: "length (a_ents ?d) \<noteq> a_max ?d" "\<not> (\<exists>b. a_low ?d = Some b \<and> ?o < b)" "\<not> ?o < - (2 ^ 31)"
      and a: "a = ?d\<lparr>a_ents := a_ents ?d @ [(?o, unat sz, i)]\<rparr>"
      using Some by (auto simp: a_add_def Let_def split: if_splits)
    have n: "0 < ?n" "?n < (p - 5) div 4" "?n < 1000"
      using root_num_pos [OF ok] p c(1) by (auto simp: root_at_def adb_of_def)
    have o: "sint (?l - ?u) = ?o" using sint_sub_used(2) [of ?l ?u] c(3) last used by simp
    have view: "adb_of (put_entry m r ?n (?l - ?u) sz i) r = a"
      using put_entry_view(2) [OF refl n(3)] a o by simp
    have "0 \<le> int (unat r) + ?o"
    proof (cases "a_low ?d")
      case None
      then show ?thesis using room by simp
    next
      case (Some b)
      then show ?thesis using c(2) ok by (fastforce simp: root_ok_def low_ok_def)
    qed
    moreover have "?o + int (unat sz) \<le> fst (last (a_ents ?d))"
      using used(2) unfolding a_last_def by linarith
    ultimately have "ents_ok (unat r) (a_ents a)"
      using ok ents_ok_snoc [of "unat r" "a_ents ?d" ?o "unat sz" i] unfolding a by (simp add: root_ok_def)
    moreover have "low_ok (unat r) a"
      using ok c(2) unfolding a by (fastforce simp: root_ok_def low_ok_def a_last_def)
    ultimately have "root_ok (put_entry m r ?n (?l - ?u) sz i) lim r"
      using root_at_put_entry [OF p refl n(1,2)] view unfolding root_ok_def by metis
    then show ?thesis using unfold Some view by auto
  qed
qed

section \<open>Recovery\<close>

lemma root_at_limit:
  assumes "root_at p m lim r"
  shows "lim = r + 4 * word_of_nat (p + 2)" "imdr_get_root_pointer \<lparr>limit = lim, r_root = x\<rparr> = r + 4 * word_of_nat p"
    "unat lim \<le> 4294963200"
proof -
  have p: "p \<le> 1022" "unat r + 4 * (p + 2) = unat lim" "4096 dvd unat lim" using assms by (auto simp: root_at_def)
  have u: "unat (4 * word_of_nat (p + 2) :: u32) = 4 * (p + 2)" using p(1) by (intro unat_words) simp
  then have "unat (r + 4 * word_of_nat (p + 2)) = unat lim"
    using p(2) unat_lt_2p32 [of lim] by (subst unat_plus_no_wrap) simp_all
  then show l: "lim = r + 4 * word_of_nat (p + 2)" by (metis word_unat_eq_iff)
  then show "imdr_get_root_pointer \<lparr>limit = lim, r_root = x\<rparr> = r + 4 * word_of_nat p"
    by (simp add: imdr_get_root_pointer_def relative_pointer_def algebra_simps)
  obtain q where q: "unat lim = 4096 * q" using p(3) by blast
  then have "q < 1048576" using unat_lt_2p32 [of lim] by linarith
  then show "unat lim \<le> 4294963200" using q by linarith
qed

lemma align_up_page:
  assumes "4096 dvd l" "l - 4096 < x" "x \<le> l"
  shows "(x + 4095) div 4096 * 4096 = (l::nat)"
proof -
  obtain q where q: "l = 4096 * q" using assms(1) by blast
  have "(x + 4095) div 4096 = q" using assms q by (intro div_nat_eqI) auto
  then show ?thesis using q by simp
qed

lemma root_end_aligned:
  assumes "root_at p m lim r"
  shows "ALIGN_UP (r_entry r (fld m r 0)) LIMIT_ALIGN = lim"
proof -
  have p: "9 \<le> p" "p \<le> 1022" "unat r + 4 * (p + 2) = unat lim" "4096 dvd unat lim" "unat (fld m r 0) = (p - 5) div 4"
    using assms by (auto simp: root_at_def)
  have l: "unat lim \<le> 4294963200" by (rule root_at_limit [OF assms])
  let ?k = "(p - 5) div 4"
  have k: "fld m r 0 = word_of_nat ?k" using p(5) by (metis of_nat_unat ucast_id)
  have "r_entry r (fld m r 0) = r + 4 * word_of_nat (5 + 4 * ?k)" unfolding k by (simp add: r_entry_def algebra_simps)
  moreover have "unat (4 * word_of_nat (5 + 4 * ?k) :: u32) = 4 * (5 + 4 * ?k)"
    using p(2) by (intro unat_words) simp
  moreover have kp: "4 * (5 + 4 * ?k) \<le> 4 * (p + 2)" using p(1) by simp
  ultimately have e: "unat (r_entry r (fld m r 0)) = unat r + 4 * (5 + 4 * ?k)"
    using p(3) l by (simp only:) (subst unat_plus_no_wrap, simp_all)
  have "unat (ALIGN_UP (r_entry r (fld m r 0)) (2 ^ 12)) = (unat (r_entry r (fld m r 0)) + 2 ^ 12 - 1) div 2 ^ 12 * 2 ^ 12"
    using e kp p(3) l by (intro unat_ALIGN_UP) simp_all
  also have "\<dots> = unat lim"
    using align_up_page [OF p(4), of "unat (r_entry r (fld m r 0))"] e kp p by simp
  finally show ?thesis by (simp add: LIMIT_ALIGN_def word_unat_eq_iff)
qed

lemma start_addr_eq:
  fixes r w :: u32
  assumes "sint w \<le> 0" "0 \<le> int (unat r) + sint w"
  shows "int (unat (r + w)) = int (unat r) + sint w"
proof -
  have "r + w = word_of_int (int (unat r) + sint w)" by simp
  then have "uint (r + w) = (int (unat r) + sint w) mod 2 ^ LENGTH(32)" by (metis uint_word_of_int)
  moreover have "int (unat r) + sint w < 4294967296" using assms(1) unat_lt_2p32 [of r] by linarith
  ultimately show ?thesis using assms(2) by (simp add: mod_pos_pos_trivial)
qed

lemma adb_ents:
  "length (a_ents (adb_of m r)) = num_of m r"
  "i < num_of m r \<Longrightarrow> a_ents (adb_of m r) ! i = ent_of m r i"
  by (simp_all add: adb_of_def)

lemma recover_entry:
  assumes "root_ok m lim r" "root_at p m lim r" "i < num_of m r"
    and low: "low = (let l = relative_pointer r (fld m r 4) in if l = r then 0 else l)"
  shows "recover_entry_ok m r low lim i"
proof -
  let ?w = "fld m r (6 + 4 * i)" and ?z = "fld m r (7 + 4 * i)"
  have es: "ents_ok (unat r) (a_ents (adb_of m r))" using assms(1) by (simp add: root_ok_def)
  have i: "i < length (a_ents (adb_of m r))" "a_ents (adb_of m r) ! i = ent_of m r i"
    using assms(3) by (simp_all add: adb_ents)
  note off = ents_ok_offset [OF es i(1), unfolded i(2), unfolded ent_of_def, simplified]
  have lim: "unat r + 4 * (p + 2) = unat lim" "unat (fld m r 7) = 4 * (p + 2)" "fld m r (5 + 4 * i) = IMD_ENTRY_MAGIC"
    using assms(2,3) by (auto simp: root_at_def)
  have s: "int (unat (r + ?w)) = int (unat r) + sint ?w"
    using off(2,3) by (intro start_addr_eq) simp_all
  have "int (unat (r + ?w)) + int (unat ?z) \<le> int (unat lim)"
  proof (cases "i = 0")
    case True
    then have "?w = 0" using es assms(3) by (simp add: ents_ok_def adb_ents ent_of_def signed_eq_0_iff)
    then have "unat (r + ?w) + unat ?z = unat lim" using True lim by simp
    then show ?thesis by linarith
  next
    case False
    then have "sint ?w + int (unat ?z) \<le> 0" using off(4) by simp
    then show ?thesis using s lim by linarith
  qed
  then have fits: "unat (r + ?w) + unat ?z \<le> unat lim" by linarith
  moreover from this have "unat (r + ?w + ?z) = unat (r + ?w) + unat ?z"
    using le_less_trans [OF fits unat_lt_2p32] by (subst unat_plus_no_wrap) simp_all
  moreover have "unat (r + ?w) < unat lim"
  proof -
    have "int (unat (r + ?w)) \<le> int (unat r)" using s off(2) by linarith
    then have "unat (r + ?w) \<le> unat r" by linarith
    also have "unat r < unat r + 4 * (p + 2)" by simp
    finally show ?thesis unfolding lim(1) .
  qed
  moreover have "\<not> r + ?w < low"
  proof (cases "fld m r 4 = 0")
    case True
    then show ?thesis by (simp add: low relative_pointer_def Let_def)
  next
    case False
    then have b: "a_low (adb_of m r) = Some (sint (fld m r 4))" by (simp add: adb_of_def)
    then have b: "sint (fld m r 4) < 0" "sint (fld m r 4) \<le> a_last (adb_of m r)" "0 \<le> int (unat r) + sint (fld m r 4)"
      using assms(1) by (auto simp: root_ok_def low_ok_def)
    have "a_last (adb_of m r) \<le> sint ?w" using off(1) by (simp add: a_last_def)
    moreover have "int (unat (r + fld m r 4)) = int (unat r) + sint (fld m r 4)"
      using b by (intro start_addr_eq) simp_all
    ultimately have "unat (r + fld m r 4) \<le> unat (r + ?w)" using s b(2) by linarith
    then show ?thesis using False by (simp add: low relative_pointer_def Let_def word_less_nat_alt)
  qed
  ultimately show ?thesis
    using lim(3) unfolding recover_entry_ok_def Let_def rd32_fields relative_pointer_def
    by (simp add: word_less_nat_alt word_le_nat_alt)
qed

lemma pow2_is_power: "IS_POWER_OF_2 (2 ^ k :: u32)"
proof -
  have "(2 ^ k :: u32) AND mask k = 0" by (rule bit_word_eqI) (auto simp: bit_simps)
  then show ?thesis by (simp add: IS_POWER_OF_2_def mask_eq_exp_minus_1)
qed

lemma recover_ok:
  assumes "root_ok m lim r"
  shows "imdr_recover \<lparr>limit = lim, r_root = x\<rparr> m = (0, \<lparr>limit = lim, r_root = r\<rparr>)"
proof -
  obtain p where p: "root_at p m lim r" using assms by (auto simp: root_ok_def)
  note lim = root_at_limit(2) [OF p, where x = x]
  have f: "9 \<le> p" "p \<le> 1022" "unat r + 4 * (p + 2) = unat lim" "fld m r p = IMD_ROOT_PTR_MAGIC"
    "fld m r (Suc p) = - (4 * word_of_nat p)" "unat (fld m r 0) = (p - 5) div 4" "num_of m r \<le> (p - 5) div 4"
    "\<exists>k \<le> 12. fld m r 3 = 2 ^ k"
    using p by (auto simp: root_at_def)
  have "lim \<noteq> 0" using f(1,3) by auto
  moreover have "imd_root_pointer_valid m (r + 4 * word_of_nat p)"
    using f(4) by (simp add: imd_root_pointer_valid_def rp_magic_def fld_def)
  moreover have "rd32 m (rp_root_offset (r + 4 * word_of_nat p)) = - (4 * word_of_nat p)"
    using f(5) by (simp add: rp_root_offset_def fld_def algebra_simps)
  moreover have "\<not> fld m r 0 < fld m r 1" using f(6,7) by (simp add: word_less_nat_alt num_of_def)
  moreover have "IS_POWER_OF_2 (fld m r 3)"
    using f(8) pow2_is_power by auto
  moreover have "list_all (recover_entry_ok m r (let l = relative_pointer r (fld m r 4) in if l = r then 0 else l) lim)
      [0..<unat (fld m r 1)]"
    using recover_entry [OF assms p] by (simp add: list_all_iff num_of_def)
  ultimately show ?thesis
    unfolding imdr_recover_def lim using root_end_aligned [OF p]
    by (simp add: Let_def relative_pointer_def rd32_fields)
qed

section \<open>Roots do not disturb each other\<close>

lemma unat_le_2p32 [simp]: "unat (x :: u32) \<le> 4294967296"
  using unat_lt_2p32 [of x] by linarith

definition agree :: "mem \<Rightarrow> mem \<Rightarrow> nat \<Rightarrow> nat \<Rightarrow> bool" where
  "agree m' m lo hi \<longleftrightarrow> (\<forall>a. lo \<le> unat a \<and> unat a < hi \<longrightarrow> m' a = m a)"

lemma agree_refl [simp]: "agree m m lo hi"
  by (simp add: agree_def)

lemma agree_trans: "agree m2 m1 lo hi \<Longrightarrow> agree m1 m lo hi \<Longrightarrow> agree m2 m lo hi"
  by (simp add: agree_def)

lemma unat_field_byte:
  assumes "unat r + 4 * j + 4 \<le> hi" "hi \<le> 4294967296" "k < 4"
  shows "unat (r + 4 * word_of_nat j + word_of_nat k :: u32) = unat r + 4 * j + k"
proof -
  have j: "unat (4 * word_of_nat j :: u32) = 4 * j" using assms by (intro unat_words) linarith
  have k: "unat (word_of_nat k :: u32) = k" using assms(3) by (intro unat_of_nat_u32) linarith
  have "unat (r + 4 * word_of_nat j) = unat r + 4 * j"
    using assms j by (subst unat_plus_no_wrap) simp_all
  then show ?thesis using assms k by (subst unat_plus_no_wrap) simp_all
qed

lemma fld_agree:
  assumes "agree m' m (unat r) hi" "unat r + 4 * j + 4 \<le> hi" "hi \<le> 4294967296"
  shows "fld m' r j = fld m r j"
proof -
  have "m' (r + 4 * word_of_nat j + word_of_nat k) = m (r + 4 * word_of_nat j + word_of_nat k)" if "k < 4" for k
    using assms(1) unat_field_byte [OF assms(2,3) that] assms(2) that by (simp add: agree_def)
  from this [of 0] this [of 1] this [of 2] this [of 3] show ?thesis by (simp add: fld_def rd32_def)
qed

lemma setf_agree:
  assumes "unat r + 4 * j + 4 \<le> hi" "hi \<le> 4294967296" "h \<le> unat r \<or> hi \<le> l"
  shows "agree (setf m r j v) m l h"
  unfolding agree_def
proof (intro allI impI)
  fix a :: uintptr
  assume a: "l \<le> unat a \<and> unat a < h"
  let ?f = "r + 4 * word_of_nat j"
  have f: "unat ?f = unat r + 4 * j" using unat_field_byte [OF assms(1,2), of 0] by simp
  have "4 \<le> unat (a - ?f)"
  proof (cases "?f \<le> a")
    case True
    then have "unat (a - ?f) = unat a - unat ?f" by (rule unat_minus_no_wrap)
    moreover have "unat r + 4 * j \<le> unat a" using True f by (simp add: word_le_nat_alt)
    ultimately show ?thesis using a f assms(1,3) by linarith
  next
    case False
    then have "unat (a - ?f) = 4294967296 + unat a - unat ?f" by (simp add: unat_minus_wrap)
    then show ?thesis using f assms(1,2) by linarith
  qed
  then show "setf m r j v a = m a" unfolding setf_def by (rule wr32_apply)
qed

lemma root_ok_agree:
  assumes "root_ok m lim r" "agree m' m (unat r) (unat lim)"
  shows "adb_of m' r = adb_of m r" "root_ok m' lim r"
proof -
  obtain p where p: "root_at p m lim r" using assms(1) by (auto simp: root_ok_def)
  have f: "fld m' r j = fld m r j" if "j < p + 2" for j
    using that p unat_lt_2p32 [of lim] by (intro fld_agree [OF assms(2)]) (auto simp: root_at_def)
  have b: "9 \<le> p" "num_of m r \<le> (p - 5) div 4" using p by (auto simp: root_at_def)
  have n: "num_of m' r = num_of m r" using f b by (simp add: num_of_def)
  have k: "4 * k + 8 < p + 2" if "k < num_of m r" for k using that b by simp
  have "ent_of m' r k = ent_of m r k" if "k < num_of m r" for k
  proof -
    have "6 + 4 * k < p + 2" "7 + 4 * k < p + 2" "8 + 4 * k < p + 2" using k [OF that] by linarith+
    from this [THEN f] show ?thesis by (simp add: ent_of_def)
  qed
  then show a: "adb_of m' r = adb_of m r" using f b n by (simp add: adb_of_def)
  have "root_at p m' lim r"
    using p f b k n f [of "5 + 4 * i" for i] by (auto simp: root_at_def)
  then show "root_ok m' lim r" using assms(1) a by (auto simp: root_ok_def)
qed

lemma put_entry_agree:
  assumes "root_ok m lim r" "num_of m r < a_max (adb_of m r)" "h \<le> unat r \<or> unat lim \<le> l"
  shows "agree (put_entry m r (num_of m r) offs sz i) m l h"
proof -
  obtain p where p: "root_at p m lim r" using assms(1) by (auto simp: root_ok_def)
  have b: "9 \<le> p" "num_of m r < (p - 5) div 4" "unat r + 4 * (p + 2) = unat lim"
    using p assms(2) by (auto simp: root_at_def adb_of_def)
  then have "agree (setf mm r j v) m l h" if "j < p + 2" "agree mm m l h" for mm j v
    using that assms(3) by (intro agree_trans [OF setf_agree [of r j "unat lim"]]) auto
  note step = this
  show ?thesis unfolding put_entry_def using b by (intro step agree_refl) simp_all
qed

section \<open>Creation\<close>

lemma clear_root: "mem_set m r 0 20 = setf (setf (setf (setf (setf m r 0 0) r 1 0) r 2 0) r 3 0) r 4 0"
proof -
  have w: "wr32 mm a 0 = mem_write mm a [0, 0, 0, 0]" for mm a by (simp add: wr32_def)
  have "replicate 20 (0 :: u8) = [0, 0, 0, 0] @ [0, 0, 0, 0] @ [0, 0, 0, 0] @ [0, 0, 0, 0] @ [0, 0, 0, 0]"
    by (simp add: numeral_eq_Suc)
  then show ?thesis
    unfolding mem_set_def setf_def w by (simp only: mem_write_append) (simp add: ac_simps)
qed

text \<open>The memory of a new root whose root pointer is at word \<open>p\<close>.\<close>

definition new_root :: "mem \<Rightarrow> uintptr \<Rightarrow> nat \<Rightarrow> u32 \<Rightarrow> mem" where
  "new_root m r p al =
     (let m = setf (setf m r p IMD_ROOT_PTR_MAGIC) r (Suc p) (- (4 * word_of_nat p));
          m = setf (setf (setf (setf (setf m r 0 0) r 1 0) r 2 0) r 3 0) r 4 0;
          m = setf (setf (setf m r 3 al) r 0 (word_of_nat ((p - 5) div 4))) r 1 1
      in setf (setf (setf (setf m r 5 IMD_ENTRY_MAGIC) r 6 0) r 7 (4 * word_of_nat (p + 2))) r 8 CBMEM_ID_IMD_ROOT)"

lemma fld_new_root:
  assumes "9 \<le> p" "p \<le> 1022"
  shows "fld (new_root m r p al) r p = IMD_ROOT_PTR_MAGIC" "fld (new_root m r p al) r (Suc p) = - (4 * word_of_nat p)"
    "fld (new_root m r p al) r 0 = word_of_nat ((p - 5) div 4)" "fld (new_root m r p al) r 1 = 1"
    "fld (new_root m r p al) r 2 = 0" "fld (new_root m r p al) r 3 = al" "fld (new_root m r p al) r 4 = 0"
    "fld (new_root m r p al) r 5 = IMD_ENTRY_MAGIC" "fld (new_root m r p al) r 6 = 0"
    "fld (new_root m r p al) r 7 = 4 * word_of_nat (p + 2)" "fld (new_root m r p al) r 8 = CBMEM_ID_IMD_ROOT"
  using assms by (simp_all add: new_root_def Let_def)

lemma create_empty_fields:
  assumes "limit d = lim" "lim \<noteq> 0" "9 \<le> p" "p \<le> 1022" "al \<le> 4 * word_of_nat (p + 2)"
  shows "imdr_create_empty d (4 * word_of_nat (p + 2)) al m =
    (0, d\<lparr>r_root := lim - 4 * word_of_nat (p + 2)\<rparr>, new_root m (lim - 4 * word_of_nat (p + 2)) p al)"
proof -
  define s where "s = (4 * word_of_nat (p + 2) :: u32)"
  define r where "r = lim - s"
  have s: "unat s = 4 * (p + 2)" unfolding s_def using assms(4) by (intro unat_words) simp
  have c: "\<not> s < 8 + 20" "\<not> s > LIMIT_ALIGN" "\<not> al > LIMIT_ALIGN" "\<not> al > s"
    using assms(3,4) assms(5) [folded s_def] s by (auto simp: word_less_nat_alt word_le_nat_alt LIMIT_ALIGN_def)
  have n: "root_num_entries s = word_of_nat ((p - 5) div 4)"
  proof -
    have sub: "unat (w - 8 - 20) = unat w - 28" if "28 \<le> unat w" for w :: u32
    proof -
      have "unat (w - 8) = unat w - 8" using that by (simp add: unat_minus_no_wrap word_le_nat_alt)
      moreover from this have "20 \<le> w - 8" using that by (simp add: word_le_nat_alt)
      ultimately show ?thesis using unat_minus_no_wrap [of 20 "w - 8"] by simp
    qed
    have "28 \<le> unat s" unfolding s using assms(3) by simp
    from sub [OF this] s have "unat (root_num_entries s) = (4 * (p + 2) - 28) div 16"
      unfolding root_num_entries_def unat_div by simp
    also have "\<dots> = (p - 5) div 4" using assms(3) by simp
    finally show ?thesis by (metis of_nat_unat ucast_id)
  qed
  have rp: "imdr_get_root_pointer d = r + 4 * word_of_nat p"
    using assms(1) by (simp add: imdr_get_root_pointer_def relative_pointer_def r_def s_def algebra_simps)
  have rel: "relative_pointer (limit d) (- s) = r" using assms(1) by (simp add: relative_pointer_def r_def)
  have link: "imd_link_root (r + 4 * word_of_nat p) r m =
      setf (setf m r p IMD_ROOT_PTR_MAGIC) r (Suc p) (- (4 * word_of_nat p))"
    by (simp add: imd_link_root_def setf_def rp_magic_def rp_root_offset_def algebra_simps)
  have e0: "imd_entry_assign (r_entry r 0) i ofs z mm =
      setf (setf (setf (setf mm r 5 IMD_ENTRY_MAGIC) r 6 ofs) r 7 z) r 8 i" for i ofs z mm
    using wr32_fields(6-9) [where k = 0 and r = r] by (simp add: imd_entry_assign_def)
  have "imdr_create_empty d s al m = (0, d\<lparr>r_root := r\<rparr>, new_root m r p al)"
    using assms(1,2) c unfolding imdr_create_empty_def rel rp link clear_root Let_def wr32_fields e0 n
    by (simp add: new_root_def s_def)
  then show ?thesis by (simp only: s_def r_def)
qed

lemma new_root_ok:
  assumes "9 \<le> p" "p \<le> 1022" "unat r + 4 * (p + 2) = unat lim" "0 < unat r" "4096 dvd unat lim" "k \<le> 12"
  shows "root_ok (new_root m r p (2 ^ k)) lim r"
    "adb_of (new_root m r p (2 ^ k)) r = \<lparr>a_max = (p - 5) div 4, a_align = 2 ^ k, a_low = None, a_locked = False,
       a_ents = [(0, 4 * (p + 2), CBMEM_ID_IMD_ROOT)]\<rparr>"
proof -
  note f = fld_new_root [OF assms(1,2)]
  have s: "unat (4 * word_of_nat (p + 2) :: u32) = 4 * (p + 2)" using assms(2) by (intro unat_words) simp
  have n: "unat (word_of_nat ((p - 5) div 4) :: u32) = (p - 5) div 4" using assms(2) by (intro unat_of_nat_u32) simp
  have al: "unat (2 ^ k :: u32) = 2 ^ k" using assms(6) by (intro unat_exp_word) simp
  have num: "num_of (new_root m r p (2 ^ k)) r = 1" unfolding num_of_def f by simp
  show v: "adb_of (new_root m r p (2 ^ k)) r = \<lparr>a_max = (p - 5) div 4, a_align = 2 ^ k, a_low = None, a_locked = False,
       a_ents = [(0, 4 * (p + 2), CBMEM_ID_IMD_ROOT)]\<rparr>"
    using s n al by (simp add: adb_of_def num ent_of_def f del: of_nat_add)
  have "root_at p (new_root m r p (2 ^ k)) lim r"
    using assms s n unfolding root_at_def num by (auto simp: f simp del: of_nat_add)
  then show "root_ok (new_root m r p (2 ^ k)) lim r"
    unfolding root_ok_def v by (auto simp: ents_ok_def low_ok_def)
qed

lemma new_root_agree:
  fixes lim :: u32
  assumes "9 \<le> p" "unat r + 4 * (p + 2) = unat lim" "h \<le> unat r \<or> unat lim \<le> l"
  shows "agree (new_root m r p al) m l h"
proof -
  have step: "agree (setf mm r j v) m l h" if "j < p + 2" "agree mm m l h" for mm j v
    using that assms by (intro agree_trans [OF setf_agree [of r j "unat lim"]]) auto
  show ?thesis unfolding new_root_def Let_def using assms(1) by (intro step agree_refl) simp_all
qed

section \<open>Lookup, removal and locking\<close>

definition a_find :: "u32 \<Rightarrow> adb \<Rightarrow> nat option" where
  "a_find i a = find (\<lambda>k. snd (snd (a_ents a ! k)) = i) [1..<length (a_ents a)]"

lemma find_view:
  assumes "root_ok m lim r" "r_root d = r"
  shows "imdr_entry_find d i m = (case a_find i (adb_of m r) of None \<Rightarrow> 0 | Some k \<Rightarrow> r_entry r (word_of_nat k))"
proof -
  have "r \<noteq> 0" using assms(1) by (auto simp: root_ok_def root_at_def)
  moreover have "find (\<lambda>k. rd32 m (e_id (r_entry r (word_of_nat k))) = i) [1..<num_of m r] = a_find i (adb_of m r)"
    unfolding a_find_def adb_ents(1) by (rule find_cong) (auto simp: adb_ents rd32_fields ent_of_def)
  ultimately show ?thesis using assms(2) by (simp add: imdr_entry_find_def imdr_root_def rd32_fields num_of_def)
qed

lemma find_append: "find P (xs @ ys) = (case find P xs of None \<Rightarrow> find P ys | Some x \<Rightarrow> Some x)"
  by (induction xs) auto

lemma a_find_snoc:
  assumes "a_ents a \<noteq> []"
  shows "a_find i (a\<lparr>a_ents := a_ents a @ [x]\<rparr>) =
    (case a_find i a of None \<Rightarrow> if snd (snd x) = i then Some (length (a_ents a)) else None | Some k \<Rightarrow> Some k)"
proof -
  let ?P = "\<lambda>k. snd (snd ((a_ents a @ [x]) ! k)) = i"
  have "[1..<length (a_ents a @ [x])] = [1..<length (a_ents a)] @ [length (a_ents a)]"
    using assms by (cases "a_ents a") auto
  moreover have "find ?P [1..<length (a_ents a)] = a_find i a"
    unfolding a_find_def by (rule find_cong) (auto simp: nth_append)
  ultimately show ?thesis by (simp add: a_find_def find_append split: option.splits)
qed

lemma a_find_bound: "a_find i a = Some k \<Longrightarrow> 1 \<le> k \<and> k < length (a_ents a) \<and> snd (snd (a_ents a ! k)) = i"
  by (auto simp: a_find_def find_Some_iff)

lemma a_find_butlast:
  assumes "a_find i a = Some k" "k < length (a_ents a) - 1"
  shows "a_find i (a\<lparr>a_ents := butlast (a_ents a)\<rparr>) = Some k"
proof (cases "a_ents a" rule: rev_cases)
  case (snoc es x)
  let ?b = "a\<lparr>a_ents := es\<rparr>"
  have "a = ?b\<lparr>a_ents := a_ents ?b @ [x]\<rparr>" using snoc by simp
  moreover have "es \<noteq> []" using assms(2) snoc by auto
  ultimately have "a_find i a = (case a_find i ?b of None \<Rightarrow> if snd (snd x) = i then Some (length es) else None | Some k \<Rightarrow> Some k)"
    using a_find_snoc [of ?b i x] by (auto split: option.split)
  then show ?thesis using assms snoc by (auto split: option.splits if_splits)
qed (use assms in simp)

lemma root_entry_addr:
  assumes "root_ok m lim r" "k \<le> num_of m r"
  shows "unat (r_entry r (word_of_nat k)) = unat r + 20 + 16 * k"
proof -
  obtain p where p: "root_at p m lim r" using assms(1) by (auto simp: root_ok_def)
  have "r_entry r (word_of_nat k) = r + 4 * word_of_nat (5 + 4 * k)" by (simp add: r_entry_def algebra_simps)
  moreover have "unat (r + 4 * word_of_nat (5 + 4 * k) + word_of_nat 0) = unat r + 4 * (5 + 4 * k) + 0"
    using p assms(2) by (intro unat_field_byte [of r _ "unat lim"]) (auto simp: root_at_def)
  ultimately show ?thesis by simp
qed

lemma root_at_fields:
  assumes "root_at p m lim r" "num_of m' r \<le> num_of m r" "fld m' r 0 = fld m r 0" "fld m' r 3 = fld m r 3"
    "fld m' r 7 = fld m r 7" "fld m' r p = fld m r p" "fld m' r (Suc p) = fld m r (Suc p)"
    "\<And>i. i < num_of m r \<Longrightarrow> fld m' r (5 + 4 * i) = fld m r (5 + 4 * i)"
  shows "root_at p m' lim r"
proof -
  note p = assms(1) [unfolded root_at_def]
  have "num_of m r \<le> (p - 5) div 4" "\<forall>i < num_of m r. fld m r (5 + 4 * i) = IMD_ENTRY_MAGIC" using p by iprover+
  then have "num_of m' r \<le> (p - 5) div 4" "\<forall>i < num_of m' r. fld m' r (5 + 4 * i) = IMD_ENTRY_MAGIC"
    using assms(2,8) by auto
  then show ?thesis unfolding root_at_def assms(3-7) using p by iprover
qed

text \<open>Dropping the last entry.\<close>

lemma remove_last_ok:
  assumes ok: "root_ok m lim r" and two: "2 \<le> num_of m r"
  defines "m' \<equiv> setf m r 1 (fld m r 1 - 1)"
  shows "root_ok m' lim r" "adb_of m' r = (adb_of m r)\<lparr>a_ents := butlast (a_ents (adb_of m r))\<rparr>"
    "h \<le> unat r \<or> unat lim \<le> l \<Longrightarrow> agree m' m l h"
proof -
  obtain p where p: "root_at p m lim r" using ok by (auto simp: root_ok_def)
  have b: "9 \<le> p" "p \<le> 1022" "num_of m r \<le> (p - 5) div 4" "unat r + 4 * (p + 2) = unat lim" using p by (auto simp: root_at_def)
  have f: "fld m' r j = (if j = 1 then fld m r 1 - 1 else fld m r j)" if "j < 1073741824" for j
    using that by (simp add: m'_def)
  have "1 \<le> fld m r 1" using two by (simp add: num_of_def word_le_nat_alt)
  then have num: "num_of m' r = num_of m r - 1"
    using f [of 1] unat_minus_no_wrap [of 1 "fld m r 1"] by (simp add: num_of_def)
  have "ent_of m' r k = ent_of m r k" if "k < num_of m r" for k
    using that b by (simp add: ent_of_def f)
  then show v: "adb_of m' r = (adb_of m r)\<lparr>a_ents := butlast (a_ents (adb_of m r))\<rparr>"
  proof -
    have "butlast [0..<num_of m r] = [0..<num_of m r - 1]" using two by (cases "num_of m r") auto
    moreover have "map (ent_of m' r) [0..<num_of m r - 1] = map (ent_of m r) [0..<num_of m r - 1]"
      using \<open>\<And>k. k < num_of m r \<Longrightarrow> ent_of m' r k = ent_of m r k\<close> by simp
    ultimately show ?thesis by (simp add: adb_of_def f num flip: map_butlast)
  qed
  let ?es = "a_ents (adb_of m r)"
  have es: "ents_ok (unat r) ?es" using ok by (simp add: root_ok_def)
  have len: "length ?es = num_of m r" by (rule adb_ents)
  have ne: "butlast ?es \<noteq> []" using two len by (cases ?es rule: rev_cases) auto
  then have lb: "last (butlast ?es) = ?es ! (length ?es - 2)"
    using two len by (simp add: last_conv_nth nth_butlast diff_diff_left numeral_2_eq_2)
  have i: "length ?es - 2 < length ?es" using two len by linarith
  note o = ents_ok_offset [OF es i]
  have "ents_ok (unat r) (butlast ?es)"
    using es two len o(3) lb ne unfolding ents_ok_def by (auto simp: nth_butlast)
  moreover have "low_ok (unat r) (adb_of m' r)"
    using ok o(1) lb unfolding v by (fastforce simp: root_ok_def low_ok_def a_last_def)
  moreover have "root_at p m' lim r"
    by (rule root_at_fields [OF p]) (use b num in \<open>simp_all add: f\<close>)
  ultimately show "root_ok m' lim r" by (auto simp: root_ok_def v)
  show "agree m' m l h" if "h \<le> unat r \<or> unat lim \<le> l"
    unfolding m'_def using that b by (intro setf_agree [of r 1 "unat lim"]) auto
qed

lemma lock_ok:
  assumes ok: "root_ok m lim r"
  defines "m' \<equiv> setf m r 2 (fld m r 2 OR IMD_FLAG_LOCKED)"
  shows "root_ok m' lim r" "adb_of m' r = (adb_of m r)\<lparr>a_locked := True\<rparr>"
    "h \<le> unat r \<or> unat lim \<le> l \<Longrightarrow> agree m' m l h"
proof -
  obtain p where p: "root_at p m lim r" using ok by (auto simp: root_ok_def)
  have b: "9 \<le> p" "p \<le> 1022" "num_of m r \<le> (p - 5) div 4" "unat r + 4 * (p + 2) = unat lim" using p by (auto simp: root_at_def)
  have f: "fld m' r j = (if j = 2 then fld m r 2 OR IMD_FLAG_LOCKED else fld m r j)" if "j < 1073741824" for j
    using that by (simp add: m'_def)
  have num: "num_of m' r = num_of m r" by (simp add: num_of_def f)
  have "ent_of m' r k = ent_of m r k" if "k < num_of m r" for k
    using that b by (simp add: ent_of_def f)
  moreover have "(fld m r 2 OR IMD_FLAG_LOCKED) AND IMD_FLAG_LOCKED \<noteq> 0"
  proof -
    have "bit ((fld m r 2 OR 1) AND 1) 0" by (simp add: bit_simps)
    then show ?thesis unfolding IMD_FLAG_LOCKED_def by (metis bit_0_eq bot_apply bot_bool_def)
  qed
  ultimately show v: "adb_of m' r = (adb_of m r)\<lparr>a_locked := True\<rparr>"
    using b by (simp add: adb_of_def f num)
  have "root_at p m' lim r"
    by (rule root_at_fields [OF p]) (use b num in \<open>simp_all add: f\<close>)
  moreover have "low_ok (unat r) (adb_of m' r) = low_ok (unat r) (adb_of m r)" unfolding v low_ok_def a_last_def by simp
  moreover have "a_ents (adb_of m' r) = a_ents (adb_of m r)" unfolding v by simp
  ultimately show "root_ok m' lim r" using ok unfolding root_ok_def by metis
  show "agree m' m l h" if "h \<le> unat r \<or> unat lim \<le> l"
    unfolding m'_def using that b by (intro setf_agree [of r 2 "unat lim"]) auto
qed

section \<open>The two databases together\<close>

definition tiers_ok :: "imd \<Rightarrow> mem \<Rightarrow> bool" where
  "tiers_ok d m \<longleftrightarrow>
     root_ok m (limit (lg d)) (r_root (lg d)) \<and> root_ok m (limit (sm d)) (r_root (sm d)) \<and>
     unat (limit (sm d)) \<le> unat (r_root (lg d)) \<and> a_low (adb_of m (r_root (sm d))) \<noteq> None \<and>
     (\<exists>k. a_find SMALL_REGION_ID (adb_of m (r_root (lg d))) = Some k \<and>
       r_root (lg d) + word_of_int (fst (a_ents (adb_of m (r_root (lg d))) ! k)) +
         word_of_nat (fst (snd (a_ents (adb_of m (r_root (lg d))) ! k))) = limit (sm d) \<and>
       int (unat (r_root (lg d))) + fst (a_ents (adb_of m (r_root (lg d))) ! k) \<le>
         int (unat (r_root (sm d))) + the (a_low (adb_of m (r_root (sm d)))))"

lemma root_limit_above: "root_ok m lim r \<Longrightarrow> unat r < unat lim"
proof -
  assume "root_ok m lim r"
  then obtain p where "unat r + 4 * (p + 2) = unat lim" by (auto simp: root_ok_def root_at_def)
  then show ?thesis by (metis add_2_eq_Suc' less_add_same_cancel1 nat_0_less_mult_iff zero_less_Suc zero_less_numeral)
qed

text \<open>A change inside the small region only, or inside the large root only.\<close>

lemma tiers_small:
  assumes "tiers_ok d m" "root_ok m' (limit (sm d)) (r_root (sm d))"
    "a_low (adb_of m' (r_root (sm d))) = a_low (adb_of m (r_root (sm d)))"
    "\<And>l h. unat (limit (sm d)) \<le> l \<Longrightarrow> agree m' m l h"
  shows "tiers_ok d m'"
proof -
  have "agree m' m (unat (r_root (lg d))) (unat (limit (lg d)))"
    using assms(1,4) by (simp add: tiers_ok_def)
  moreover have "root_ok m (limit (lg d)) (r_root (lg d))" using assms(1) by (simp add: tiers_ok_def)
  ultimately show ?thesis using assms root_ok_agree unfolding tiers_ok_def by metis
qed

lemma tiers_large:
  assumes "tiers_ok d m" "root_ok m' (limit (lg d)) (r_root (lg d))"
    "\<And>l h. h \<le> unat (r_root (lg d)) \<Longrightarrow> agree m' m l h"
    "\<And>k. a_find SMALL_REGION_ID (adb_of m (r_root (lg d))) = Some k \<Longrightarrow>
       a_find SMALL_REGION_ID (adb_of m' (r_root (lg d))) = Some k \<and>
       a_ents (adb_of m' (r_root (lg d))) ! k = a_ents (adb_of m (r_root (lg d))) ! k"
  shows "tiers_ok d m'"
proof -
  have "agree m' m (unat (r_root (sm d))) (unat (limit (sm d)))"
    using assms(1,3) by (simp add: tiers_ok_def)
  moreover have "root_ok m (limit (sm d)) (r_root (sm d))" using assms(1) by (simp add: tiers_ok_def)
  ultimately have "root_ok m' (limit (sm d)) (r_root (sm d))" "adb_of m' (r_root (sm d)) = adb_of m (r_root (sm d))"
    using root_ok_agree by blast+
  then show ?thesis using assms(1,2,4) unfolding tiers_ok_def by metis
qed

text \<open>There is room for the entry, also without a lower bound, and its size does not wrap.\<close>

definition has_room :: "mem \<Rightarrow> uintptr \<Rightarrow> size_t \<Rightarrow> bool" where
  "has_room m r sz \<longleftrightarrow> unat sz + a_align (adb_of m r) \<le> 4294967296 \<and>
     (a_low (adb_of m r) = None \<longrightarrow> int (a_used (adb_of m r) (unat sz)) \<le> int (unat r) + a_last (adb_of m r))"

text \<open>The possible results of adding to one root.\<close>

lemma add_cases:
  assumes "root_ok m lim r" "has_room m r sz" "r_root d = r"
  obtains (refused) "a_add i (unat sz) (adb_of m r) = None" "imdr_entry_add d i sz m = (0, m)"
  | (added) a m' offs where "a_add i (unat sz) (adb_of m r) = Some a"
      "imdr_entry_add d i sz m = (r_entry r (word_of_nat (num_of m r)), m')" "r_entry r (word_of_nat (num_of m r)) \<noteq> 0"
      "adb_of m' r = a" "root_ok m' lim r" "\<And>l h. h \<le> unat r \<or> unat lim \<le> l \<Longrightarrow> agree m' m l h"
      "a = (adb_of m r)\<lparr>a_ents := a_ents (adb_of m r) @ [(offs, unat sz, i)]\<rparr>"
proof (cases "a_add i (unat sz) (adb_of m r)")
  case None
  then show ?thesis
    using add_refines [OF assms(1) _ _ assms(3), of sz i] assms(2) refused by (simp add: has_room_def)
next
  case (Some a)
  then obtain offs where o: "imdr_entry_add d i sz m = (r_entry r (word_of_nat (num_of m r)), put_entry m r (num_of m r) offs sz i)"
      "adb_of (put_entry m r (num_of m r) offs sz i) r = a" "root_ok (put_entry m r (num_of m r) offs sz i) lim r"
    using add_refines [OF assms(1) _ _ assms(3), of sz i] assms(2) by (auto simp: has_room_def)
  have a: "num_of m r \<noteq> a_max (adb_of m r)" "\<exists>offs. a = (adb_of m r)\<lparr>a_ents := a_ents (adb_of m r) @ [(offs, unat sz, i)]\<rparr>"
    using Some by (auto simp: a_add_def Let_def adb_ents split: if_splits)
  have "num_of m r < a_max (adb_of m r)"
    using a(1) assms(1) by (auto simp: root_ok_def root_at_def adb_of_def)
  then have "\<And>l h. h \<le> unat r \<or> unat lim \<le> l \<Longrightarrow> agree (put_entry m r (num_of m r) offs sz i) m l h"
    using put_entry_agree [OF assms(1)] by blast
  moreover have "unat (r_entry r (word_of_nat (num_of m r))) \<noteq> 0" using root_entry_addr [OF assms(1) order_refl] by simp
  then have "r_entry r (word_of_nat (num_of m r)) \<noteq> 0" by (metis unat_0)
  ultimately show ?thesis using added Some o a(2) by metis
qed

lemma tiers_add:
  assumes "tiers_ok d m" "has_room m (r_root (lg d)) sz" "unat sz + a_align (adb_of m (r_root (sm d))) \<le> 4294967296"
  shows "tiers_ok d (snd (imd_entry_add d i sz m))"
proof -
  let ?l = "r_root (lg d)" and ?s = "r_root (sm d)"
  have ok: "root_ok m (limit (lg d)) ?l" "root_ok m (limit (sm d)) ?s" using assms(1) by (simp_all add: tiers_ok_def)
  have large: "tiers_ok d (snd (imdr_entry_add (lg d) i sz m))"
    using ok(1) assms(2) refl
  proof (cases rule: add_cases [where i = i])
    case (added a m' offs)
    have "a_ents (adb_of m ?l) \<noteq> []" using ok(1) by (simp add: root_ok_def ents_ok_def)
    then have "tiers_ok d m'"
      using added(6) a_find_snoc [of "adb_of m ?l" SMALL_REGION_ID "(offs, unat sz, i)"] a_find_bound
      by (intro tiers_large [OF assms(1) added(5)]) (auto simp: added(4,7) nth_append)
    then show ?thesis using added(2) by simp
  qed (use assms(1) in simp)
  have room: "has_room m ?s sz" using assms(1,3) by (auto simp: has_room_def tiers_ok_def)
  have small: "tiers_ok d (snd (imdr_entry_add (sm d) i sz m)) \<and>
      (fst (imdr_entry_add (sm d) i sz m) = 0 \<longrightarrow> snd (imdr_entry_add (sm d) i sz m) = m)"
    using ok(2) room refl
  proof (cases rule: add_cases [where i = i])
    case (added a m' offs)
    have "a_low (adb_of m' ?s) = a_low (adb_of m ?s)" using added(4,7) by simp
    then have "tiers_ok d m'" using added(6) by (intro tiers_small [OF assms(1) added(5)]) auto
    then show ?thesis using added(2,3) by simp
  qed (use assms(1) in simp)
  show ?thesis
    using large small by (auto simp: imd_entry_add_def Let_def split: prod.splits)
qed

lemma tiers_remove:
  assumes "tiers_ok d m" "e \<noteq> r_entry (r_root (lg d)) 0" "e \<noteq> r_entry (r_root (sm d)) 0"
    "e \<noteq> imdr_entry_find (lg d) SMALL_REGION_ID m"
  shows "tiers_ok d (snd (imd_entry_remove d e m))"
proof -
  let ?l = "r_root (lg d)" and ?s = "r_root (sm d)"
  have ok: "root_ok m (limit (lg d)) ?l" "root_ok m (limit (sm d)) ?s" using assms(1) by (simp_all add: tiers_ok_def)
  have two: "2 \<le> num_of m r" if "root_ok m lim r" "e = root_last_entry m r" "e \<noteq> r_entry r 0" for lim r
    using root_num_pos [OF that(1)] root_last_entry_eq [OF that(1)] that(2,3)
    by (cases "num_of m r = 1") (auto simp: r_entry_def)
  have large: "tiers_ok d (setf m ?l 1 (fld m ?l 1 - 1))" if e: "e = root_last_entry m ?l"
  proof -
    note rem = remove_last_ok [OF ok(1) two [OF ok(1) e assms(2)]]
    show ?thesis
    proof (rule tiers_large [OF assms(1) rem(1)])
      fix k assume k: "a_find SMALL_REGION_ID (adb_of m ?l) = Some k"
      then have "r_entry ?l (word_of_nat k) \<noteq> r_entry ?l (word_of_nat (num_of m ?l - 1))"
        using find_view [OF ok(1) refl] assms(4) e root_last_entry_eq [OF ok(1)] by auto
      then have "k \<noteq> num_of m ?l - 1" by auto
      then have "k < length (a_ents (adb_of m ?l)) - 1" using a_find_bound [OF k] unfolding adb_ents by linarith
      with k show "a_find SMALL_REGION_ID (adb_of (setf m ?l 1 (fld m ?l 1 - 1)) ?l) = Some k \<and>
          a_ents (adb_of (setf m ?l 1 (fld m ?l 1 - 1)) ?l) ! k = a_ents (adb_of m ?l) ! k"
        unfolding rem(2) by (simp add: a_find_butlast nth_butlast)
    qed (use rem(3) in blast)
  qed
  have small: "tiers_ok d (setf m ?s 1 (fld m ?s 1 - 1))" if e: "e = root_last_entry m ?s"
  proof -
    note rem = remove_last_ok [OF ok(2) two [OF ok(2) e assms(3)]]
    show ?thesis
      using assms(1) rem(3) by (intro tiers_small [OF assms(1) rem(1)]) (simp_all only: rem(2), simp, blast)
  qed
  show ?thesis
    using assms(1) large small
    by (auto simp: imd_entry_remove_def imd_entry_to_imdr_def imdr_root_def Let_def rd32_fields wr32_fields
        split: option.splits if_splits)
qed

lemma tiers_lockdown:
  assumes "tiers_ok d m"
  shows "tiers_ok d (snd (imd_lockdown d m))" "fst (imd_lockdown d m) = 0"
    "a_locked (adb_of (snd (imd_lockdown d m)) (r_root (lg d)))" "a_locked (adb_of (snd (imd_lockdown d m)) (r_root (sm d)))"
proof -
  let ?l = "r_root (lg d)" and ?s = "r_root (sm d)"
  have ok: "root_ok m (limit (lg d)) ?l" "root_ok m (limit (sm d)) ?s" using assms(1) by (simp_all add: tiers_ok_def)
  have r0: "?l \<noteq> 0" "?s \<noteq> 0" using ok by (auto simp: root_ok_def root_at_def)
  define m1 where "m1 = setf m ?l 2 (fld m ?l 2 OR IMD_FLAG_LOCKED)"
  define m2 where "m2 = setf m1 ?s 2 (fld m1 ?s 2 OR IMD_FLAG_LOCKED)"
  note lk = lock_ok [OF ok(1), folded m1_def]
  have t1: "tiers_ok d m1"
    using lk(3) by (intro tiers_large [OF assms lk(1)]) (auto simp: lk(2) a_find_def)
  then have ok1: "root_ok m1 (limit (sm d)) ?s" "root_ok m1 (limit (lg d)) ?l" "unat (limit (sm d)) \<le> unat ?l"
    by (simp_all add: tiers_ok_def)
  note lk2 = lock_ok [OF ok1(1), folded m2_def]
  have t2: "tiers_ok d m2"
    using t1 lk2(3) by (intro tiers_small [OF t1 lk2(1)]) (auto simp: lk2(2))
  have res: "imd_lockdown d m = (0, m2)"
    using r0 by (simp add: imd_lockdown_def imdr_root_def Let_def rd32_fields wr32_fields m1_def m2_def)
  have "adb_of m2 ?l = adb_of m1 ?l"
    using lk2(3) ok1(3) by (intro root_ok_agree(1) [OF ok1(2)]) blast
  then show "tiers_ok d (snd (imd_lockdown d m))" "fst (imd_lockdown d m) = 0"
    "a_locked (adb_of (snd (imd_lockdown d m)) ?l)" "a_locked (adb_of (snd (imd_lockdown d m)) ?s)"
    using res t2 lk(2) lk2(2) by simp_all
qed

lemma limit_ok:
  assumes ok: "root_ok m lim r" and v: "sint v < 0" "sint v \<le> a_last (adb_of m r)" "0 \<le> int (unat r) + sint v"
  defines "m' \<equiv> setf m r 4 v"
  shows "root_ok m' lim r" "adb_of m' r = (adb_of m r)\<lparr>a_low := Some (sint v)\<rparr>"
    "h \<le> unat r \<or> unat lim \<le> l \<Longrightarrow> agree m' m l h"
proof -
  obtain p where p: "root_at p m lim r" using ok by (auto simp: root_ok_def)
  have b: "9 \<le> p" "p \<le> 1022" "num_of m r \<le> (p - 5) div 4" "unat r + 4 * (p + 2) = unat lim" using p by (auto simp: root_at_def)
  have f: "fld m' r j = (if j = 4 then v else fld m r j)" if "j < 1073741824" for j
    using that by (simp add: m'_def)
  have num: "num_of m' r = num_of m r" by (simp add: num_of_def f)
  have "ent_of m' r k = ent_of m r k" if "k < num_of m r" for k
    using that b by (simp add: ent_of_def f)
  moreover have "v \<noteq> 0" using v(1) by auto
  ultimately show view: "adb_of m' r = (adb_of m r)\<lparr>a_low := Some (sint v)\<rparr>"
    using b by (simp add: adb_of_def f num)
  have "root_at p m' lim r"
    by (rule root_at_fields [OF p]) (use b num in \<open>simp_all add: f\<close>)
  moreover have "low_ok (unat r) (adb_of m' r)" using v unfolding view low_ok_def by (simp add: a_last_def)
  moreover have "a_ents (adb_of m' r) = a_ents (adb_of m r)" unfolding view by simp
  ultimately show "root_ok m' lim r" using ok unfolding root_ok_def by metis
  show "agree m' m l h" if "h \<le> unat r \<or> unat lim \<le> l"
    unfolding m'_def using that b by (intro setf_agree [of r 4 "unat lim"]) auto
qed

text \<open>CBMEM creates the database with roots of 4096 and 1024 bytes and these alignments.\<close>

lemma create_large_tier:
  assumes "8192 \<le> unat L" "4096 dvd unat L"
  defines "r \<equiv> L - 4096"
  obtains m1 m2 where "imdr_create_empty \<lparr>limit = L, r_root = 0\<rparr> 4096 4096 m = (0, \<lparr>limit = L, r_root = r\<rparr>, m1)"
    "imdr_entry_add \<lparr>limit = L, r_root = r\<rparr> SMALL_REGION_ID 4096 m1 = (r_entry r 1, m2)" "r_entry r 1 \<noteq> 0"
    "root_ok m2 L r" "a_ents (adb_of m2 r) = [(0, 4096, CBMEM_ID_IMD_ROOT), (- 4096, 4096, SMALL_REGION_ID)]"
    "imdr_entry_at \<lparr>limit = L, r_root = r\<rparr> (r_entry r 1) m2 = r - 4096"
proof -
  have r: "unat r = unat L - 4096" unfolding r_def using assms(1) by (subst unat_minus_no_wrap) (simp_all add: word_le_nat_alt)
  define m1 where "m1 = new_root m r 1022 (2 ^ 12)"
  have "L \<noteq> 0" using assms(1) by auto
  then have lg: "imdr_create_empty \<lparr>limit = L, r_root = 0\<rparr> 4096 4096 m = (0, \<lparr>limit = L, r_root = r\<rparr>, m1)"
    using create_empty_fields [of "\<lparr>limit = L, r_root = 0\<rparr>" L 1022 4096 m] by (simp add: r_def m1_def)
  have ok1: "root_ok m1 L r" "adb_of m1 r = \<lparr>a_max = 254, a_align = 4096, a_low = None, a_locked = False,
      a_ents = [(0, 4096, CBMEM_ID_IMD_ROOT)]\<rparr>"
    using new_root_ok [of 1022 r L 12 m, folded m1_def] assms(1,2) r by simp_all
  have "4096 \<le> int (unat r)" using r assms(1) by linarith
  then have room: "has_room m1 r 4096" unfolding has_room_def ok1(2) a_used_def a_last_def by simp
  have num: "num_of m1 r = 1" using ok1(2) adb_ents(1) [of m1 r] by simp
  have root: "r_root \<lparr>limit = L, r_root = r\<rparr> = r" by simp
  obtain m2 where m2: "imdr_entry_add \<lparr>limit = L, r_root = r\<rparr> SMALL_REGION_ID 4096 m1 = (r_entry r 1, m2)"
    "r_entry r 1 \<noteq> 0" "root_ok m2 L r" "a_ents (adb_of m2 r) = [(0, 4096, CBMEM_ID_IMD_ROOT), (- 4096, 4096, SMALL_REGION_ID)]"
  proof (cases rule: add_cases [OF ok1(1) room root, where i = SMALL_REGION_ID, case_names refused added])
    case (added a m' offs)
    then show thesis using that by (auto simp: ok1(2) num a_add_def a_used_def a_last_def)
  qed (simp add: ok1(2) a_add_def a_used_def a_last_def)
  have "ent_of m2 r 1 = (- 4096, 4096, SMALL_REGION_ID)"
    using adb_ents(1) [of m2 r] adb_ents(2) [of 1 m2 r] m2(4) by simp
  then have "sint (fld m2 r 10) = - 4096" by (simp add: ent_of_def)
  then have "fld m2 r 10 = - 4096" by (metis of_int_sint of_int_minus of_int_numeral scast_id)
  then have "imdr_entry_at \<lparr>limit = L, r_root = r\<rparr> (r_entry r 1) m2 = r - 4096"
    using rd32_fields(7) [of m2 r 1] by (simp add: imdr_entry_at_def imdr_root_def relative_pointer_def)
  with lg m2 show ?thesis by (rule that)
qed

lemma create_small_tier:
  assumes "4096 \<le> unat r" "4096 dvd unat r"
  defines "s \<equiv> r - 1024"
  obtains m1 m2 where "imdr_create_empty \<lparr>limit = r, r_root = 0\<rparr> 1024 32 m = (0, \<lparr>limit = r, r_root = s\<rparr>, m1)"
    "imdr_limit_size \<lparr>limit = r, r_root = s\<rparr> 4096 m1 = (0, m2)"
    "root_ok m2 r s" "a_low (adb_of m2 s) = Some (- 3072)" "agree m2 m (unat r) h" "unat r = unat s + 1024"
proof -
  have s: "unat s = unat r - 1024" unfolding s_def using assms(1) by (subst unat_minus_no_wrap) (simp_all add: word_le_nat_alt)
  define m1 where "m1 = new_root m s 254 (2 ^ 5)"
  define m2 where "m2 = setf m1 s 4 (- 3072)"
  have sz: "unat s + 4 * (254 + 2) = unat r" "0 < unat s" "3072 \<le> unat s" "r \<noteq> 0" "s \<noteq> 0" "r - s = 1024"
    using s assms(1) by (auto simp: s_def)
  have sm: "imdr_create_empty \<lparr>limit = r, r_root = 0\<rparr> 1024 32 m = (0, \<lparr>limit = r, r_root = s\<rparr>, m1)"
    using create_empty_fields [of "\<lparr>limit = r, r_root = 0\<rparr>" r 254 32 m] sz(4) by (simp add: s_def m1_def)
  have ok1: "root_ok m1 r s" "a_last (adb_of m1 s) = 0"
    using new_root_ok [of 254 s r 5 m, folded m1_def] sz assms(2) by (simp_all add: a_last_def)
  have v: "sint (- 3072 :: u32) = - 3072" by simp
  have "3072 \<le> int (unat s)" using sz(3) by linarith
  then have "0 \<le> int (unat s) + - 3072" by linarith
  with limit_ok [OF ok1(1), of "- 3072", folded m2_def, unfolded v ok1(2)]
  have ok2: "root_ok m2 r s" "a_low (adb_of m2 s) = Some (- 3072)" "agree m2 m1 (unat r) h" by simp_all
  have lim: "imdr_limit_size \<lparr>limit = r, r_root = s\<rparr> 4096 m1 = (0, m2)"
    using sz by (simp add: imdr_limit_size_def imdr_root_def wr32_fields m2_def)
  have "agree m1 m (unat r) h"
    unfolding m1_def using sz(1) by (intro new_root_agree [of 254 s r]) auto
  with ok2 have "agree m2 m (unat r) h" by (blast intro: agree_trans)
  with sm lim ok2(1,2) sz(1) show ?thesis by (intro that) simp_all
qed

lemma tiers_create:
  assumes "8192 \<le> unat up"
  shows "\<exists>d m'. imd_create_tiered_empty (imd_handle_init up) 4096 4096 1024 32 m = (0, d, m') \<and>
    tiers_ok d m' \<and> limit (lg d) = ALIGN_DOWN up 4096"
proof -
  define L where "L = ALIGN_DOWN up 4096"
  have uL: "unat L = unat up - unat up mod 4096" using unat_ALIGN_DOWN [of up 12] by (simp add: L_def)
  have "8192 div 4096 \<le> unat up div 4096" using assms by (rule div_le_mono)
  then have L: "8192 \<le> unat L" "4096 dvd unat L" unfolding uL minus_mod_eq_div_mult by simp_all
  define r where "r = L - 4096"
  define s where "s = r - 1024"
  obtain m1 m2 where lg: "imdr_create_empty \<lparr>limit = L, r_root = 0\<rparr> 4096 4096 m = (0, \<lparr>limit = L, r_root = r\<rparr>, m1)"
    "imdr_entry_add \<lparr>limit = L, r_root = r\<rparr> SMALL_REGION_ID 4096 m1 = (r_entry r 1, m2)" "r_entry r 1 \<noteq> 0"
    "root_ok m2 L r" "a_ents (adb_of m2 r) = [(0, 4096, CBMEM_ID_IMD_ROOT), (- 4096, 4096, SMALL_REGION_ID)]"
    "imdr_entry_at \<lparr>limit = L, r_root = r\<rparr> (r_entry r 1) m2 = r - 4096"
    unfolding r_def by (rule create_large_tier [OF L])
  have r: "unat r = unat L - 4096" unfolding r_def using L(1) by (subst unat_minus_no_wrap) (simp_all add: word_le_nat_alt)
  have "4096 \<le> unat r" "4096 dvd unat r" using r L by simp_all
  then obtain m3 m4 where sm: "imdr_create_empty \<lparr>limit = r, r_root = 0\<rparr> 1024 32 m2 = (0, \<lparr>limit = r, r_root = s\<rparr>, m3)"
    "imdr_limit_size \<lparr>limit = r, r_root = s\<rparr> 4096 m3 = (0, m4)" "root_ok m4 r s"
    "a_low (adb_of m4 s) = Some (- 3072)" "agree m4 m2 (unat r) (unat L)" "unat r = unat s + 1024"
    unfolding s_def by (rule create_small_tier)
  have lg4: "root_ok m4 L r" "adb_of m4 r = adb_of m2 r" using root_ok_agree [OF lg(4) sm(5)] by simp_all
  have "int (unat r) = 1024 + int (unat s)" using arg_cong [OF sm(6), of int] by simp
  then have "tiers_ok \<lparr>lg = \<lparr>limit = L, r_root = r\<rparr>, sm = \<lparr>limit = r, r_root = s\<rparr>\<rparr> m4"
    unfolding tiers_ok_def using lg4 sm(3,4) lg(5) by (simp add: a_find_def numeral_2_eq_2)
  moreover have "imd_create_tiered_empty (imd_handle_init up) 4096 4096 1024 32 m =
      (0, \<lparr>lg = \<lparr>limit = L, r_root = r\<rparr>, sm = \<lparr>limit = r, r_root = s\<rparr>\<rparr>, m4)"
  proof -
    have "imdr_init 0 = \<lparr>limit = 0, r_root = 0\<rparr>" "imdr_init up = \<lparr>limit = L, r_root = 0\<rparr>"
      by (simp_all add: imdr_init_def ALIGN_DOWN_def L_def LIMIT_ALIGN_def)
    moreover have "ALIGN_UP (root_num_entries 1024 * 32 + 1024) 4096 = (4096 :: u32)" by code_simp
    ultimately show ?thesis
      using lg sm(1,2) by (simp add: imd_create_tiered_empty_def imd_handle_init_def)
  qed
  ultimately show ?thesis by (auto simp: L_def)
qed

lemma tiers_recover:
  assumes "tiers_ok d m"
  shows "imd_recover (imd_handle_init (limit (lg d))) m = (0, d)"
proof -
  let ?l = "r_root (lg d)"
  have ok: "root_ok m (limit (lg d)) ?l" "root_ok m (limit (sm d)) (r_root (sm d))"
    using assms by (simp_all add: tiers_ok_def)
  obtain k where k: "a_find SMALL_REGION_ID (adb_of m ?l) = Some k"
    "?l + word_of_int (fst (a_ents (adb_of m ?l) ! k)) + word_of_nat (fst (snd (a_ents (adb_of m ?l) ! k))) = limit (sm d)"
    using assms by (auto simp: tiers_ok_def)
  have kn: "k < num_of m ?l" using a_find_bound [OF k(1)] by (simp add: adb_ents)
  have "4096 dvd unat (limit (lg d))" using ok(1) by (auto simp: root_ok_def root_at_def)
  then have "unat (ALIGN_DOWN (limit (lg d)) 4096) = unat (limit (lg d))"
    using unat_ALIGN_DOWN [of "limit (lg d)" 12] by simp
  then have init: "imd_handle_init (limit (lg d)) = \<lparr>lg = \<lparr>limit = limit (lg d), r_root = 0\<rparr>, sm = imdr_init 0\<rparr>"
    by (simp add: imd_handle_init_def imdr_init_def LIMIT_ALIGN_def word_unat_eq_iff)
  have find: "imdr_entry_find (lg d) SMALL_REGION_ID m = r_entry ?l (word_of_nat k)"
    using find_view [OF ok(1) refl] k(1) by simp
  have "unat (r_entry ?l (word_of_nat k)) \<noteq> 0" using root_entry_addr [OF ok(1)] kn by simp
  then have nz: "r_entry ?l (word_of_nat k) \<noteq> 0" by (metis unat_0)
  have at: "imdr_entry_at (lg d) (r_entry ?l (word_of_nat k)) m + imdr_entry_size (r_entry ?l (word_of_nat k)) m = limit (sm d)"
    using k(2) kn by (simp add: imdr_entry_at_def imdr_entry_size_def imdr_root_def relative_pointer_def rd32_fields
        adb_ents ent_of_def)
  have lg: "imdr_recover \<lparr>limit = limit (lg d), r_root = 0\<rparr> m = (0, lg d)"
    using recover_ok [OF ok(1), of 0] by simp
  have sm: "imdr_recover \<lparr>limit = limit (sm d), r_root = x\<rparr> m = (0, sm d)" for x
    using recover_ok [OF ok(2), of x] by simp
  have "(imdr_init 0)\<lparr>limit := limit (sm d)\<rparr> = \<lparr>limit = limit (sm d), r_root = 0\<rparr>" by (simp add: imdr_init_def)
  then show ?thesis
    unfolding imd_recover_def init using lg find nz at sm [of 0] by simp
qed

section \<open>Properties\<close>

text \<open>
  The histories of the database of CBMEM, with the sizes that \<open>cbmem_initialize_empty\<close> gives it.
  An addition must have room: the size does not wrap when it is rounded up to the alignment, and
  the entry starts at or above address 0, which the code checks for the small root only (see
  \<open>imd_add_below_zero\<close>). A removal may concern any entry but those of the roots themselves and
  the one of the small region, which the code would remove (see \<open>imd_remove_small_region\<close>). Between
  the operations the rest of the program writes anywhere but into the two roots.
\<close>

inductive imd_reach :: "imd \<Rightarrow> mem \<Rightarrow> bool" where
  create: "8192 \<le> unat up \<Longrightarrow>
    imd_create_tiered_empty (imd_handle_init up) 4096 4096 1024 32 m0 = (rc, d, m) \<Longrightarrow> imd_reach d m"
| add: "imd_reach d m \<Longrightarrow> has_room m (r_root (lg d)) sz \<Longrightarrow>
    unat sz + a_align (adb_of m (r_root (sm d))) \<le> 4294967296 \<Longrightarrow> imd_reach d (snd (imd_entry_add d i sz m))"
| remove: "imd_reach d m \<Longrightarrow> e \<noteq> r_entry (r_root (lg d)) 0 \<Longrightarrow> e \<noteq> r_entry (r_root (sm d)) 0 \<Longrightarrow>
    e \<noteq> imdr_entry_find (lg d) SMALL_REGION_ID m \<Longrightarrow> imd_reach d (snd (imd_entry_remove d e m))"
| lockdown: "imd_reach d m \<Longrightarrow> imd_reach d (snd (imd_lockdown d m))"
| elsewhere: "imd_reach d m \<Longrightarrow> agree m' m (unat (r_root (lg d))) (unat (limit (lg d))) \<Longrightarrow>
    agree m' m (unat (r_root (sm d))) (unat (limit (sm d))) \<Longrightarrow> imd_reach d m'"

lemma imd_reach_tiers: "imd_reach d m \<Longrightarrow> tiers_ok d m"
proof (induction rule: imd_reach.induct)
  case (create up m0 rc d m)
  then show ?case using tiers_create [of up m0] by auto
next
  case (elsewhere d m m')
  from elsewhere.IH have ok: "root_ok m (limit (lg d)) (r_root (lg d))" "root_ok m (limit (sm d)) (r_root (sm d))"
    by (simp_all add: tiers_ok_def)
  from root_ok_agree [OF ok(1) elsewhere.hyps(2)] root_ok_agree [OF ok(2) elsewhere.hyps(3)] elsewhere.IH
  show ?case by (simp add: tiers_ok_def)
qed (simp_all add: tiers_add tiers_remove tiers_lockdown)

text \<open>
  C4. A database is created with the sizes of CBMEM below a limit of at least 8192. After any
  history of additions that have room, of removals of added entries, of lockdowns
  and of writes outside the two roots, the next stage, starting from the upper limit alone,
  recovers the same database from memory. Excluded are additions whose size wraps when it is
  rounded up or that reach below address 0, and the removal of the entry of the small region.
\<close>

theorem imd_recover_reachable:
  "imd_reach d m \<Longrightarrow> imd_recover (imd_handle_init (limit (lg d))) m = (0, d)"
  by (rule tiers_recover [OF imd_reach_tiers])

theorem imd_recover_reachable_witness:
  "\<exists>d m. imd_create_tiered_empty (imd_handle_init 0x10000) 4096 4096 1024 32 (\<lambda>_. 0) = (0, d, m) \<and>
     imd_recover (imd_handle_init (limit (lg d))) m = (0, d)"
proof -
  obtain d m where c: "imd_create_tiered_empty (imd_handle_init 0x10000) 4096 4096 1024 32 (\<lambda>_. 0) = (0, d, m)"
    using tiers_create [of "0x10000" "\<lambda>_. 0"] by auto
  have "imd_reach d m" by (rule imd_reach.create [OF _ c]) simp
  then show ?thesis using imd_recover_reachable c by blast
qed

text \<open>The regions that the entries of a root describe, as pairs of an address and a size.\<close>

definition region_of :: "imdr \<Rightarrow> mem \<Rightarrow> nat \<Rightarrow> nat \<times> nat" where
  "region_of d m k = (let e = r_entry (imdr_root d) (word_of_nat k) in (unat (imdr_entry_at d e m), unat (imdr_entry_size e m)))"

definition regions :: "imdr \<Rightarrow> mem \<Rightarrow> (nat \<times> nat) list" where
  "regions d m = map (region_of d m) [0..<unat (rd32 m (r_num_entries (imdr_root d)))]"

lemma regions_view:
  assumes "root_ok m lim (r_root d)"
  shows "length (regions d m) = num_of m (r_root d)"
    and "k < num_of m (r_root d) \<Longrightarrow>
      int (fst (regions d m ! k)) = int (unat (r_root d)) + fst (a_ents (adb_of m (r_root d)) ! k) \<and>
      snd (regions d m ! k) = fst (snd (a_ents (adb_of m (r_root d)) ! k))"
proof -
  show "length (regions d m) = num_of m (r_root d)" by (simp add: regions_def rd32_fields imdr_root_def num_of_def)
  assume k: "k < num_of m (r_root d)"
  let ?w = "fld m (r_root d) (6 + 4 * k)"
  have es: "ents_ok (unat (r_root d)) (a_ents (adb_of m (r_root d)))" "k < length (a_ents (adb_of m (r_root d)))"
    using assms k by (simp_all add: root_ok_def adb_ents)
  have "a_ents (adb_of m (r_root d)) ! k = ent_of m (r_root d) k" using k by (rule adb_ents)
  note off = ents_ok_offset(2,3) [OF es, unfolded this ent_of_def fst_conv]
  have "int (unat (r_root d + ?w)) = int (unat (r_root d)) + sint ?w" by (rule start_addr_eq [OF off])
  moreover have "regions d m ! k = (unat (r_root d + ?w), unat (fld m (r_root d) (7 + 4 * k)))"
    using k unfolding num_of_def
    by (simp add: regions_def region_of_def imdr_entry_at_def imdr_entry_size_def imdr_root_def rd32_fields
        relative_pointer_def Let_def)
  ultimately show "int (fst (regions d m ! k)) = int (unat (r_root d)) + fst (a_ents (adb_of m (r_root d)) ! k) \<and>
      snd (regions d m ! k) = fst (snd (a_ents (adb_of m (r_root d)) ! k))"
    using k by (simp add: adb_ents ent_of_def)
qed

lemma regions_descend:
  assumes "root_ok m lim (r_root d)" "i < j" "j < length (regions d m)"
  shows "fst (regions d m ! j) + snd (regions d m ! j) \<le> fst (regions d m ! i)"
proof -
  have n: "i < num_of m (r_root d)" "j < num_of m (r_root d)" using assms regions_view(1) [OF assms(1)] by auto
  have es: "ents_ok (unat (r_root d)) (a_ents (adb_of m (r_root d)))" using assms(1) by (simp add: root_ok_def)
  have "fst (a_ents (adb_of m (r_root d)) ! j) + int (fst (snd (a_ents (adb_of m (r_root d)) ! j))) \<le>
      fst (a_ents (adb_of m (r_root d)) ! i)"
    using ents_ok_below [OF es assms(2)] n(2) by (simp add: adb_ents)
  with regions_view(2) [OF assms(1) n(1)] regions_view(2) [OF assms(1) n(2)] show ?thesis by linarith
qed

lemma regions_below_limit:
  assumes "root_ok m lim (r_root d)" "j < length (regions d m)"
  shows "fst (regions d m ! j) + snd (regions d m ! j) \<le> unat lim"
    and "int (unat (r_root d)) + a_last (adb_of m (r_root d)) \<le> int (fst (regions d m ! j))"
proof -
  let ?r = "r_root d" and ?es = "a_ents (adb_of m (r_root d))"
  obtain p where p: "unat ?r + 4 * (p + 2) = unat lim" "unat (fld m ?r 7) = 4 * (p + 2)"
    using assms(1) by (auto simp: root_ok_def root_at_def)
  have n: "j < num_of m ?r" using assms regions_view(1) [OF assms(1)] by simp
  have es: "ents_ok (unat ?r) ?es" "j < length ?es" using assms(1) n by (simp_all add: root_ok_def adb_ents)
  note v = regions_view(2) [OF assms(1) n] and o = ents_ok_offset [OF es]
  show "int (unat ?r) + a_last (adb_of m ?r) \<le> int (fst (regions d m ! j))" using v o(1) by (simp add: a_last_def)
  show "fst (regions d m ! j) + snd (regions d m ! j) \<le> unat lim"
  proof (cases "j = 0")
    case True
    then have "fst (?es ! 0) = 0" "fst (snd (?es ! 0)) = 4 * (p + 2)"
      using es n p(2) by (simp_all add: ents_ok_def adb_ents ent_of_def)
    then have "int (fst (regions d m ! j)) = int (unat ?r)" "snd (regions d m ! j) = 4 * (p + 2)" using v True by simp_all
    then have "fst (regions d m ! j) = unat ?r" by linarith
    then show ?thesis using p(1) \<open>snd (regions d m ! j) = 4 * (p + 2)\<close> by simp
  next
    case False
    then have "int (fst (regions d m ! j)) + int (snd (regions d m ! j)) \<le> int (unat ?r)" using v o(4) by linarith
    then have "fst (regions d m ! j) + snd (regions d m ! j) \<le> unat ?r" by linarith
    also have "\<dots> \<le> unat lim" using root_limit_above [OF assms(1)] by (rule less_imp_le)
    finally show ?thesis .
  qed
qed

lemma small_tier_inside:
  assumes "tiers_ok d m"
  obtains k b n where "0 < k" "k < length (regions (lg d) m)" "regions (lg d) m ! k = (b, n)"
    "imdr_entry_find (lg d) SMALL_REGION_ID m = r_entry (r_root (lg d)) (word_of_nat k)" "b + n = unat (limit (sm d))"
    "int b \<le> int (unat (r_root (sm d))) + a_last (adb_of m (r_root (sm d)))"
proof -
  let ?l = "r_root (lg d)" and ?s = "r_root (sm d)"
  have ok: "root_ok m (limit (lg d)) ?l" "root_ok m (limit (sm d)) ?s"
    using assms by (simp_all add: tiers_ok_def)
  obtain k where k: "a_find SMALL_REGION_ID (adb_of m ?l) = Some k"
    "?l + word_of_int (fst (a_ents (adb_of m ?l) ! k)) + word_of_nat (fst (snd (a_ents (adb_of m ?l) ! k))) = limit (sm d)"
    "int (unat ?l) + fst (a_ents (adb_of m ?l) ! k) \<le> int (unat ?s) + the (a_low (adb_of m ?s))"
    "a_low (adb_of m ?s) \<noteq> None"
    using assms by (auto simp: tiers_ok_def)
  have kn: "k < num_of m ?l" "1 \<le> k" using a_find_bound [OF k(1)] by (simp_all add: adb_ents)
  obtain b n where r: "regions (lg d) m ! k = (b, n)" by fastforce
  then have bn: "int b = int (unat ?l) + fst (a_ents (adb_of m ?l) ! k)" "n = fst (snd (a_ents (adb_of m ?l) ! k))"
    using regions_view(2) [OF ok(1) kn(1)] by simp_all
  have "b + n \<le> fst (regions (lg d) m ! 0)"
    using regions_descend [OF ok(1), of 0 k] kn regions_view(1) [OF ok(1)] r by simp
  moreover have "int (fst (regions (lg d) m ! 0)) = int (unat ?l)"
    using regions_view(2) [OF ok(1) root_num_pos [OF ok(1)]] ok(1) by (simp add: root_ok_def ents_ok_def)
  ultimately have lt: "b + n < 4294967296" using unat_lt_2p32 [of ?l] by linarith
  have "word_of_int (int b) = ?l + word_of_int (fst (a_ents (adb_of m ?l) ! k))" unfolding bn(1) by simp
  then have "word_of_nat (b + n) = limit (sm d)" using k(2) by (simp add: bn(2))
  then have "b + n = unat (limit (sm d))" using unat_of_nat_u32 [OF lt] by metis
  moreover have "the (a_low (adb_of m ?s)) \<le> a_last (adb_of m ?s)" using ok(2) k(4) by (auto simp: root_ok_def low_ok_def)
  then have "int b \<le> int (unat ?s) + a_last (adb_of m ?s)" using k(3) bn(1) by linarith
  moreover have "imdr_entry_find (lg d) SMALL_REGION_ID m = r_entry ?l (word_of_nat k)"
    using find_view [OF ok(1) refl] k(1) by simp
  ultimately show ?thesis using that [of k b n] kn regions_view(1) [OF ok(1)] r by simp
qed

text \<open>
  C6. In every database of a history the regions of the large root lie below each other without
  overlap, so do those of the small root, and the latter all lie inside one region of the large
  root: that of the entry which a lookup of \<open>SMALL_REGION_ID\<close> finds, and which is not the root's
  own; so they overlap no other region of the large root either.
\<close>

theorem imd_regions_separate:
  assumes "imd_reach d m"
  shows "(\<forall>j < length (regions (lg d) m). \<forall>i < j.
      fst (regions (lg d) m ! j) + snd (regions (lg d) m ! j) \<le> fst (regions (lg d) m ! i)) \<and>
    (\<forall>j < length (regions (sm d) m). \<forall>i < j.
      fst (regions (sm d) m ! j) + snd (regions (sm d) m ! j) \<le> fst (regions (sm d) m ! i)) \<and>
    (\<exists>k b n. 0 < k \<and> k < length (regions (lg d) m) \<and> regions (lg d) m ! k = (b, n) \<and>
      imdr_entry_find (lg d) SMALL_REGION_ID m = r_entry (r_root (lg d)) (word_of_nat k) \<and>
      (\<forall>(a, l) \<in> set (regions (sm d) m). b \<le> a \<and> a + l \<le> b + n \<and>
        (\<forall>j < length (regions (lg d) m). j \<noteq> k \<longrightarrow>
          a + l \<le> fst (regions (lg d) m ! j) \<or> fst (regions (lg d) m ! j) + snd (regions (lg d) m ! j) \<le> a)))"
proof -
  have tiers: "tiers_ok d m" by (rule imd_reach_tiers [OF assms])
  then have ok: "root_ok m (limit (lg d)) (r_root (lg d))" "root_ok m (limit (sm d)) (r_root (sm d))"
    by (simp_all add: tiers_ok_def)
  obtain k b n where k: "0 < k" "k < length (regions (lg d) m)" "regions (lg d) m ! k = (b, n)"
    "imdr_entry_find (lg d) SMALL_REGION_ID m = r_entry (r_root (lg d)) (word_of_nat k)"
    and bn: "b + n = unat (limit (sm d))"
    "int b \<le> int (unat (r_root (sm d))) + a_last (adb_of m (r_root (sm d)))"
    by (rule small_tier_inside [OF tiers])
  have inside: "b \<le> fst (regions (sm d) m ! j) \<and> fst (regions (sm d) m ! j) + snd (regions (sm d) m ! j) \<le> b + n"
    if "j < length (regions (sm d) m)" for j
    using regions_below_limit [OF ok(2) that] bn by linarith
  have away: "b + n \<le> fst (regions (lg d) m ! j) \<or> fst (regions (lg d) m ! j) + snd (regions (lg d) m ! j) \<le> b"
    if "j < length (regions (lg d) m)" "j \<noteq> k" for j
    using regions_descend [OF ok(1), of j k] regions_descend [OF ok(1), of k j] that k(2,3) by fastforce
  have "b \<le> a \<and> a + l \<le> b + n \<and> (\<forall>j < length (regions (lg d) m). j \<noteq> k \<longrightarrow>
      a + l \<le> fst (regions (lg d) m ! j) \<or> fst (regions (lg d) m ! j) + snd (regions (lg d) m ! j) \<le> a)"
    if "(a, l) \<in> set (regions (sm d) m)" for a l
  proof -
    have al: "b \<le> a \<and> a + l \<le> b + n" using that inside by (fastforce simp: in_set_conv_nth)
    then show ?thesis using away by fastforce
  qed
  then show ?thesis using k regions_descend [OF ok(1)] regions_descend [OF ok(2)] by blast
qed

theorem imd_regions_separate_witness:
  "\<exists>d m. imd_create_tiered_empty (imd_handle_init 0x10000) 4096 4096 1024 32 (\<lambda>_. 0) = (0, d, m) \<and>
     (\<exists>k b n. regions (lg d) m ! k = (b, n) \<and>
       imdr_entry_find (lg d) SMALL_REGION_ID m = r_entry (r_root (lg d)) (word_of_nat k) \<and>
       (\<forall>(a, l) \<in> set (regions (sm d) m). b \<le> a \<and> a + l \<le> b + n))"
proof -
  obtain d m where c: "imd_create_tiered_empty (imd_handle_init 0x10000) 4096 4096 1024 32 (\<lambda>_. 0) = (0, d, m)"
    using tiers_create [of "0x10000" "\<lambda>_. 0"] by auto
  have "imd_reach d m" by (rule imd_reach.create [OF _ c]) simp
  from imd_regions_separate [OF this] c show ?thesis by fast
qed

text \<open>
  What the code accepts outside the histories: an entry of the large root that reaches below
  address 0, after which the database is no longer recovered, and the removal of the entry of
  the small region, after which the handle that is recovered has no small root.
\<close>

lemma imd_small_demo:
  obtains d m where "imd_create_tiered_empty (imd_handle_init 0x10000) 4096 4096 1024 32 (\<lambda>_. 0) = (0, d, m)"
    "tiers_ok d m" "limit (lg d) = 0x10000" "r_root (lg d) = 0xf000" "r_root (sm d) \<noteq> 0"
    "\<not> 0x20000 \<le> fld m (r_root (sm d)) 3 \<and> \<not> 0x20000 \<le> imd_root_data_left m (r_root (sm d)) div 4"
    "fld m (r_root (lg d)) 0 = 254" "fld m (r_root (lg d)) 1 = 2" "fld m (r_root (lg d)) 2 = 0" "fld m (r_root (lg d)) 3 = 4096"
    "fld m (r_root (lg d)) 4 = 0" "fld m (r_root (lg d)) 10 = - 4096"
    "imdr_entry_find (lg d) SMALL_REGION_ID m = r_entry (r_root (lg d)) 1"
proof -
  obtain d m where c: "imd_create_tiered_empty (imd_handle_init 0x10000) 4096 4096 1024 32 (\<lambda>_. 0) = (0, d, m)"
    "tiers_ok d m"
    using tiers_create [of "0x10000" "\<lambda>_. 0"] by auto
  have "case imd_create_tiered_empty (imd_handle_init 0x10000) 4096 4096 1024 32 (\<lambda>_. 0) of
      (rc, d, m) \<Rightarrow> limit (lg d) = 0x10000 \<and> r_root (lg d) = 0xf000 \<and> r_root (sm d) \<noteq> 0 \<and>
        \<not> 0x20000 \<le> rd32 m (r_entry_align (r_root (sm d))) \<and> \<not> 0x20000 \<le> imd_root_data_left m (r_root (sm d)) div 4 \<and>
        rd32 m (r_max_entries (r_root (lg d))) = 254 \<and> rd32 m (r_num_entries (r_root (lg d))) = 2 \<and>
        rd32 m (r_flags (r_root (lg d))) = 0 \<and>
        rd32 m (r_entry_align (r_root (lg d))) = 4096 \<and> rd32 m (r_max_offset (r_root (lg d))) = 0 \<and>
        rd32 m (e_start_offset (r_entry (r_root (lg d)) 1)) = - 4096 \<and>
        imdr_entry_find (lg d) SMALL_REGION_ID m = r_entry (r_root (lg d)) 1"
    by code_simp
  then show thesis
    using that [OF c] rd32_fields(7) [of m "r_root (lg d)" 1] unfolding c(1) prod.case rd32_fields(1-5) by auto
qed

lemma recover_refuses:
  assumes "root_at p m lim r" "k < num_of m r" "\<And>low. \<not> recover_entry_ok m r low lim k"
  shows "fst (imdr_recover \<lparr>limit = lim, r_root = x\<rparr> m) = - 1"
proof -
  note lim = root_at_limit(2) [OF assms(1), where x = x]
  have "rd32 m (rp_root_offset (r + 4 * word_of_nat p)) = - (4 * word_of_nat p)"
    using assms(1) by (simp add: root_at_def rp_root_offset_def fld_def algebra_simps)
  then have "relative_pointer (r + 4 * word_of_nat p) (rd32 m (rp_root_offset (r + 4 * word_of_nat p))) = r"
    by (simp add: relative_pointer_def)
  moreover have "k \<in> set [0..<unat (fld m r 1)]" using assms(2) by (simp add: num_of_def)
  then have "\<not> list_all (recover_entry_ok m r low lim) [0..<unat (fld m r 1)]" for low
    unfolding list_all_iff using assms(3) by blast
  ultimately show ?thesis unfolding imdr_recover_def lim by (simp add: Let_def rd32_fields)
qed

lemma imd_add_below_zero:
  "\<exists>d m e m'. imd_create_tiered_empty (imd_handle_init 0x10000) 4096 4096 1024 32 (\<lambda>_. 0) = (0, d, m) \<and>
     imd_entry_add d 7 0x20000 m = (e, m') \<and> e \<noteq> 0 \<and> fst (imd_recover (imd_handle_init 0x10000) m') = - 1"
proof -
  obtain d m where h: "imd_create_tiered_empty (imd_handle_init 0x10000) 4096 4096 1024 32 (\<lambda>_. 0) = (0, d, m)"
    "tiers_ok d m" "limit (lg d) = 0x10000" "r_root (lg d) = 0xf000" "r_root (sm d) \<noteq> 0"
    "\<not> 0x20000 \<le> fld m (r_root (sm d)) 3 \<and> \<not> 0x20000 \<le> imd_root_data_left m (r_root (sm d)) div 4"
    and f: "fld m (r_root (lg d)) 0 = 254" "fld m (r_root (lg d)) 1 = 2" "fld m (r_root (lg d)) 2 = 0"
      "fld m (r_root (lg d)) 3 = 4096" "fld m (r_root (lg d)) 4 = 0" "fld m (r_root (lg d)) 10 = - 4096"
    by (rule imd_small_demo)
  have ok: "root_ok m 0x10000 0xf000" using h(2,3,4) by (auto simp: tiers_ok_def)
  have n: "num_of m 0xf000 = 2" using f(2) h(4) by (simp add: num_of_def)
  let ?m = "put_entry m 0xf000 2 (- 0x21000) 0x20000 7"
  have up: "ALIGN_UP (0x20000 :: u32) 4096 = 0x20000" by (simp add: ALIGN_UP_def ALIGN_MASK_def)
  have add: "imd_entry_add d 7 0x20000 m = (r_entry 0xf000 2, ?m)"
    using h(4-6) f add_to_root_fields [OF ok, of 7 "0x20000"] n up
    by (simp add: imd_entry_add_def imdr_entry_add_def imdr_root_def Let_def rd32_fields root_is_locked_def put_entry_def)
  obtain p where p: "root_at p m 0x10000 0xf000" using ok by (auto simp: root_ok_def)
  have at: "root_at p ?m 0x10000 0xf000"
    using root_at_put_entry [OF p n [symmetric]] p f(1) h(4) by (simp add: root_at_def)
  have "\<not> recover_entry_ok ?m 0xf000 low 0x10000 2" for low
    using rd32_fields(7) [of ?m "0xf000" 2]
    by (simp add: recover_entry_ok_def Let_def fld_put_entry relative_pointer_def)
  then have "fst (imdr_recover \<lparr>limit = 0x10000, r_root = 0\<rparr> ?m) = - 1"
    using recover_refuses [OF at, of 2] put_entry_view(1) [of 2 m "0xf000"] n by simp
  moreover have "lg (imd_handle_init 0x10000) = \<lparr>limit = 0x10000, r_root = 0\<rparr>"
    by (simp add: imd_handle_init_def imdr_init_def ALIGN_DOWN_def LIMIT_ALIGN_def)
  ultimately have "fst (imd_recover (imd_handle_init 0x10000) ?m) = - 1"
    by (auto simp: imd_recover_def split: prod.splits)
  moreover have "r_entry 0xf000 2 \<noteq> (0 :: u32)" by (simp add: r_entry_def)
  ultimately show ?thesis using h(1) add by blast
qed

lemma imd_remove_small_region:
  "\<exists>d m m' d'. imd_create_tiered_empty (imd_handle_init 0x10000) 4096 4096 1024 32 (\<lambda>_. 0) = (0, d, m) \<and>
     imd_entry_remove d (imdr_entry_find (lg d) SMALL_REGION_ID m) m = (0, m') \<and>
     imd_recover (imd_handle_init 0x10000) m' = (0, d') \<and> r_root (sm d') = 0 \<and> r_root (sm d) \<noteq> 0"
proof -
  obtain d m where h: "imd_create_tiered_empty (imd_handle_init 0x10000) 4096 4096 1024 32 (\<lambda>_. 0) = (0, d, m)"
    "tiers_ok d m" "limit (lg d) = 0x10000" "r_root (lg d) = 0xf000" "r_root (sm d) \<noteq> 0"
    and f: "fld m (r_root (lg d)) 1 = 2" "fld m (r_root (lg d)) 2 = 0"
    and e: "imdr_entry_find (lg d) SMALL_REGION_ID m = r_entry (r_root (lg d)) 1"
    by (rule imd_small_demo)
  have ok: "root_ok m 0x10000 0xf000" using h(2,3,4) by (auto simp: tiers_ok_def)
  have n: "num_of m 0xf000 = 2" using f(1) h(4) by (simp add: num_of_def)
  let ?m = "setf m 0xf000 1 (fld m 0xf000 1 - 1)"
  have "imdr_has_entry (lg d) (r_entry 0xf000 1) m"
    using h(4) f(1) by (simp add: imdr_has_entry_def imdr_root_def Let_def rd32_fields r_entry_def word_le_nat_alt)
  then have rem: "imd_entry_remove d (imdr_entry_find (lg d) SMALL_REGION_ID m) m = (0, ?m)"
    using h(4) f root_last_entry_eq [OF ok] n
    by (simp add: imd_entry_remove_def imd_entry_to_imdr_def imdr_root_def e Let_def rd32_fields wr32_fields root_is_locked_def)
  have ok': "root_ok ?m 0x10000 0xf000" by (rule remove_last_ok [OF ok]) (simp add: n)
  have "imdr_recover \<lparr>limit = 0x10000, r_root = 0\<rparr> ?m = (0, \<lparr>limit = 0x10000, r_root = 0xf000\<rparr>)"
    by (rule recover_ok [OF ok'])
  moreover have "imdr_entry_find \<lparr>limit = 0x10000, r_root = 0xf000\<rparr> SMALL_REGION_ID ?m = 0"
    using f(1) h(4) by (simp add: imdr_entry_find_def imdr_root_def rd32_fields Let_def)
  moreover have "lg (imd_handle_init 0x10000) = \<lparr>limit = 0x10000, r_root = 0\<rparr>" "r_root (sm (imd_handle_init 0x10000)) = 0"
    by (simp_all add: imd_handle_init_def imdr_init_def ALIGN_DOWN_def LIMIT_ALIGN_def)
  ultimately have "\<exists>d'. imd_recover (imd_handle_init 0x10000) ?m = (0, d') \<and> r_root (sm d') = 0"
    by (simp add: imd_recover_def)
  then show ?thesis using h(1,5) rem by blast
qed

lemma find_nonzero:
  assumes "root_ok m lim r" "r_root d = r"
  shows "imdr_entry_find d i m = 0 \<longleftrightarrow> a_find i (adb_of m r) = None"
proof (cases "a_find i (adb_of m r)")
  case (Some k)
  then have "k \<le> num_of m r" using a_find_bound [OF Some] by (simp add: adb_ents)
  then have "unat (r_entry r (word_of_nat k)) \<noteq> 0" using root_entry_addr [OF assms(1)] by simp
  then have "r_entry r (word_of_nat k) \<noteq> 0" by (metis unat_0)
  then show ?thesis using Some find_view [OF assms] by simp
qed (simp add: find_view [OF assms])

lemma added_find:
  assumes "root_ok m lim r" "root_ok m' lim r" "r_root d = r"
    "adb_of m' r = (adb_of m r)\<lparr>a_ents := a_ents (adb_of m r) @ [(offs, unat sz, i)]\<rparr>"
  shows "imdr_entry_find d j m' = (if imdr_entry_find d j m \<noteq> 0 then imdr_entry_find d j m
      else if j = i then r_entry r (word_of_nat (num_of m r)) else 0)"
    and "imdr_entry_size (r_entry r (word_of_nat (num_of m r))) m' = sz"
    and "rd32 m' (e_id (r_entry r (word_of_nat (num_of m r)))) = i"
proof -
  have ne: "a_ents (adb_of m r) \<noteq> []" using assms(1) by (simp add: root_ok_def ents_ok_def)
  show "imdr_entry_find d j m' = (if imdr_entry_find d j m \<noteq> 0 then imdr_entry_find d j m
      else if j = i then r_entry r (word_of_nat (num_of m r)) else 0)"
    unfolding find_nonzero [OF assms(1,3)] unfolding find_view [OF assms(1,3)] find_view [OF assms(2,3)] assms(4) a_find_snoc [OF ne]
    by (auto split: option.split simp: adb_ents)
  have "num_of m' r = Suc (num_of m r)" using assms(4) adb_ents(1) [of m' r] adb_ents(1) [of m r] by simp
  then have "ent_of m' r (num_of m r) = (offs, unat sz, i)"
    using assms(4) adb_ents(2) [of "num_of m r" m' r] adb_ents(1) [of m r] by (simp add: nth_append)
  then show "imdr_entry_size (r_entry r (word_of_nat (num_of m r))) m' = sz"
    "rd32 m' (e_id (r_entry r (word_of_nat (num_of m r)))) = i"
    by (simp_all add: imdr_entry_size_def rd32_fields ent_of_def word_unat_eq_iff)
qed

lemma find_agree:
  assumes "root_ok m lim (r_root f)" "agree m' m (unat (r_root f)) (unat lim)"
  shows "imdr_entry_find f j m' = imdr_entry_find f j m"
  using root_ok_agree [OF assms] find_view [OF assms(1) refl] find_view [OF root_ok_agree(2) [OF assms] refl] by simp

lemma add_fails:
  assumes "root_ok m lim (r_root f)" "has_room m (r_root f) sz" "imdr_entry_add f i sz m = (0, m')"
  shows "m' = m"
  using assms(1,2) refl
proof (cases rule: add_cases [where i = i])
  case (added a m2 offs)
  then show ?thesis using assms(3) by simp
qed (use assms(3) in simp)

text \<open>What an addition to one of the two roots means for a lookup in it and in the other one.\<close>

lemma add_then_find:
  assumes "root_ok m lim (r_root f)" "has_room m (r_root f) sz" "imdr_entry_add f i sz m = (e, m')" "e \<noteq> 0"
    "root_ok m lim' (r_root g)" "unat lim' \<le> unat (r_root f) \<or> unat lim \<le> unat (r_root g)"
    "imdr_entry_find f i m = 0"
  shows "imdr_entry_find f j m' = (if j = i then e else imdr_entry_find f j m)"
    "imdr_entry_find g j m' = imdr_entry_find g j m"
    "imdr_entry_size e m' = sz" "rd32 m' (e_id e) = i"
proof -
  obtain offs where o: "e = r_entry (r_root f) (word_of_nat (num_of m (r_root f)))" "root_ok m' lim (r_root f)"
    "adb_of m' (r_root f) = (adb_of m (r_root f))\<lparr>a_ents := a_ents (adb_of m (r_root f)) @ [(offs, unat sz, i)]\<rparr>"
    "agree m' m (unat (r_root g)) (unat lim')"
    using assms(1,2) refl
  proof (cases rule: add_cases [where i = i])
    case (added a m2 offs)
    then show ?thesis using assms(3,6) by (intro that [of offs]) auto
  qed (use assms(3,4) in simp)
  note f = added_find [OF assms(1) o(2) refl o(3)]
  show "imdr_entry_find f j m' = (if j = i then e else imdr_entry_find f j m)"
    using f(1) [of j] assms(7) o(1) by auto
  show "imdr_entry_size e m' = sz" "rd32 m' (e_id e) = i" using f(2,3) o(1) by simp_all
  show "imdr_entry_find g j m' = imdr_entry_find g j m" by (rule find_agree [OF assms(5) o(4)])
qed

text \<open>
  C36. An entry added under an identifier that was not in use is found under it, with its size,
  and every other identifier still leads to the entry it led to.
\<close>

theorem imd_add_find:
  assumes "imd_reach d m" "has_room m (r_root (lg d)) sz" "unat sz + a_align (adb_of m (r_root (sm d))) \<le> 4294967296"
    "imd_entry_find d i m = 0" "imd_entry_add d i sz m = (e, m')" "e \<noteq> 0"
  shows "imd_entry_find d i m' = e \<and> imd_entry_size d e m' = sz \<and> imd_entry_id d e m' = i \<and>
    (\<forall>j. j \<noteq> i \<longrightarrow> imd_entry_find d j m' = imd_entry_find d j m)"
proof -
  have ok: "root_ok m (limit (lg d)) (r_root (lg d))" "root_ok m (limit (sm d)) (r_root (sm d))"
      "unat (limit (sm d)) \<le> unat (r_root (lg d))"
    and room: "has_room m (r_root (sm d)) sz"
    using imd_reach_tiers [OF assms(1)] assms(3) by (auto simp: tiers_ok_def has_room_def)
  have none: "imdr_entry_find (sm d) i m = 0" "imdr_entry_find (lg d) i m = 0"
    using assms(4) by (auto simp: imd_entry_find_def Let_def split: if_splits)
  note small = add_then_find [OF ok(2) room _ assms(6) ok(1) disjI2 [OF ok(3)] none(1)]
    and large = add_then_find [OF ok(1) assms(2) _ assms(6) ok(2) disjI1 [OF ok(3)] none(2)]
  have "imdr_entry_add (sm d) i sz m = (e, m') \<or> imdr_entry_add (lg d) i sz m = (e, m')"
    using assms(5) add_fails [OF ok(2) room] by (auto simp: imd_entry_add_def Let_def split: if_splits prod.splits)
  then show ?thesis
    using small large none assms(6)
    by (auto simp: imd_entry_find_def imd_entry_size_def imd_entry_id_def Let_def)
qed

text \<open>A database in 64 KiB, with one entry added.\<close>

lemma imd_demo:
  obtains d m where "imd_create_tiered_empty (imd_handle_init 0x10000) 4096 4096 1024 32 (\<lambda>_. 0) = (0, d, m)"
    "imd_reach d m" "has_room m (r_root (lg d)) 8" "unat (8 :: u32) + a_align (adb_of m (r_root (sm d))) \<le> 4294967296"
    "imd_entry_find d 7 m = 0" "fst (imd_entry_add d 7 8 m) \<noteq> 0"
proof -
  obtain d m where c: "imd_create_tiered_empty (imd_handle_init 0x10000) 4096 4096 1024 32 (\<lambda>_. 0) = (0, d, m)"
    using tiers_create [of "0x10000" "\<lambda>_. 0"] by auto
  have r: "imd_reach d m" by (rule imd_reach.create [OF _ c]) simp
  have e: "case imd_create_tiered_empty (imd_handle_init 0x10000) 4096 4096 1024 32 (\<lambda>_. 0) of
      (rc, d, m) \<Rightarrow> imd_entry_find d 7 m = 0 \<and> fst (imd_entry_add d 7 8 m) \<noteq> 0 \<and> r_root (lg d) = 0xf000 \<and>
        rd32 m (r_entry_align (r_root (lg d))) = 4096 \<and> rd32 m (r_entry_align (r_root (sm d))) = 32 \<and>
        rd32 m (r_num_entries (r_root (lg d))) = 2 \<and> rd32 m (e_start_offset (r_entry (r_root (lg d)) 1)) = - 4096"
    by code_simp
  then have e: "imd_entry_find d 7 m = 0" "fst (imd_entry_add d 7 8 m) \<noteq> 0" "r_root (lg d) = 0xf000"
    "fld m (r_root (lg d)) 3 = 4096" "fld m (r_root (sm d)) 3 = 32" "fld m (r_root (lg d)) 1 = 2"
    "fld m (r_root (lg d)) 10 = - 4096"
    using rd32_fields(7) [of m "r_root (lg d)" 1] unfolding c prod.case rd32_fields(1-5) by auto
  have ok: "root_ok m (limit (lg d)) (r_root (lg d))" using imd_reach_tiers [OF r] by (simp add: tiers_ok_def)
  have al: "a_align (adb_of m (r_root (lg d))) = 4096" "a_align (adb_of m (r_root (sm d))) = 32"
    using e by (simp_all add: adb_of_def)
  have "num_of m (r_root (lg d)) = 2" unfolding num_of_def e(6) by simp
  then have "a_last (adb_of m (r_root (lg d))) = - 4096" using a_last_eq [OF ok] e(7) by simp
  then have "has_room m (r_root (lg d)) 8" using al e(3) by (simp add: has_room_def a_used_def)
  then show thesis using that c r e al by simp
qed

theorem imd_add_find_witness:
  "\<exists>d m e m'. imd_create_tiered_empty (imd_handle_init 0x10000) 4096 4096 1024 32 (\<lambda>_. 0) = (0, d, m) \<and>
     imd_entry_add d 7 8 m = (e, m') \<and> imd_entry_find d 7 m' = e \<and> imd_entry_size d e m' = 8"
proof -
  obtain d m where h: "imd_create_tiered_empty (imd_handle_init 0x10000) 4096 4096 1024 32 (\<lambda>_. 0) = (0, d, m)"
    "imd_reach d m" "has_room m (r_root (lg d)) 8" "unat (8 :: u32) + a_align (adb_of m (r_root (sm d))) \<le> 4294967296"
    "imd_entry_find d 7 m = 0" "fst (imd_entry_add d 7 8 m) \<noteq> 0"
    by (rule imd_demo)
  from imd_add_find [OF h(2-5), of "fst (imd_entry_add d 7 8 m)" "snd (imd_entry_add d 7 8 m)"] h(1,6)
  show ?thesis by (metis prod.collapse)
qed

text \<open>
  C37. After the lockdown no entry can be added or removed any more: every such call fails and
  leaves the memory as it is.
\<close>

theorem imd_lockdown_final:
  assumes "imd_reach d m"
  shows "fst (imd_lockdown d m) = 0 \<and> imd_entry_add d i sz (snd (imd_lockdown d m)) = (0, snd (imd_lockdown d m)) \<and>
    imd_entry_remove d e (snd (imd_lockdown d m)) = (- 1, snd (imd_lockdown d m))"
proof -
  have "root_is_locked (snd (imd_lockdown d m)) (r_root (lg d))" "root_is_locked (snd (imd_lockdown d m)) (r_root (sm d))"
    using tiers_lockdown(3,4) [OF imd_reach_tiers [OF assms]] by (simp_all add: root_is_locked_def rd32_fields adb_of_def)
  then show ?thesis
    using tiers_lockdown(2) [OF imd_reach_tiers [OF assms]]
    by (auto simp: imd_entry_add_def imdr_entry_add_def imd_entry_remove_def imd_entry_to_imdr_def imdr_root_def Let_def
        split: option.splits)
qed

theorem imd_lockdown_final_witness:
  "\<exists>d m. imd_create_tiered_empty (imd_handle_init 0x10000) 4096 4096 1024 32 (\<lambda>_. 0) = (0, d, m) \<and>
     fst (imd_entry_add d 7 8 m) \<noteq> 0 \<and> fst (imd_entry_add d 7 8 (snd (imd_lockdown d m))) = 0"
proof -
  obtain d m where "imd_create_tiered_empty (imd_handle_init 0x10000) 4096 4096 1024 32 (\<lambda>_. 0) = (0, d, m)"
    "imd_reach d m" "fst (imd_entry_add d 7 8 m) \<noteq> 0" by (rule imd_demo)
  with imd_lockdown_final [OF \<open>imd_reach d m\<close>, of 7 8] show ?thesis by fastforce
qed

text \<open>
  The limit on the size has no effect when it is lower than what is already in use: after
  an entry of 0x3000 bytes the limit 0x2000 is accepted, and 0x8000 bytes more are still
  given out.
\<close>

theorem imd_limit_size_ignored:
  "case imd_create_empty (imd_handle_init 0x100000) 4096 4096 (\<lambda>_. 0) of (rc, d, m) \<Rightarrow>
     (case imd_entry_add d 7 0x3000 m of (e, m) \<Rightarrow>
       (case imd_limit_size d 0x2000 m of (rc', m) \<Rightarrow>
         rc = 0 \<and> e \<noteq> 0 \<and> rc' = 0 \<and> fst (imd_entry_add d 8 0x8000 m) \<noteq> 0))"
  by code_simp

text \<open>
  Adding under an identifier that is in use makes a second entry, which no lookup finds.
\<close>

theorem imd_entry_add_duplicate:
  "case imd_create_empty (imd_handle_init 0x100000) 4096 4096 (\<lambda>_. 0) of (rc, d, m) \<Rightarrow>
     (case imd_entry_add d 7 0x3000 m of (e, m) \<Rightarrow>
       (case imd_entry_add d 7 0x1000 m of (e', m) \<Rightarrow>
         rc = 0 \<and> e \<noteq> 0 \<and> e' \<noteq> 0 \<and> e' \<noteq> e \<and> imd_entry_find d 7 m = e))"
  by code_simp

end
