(* ===== verification/Rtc.thy ===== *)
theory Rtc
  imports Prelude "HOL-Library.Signed_Division"
begin

text \<open>
  The conversion between seconds and dates, \<^verbatim>\<open>src/coreboot/src/lib/rtc.c\<close>. The fields of a
  date and the intermediate values are integers; their sums stay within 32 bits for the
  times of the theorems, and only the result of \<open>rtc_mktime\<close> is cut to 32 bits, which agrees
  with the wrap-around of the sums that lead to it. The division of C rounds to zero.
\<close>

record rtc_time =
  tm_sec :: int
  tm_min :: int
  tm_hour :: int
  tm_mday :: int
  tm_mon :: int
  tm_year :: int
  tm_wday :: int

definition FEBRUARY :: int where "FEBRUARY = 2"
definition STARTOFTIME :: int where "STARTOFTIME = 1970"
definition SECDAY :: int where "SECDAY = 86400"

definition LEAP_YEAR :: "int \<Rightarrow> bool" where
  "LEAP_YEAR y \<longleftrightarrow> y smod 4 = 0"

definition DAYS_IN_YEAR :: "int \<Rightarrow> int" where
  "DAYS_IN_YEAR y = (if LEAP_YEAR y then 366 else 365)"

definition month_offset :: "int list" where
  "month_offset = [0, 31, 59, 90, 120, 151, 181, 212, 243, 273, 304, 334]"

definition month_days :: "int list" where
  "month_days = [31, 28, 31, 30, 31, 30, 31, 31, 30, 31, 30, 31]"

definition weekdays :: "string list" where
  "weekdays = [''Sun'', ''Mon'', ''Tues'', ''Wednes'', ''Thurs'', ''Fri'', ''Satur'']"

definition leaps_to_year :: "int \<Rightarrow> int" where
  "leaps_to_year y = y sdiv 4 - y sdiv 100 + y sdiv 400"

definition rtc_calc_weekday :: "rtc_time \<Rightarrow> int \<times> rtc_time" where
  "rtc_calc_weekday tm =
     (if tm_year tm < 1971 then (- 1, tm)
      else
        (let leaps_to_date = leaps_to_year (tm_year tm - 1) - leaps_to_year 1970;
             day = if tm_year tm smod 4 \<noteq> 0 \<and> (tm_year tm smod 100 \<noteq> 0 \<or> tm_year tm smod 400 = 0) \<and> tm_mon tm > 2
                   then 5 else 4;
             day = day + ((tm_year tm - 1970) * 365 + leaps_to_date + month_offset ! nat (tm_mon tm - 1) + tm_mday tm)
         in (0, tm\<lparr>tm_wday := day smod 7\<rparr>)))"

function year_loop :: "int \<Rightarrow> int \<Rightarrow> int \<times> int" where
  "year_loop i day = (if day \<ge> DAYS_IN_YEAR i then year_loop (i + 1) (day - DAYS_IN_YEAR i) else (i, day))"
  by pat_completeness auto
termination
  by (relation "measure (\<lambda>(i, day). nat (day + 1))") (auto simp: DAYS_IN_YEAR_def split: if_splits)

text \<open>The loop over the months stops at the end of the array, which it never reaches.\<close>

function month_loop :: "int list \<Rightarrow> int \<Rightarrow> int \<Rightarrow> int \<times> int" where
  "month_loop ds i day =
     (if i \<le> int (length ds) \<and> day \<ge> ds ! nat (i - 1) then month_loop ds (i + 1) (day - ds ! nat (i - 1)) else (i, day))"
  by pat_completeness auto
termination
  by (relation "measure (\<lambda>(ds, i, day). nat (int (length ds) + 1 - i))") auto

declare year_loop.simps [simp del] month_loop.simps [simp del]

definition rtc_to_tm :: "int \<Rightarrow> rtc_time \<Rightarrow> int \<times> rtc_time" where
  "rtc_to_tm tim tm =
     (let day = tim sdiv SECDAY;
          hms = tim smod SECDAY;
          tm = tm\<lparr>tm_hour := hms sdiv 3600, tm_min := (hms smod 3600) sdiv 60, tm_sec := (hms smod 3600) smod 60\<rparr>;
          (i, day) = year_loop STARTOFTIME day;
          tm = tm\<lparr>tm_year := i\<rparr>;
          ds = if LEAP_YEAR (tm_year tm) then month_days[nat (FEBRUARY - 1) := 29] else month_days;
          (i, day) = month_loop ds 1 day;
          tm = tm\<lparr>tm_mon := i\<rparr>;
          tm = tm\<lparr>tm_mday := day + 1\<rparr>
      in rtc_calc_weekday tm)"

definition rtc_mktime :: "rtc_time \<Rightarrow> u32" where
  "rtc_mktime tm =
     (let mon = tm_mon tm - 2;
          (mon, year) = if 0 \<ge> mon then (mon + 12, tm_year tm - 1) else (mon, tm_year tm);
          days = (year sdiv 4 - year sdiv 100 + year sdiv 400 + 367 * mon sdiv 12 + tm_mday tm) + year * 365 - 719499;
          hours = days * 24 + tm_hour tm
      in word_of_int ((hours * 60 + tm_min tm) * 60 + tm_sec tm))"

section \<open>Lemmas\<close>

lemma sdiv_nonneg: "0 \<le> a \<Longrightarrow> 0 < b \<Longrightarrow> a sdiv b = a div b" for a b :: int
  by (cases "a = 0") (simp_all add: signed_divide_int_def)

lemma smod_nonneg: "0 \<le> a \<Longrightarrow> 0 < b \<Longrightarrow> a smod b = a mod b" for a b :: int
  by (cases "a = 0") (simp_all add: signed_modulo_int_def sdiv_nonneg minus_div_mult_eq_mod)

lemma LEAP_YEAR_iff: "0 \<le> y \<Longrightarrow> LEAP_YEAR y \<longleftrightarrow> y mod 4 = 0"
  by (simp add: LEAP_YEAR_def smod_nonneg)

text \<open>Days from the start of 1970 to the start of year \<open>y\<close>, every fourth year having a day more.\<close>

definition days_before :: "int \<Rightarrow> int" where
  "days_before y = 365 * (y - 1970) + (y - 1969) div 4"

lemma days_before_Suc: "1970 \<le> y \<Longrightarrow> days_before (y + 1) = days_before y + DAYS_IN_YEAR y"
  unfolding days_before_def DAYS_IN_YEAR_def by (simp add: LEAP_YEAR_iff) presburger

lemma year_loop_spec:
  assumes "1970 \<le> i" "0 \<le> day" "year_loop i day = (y, d)"
  shows "i \<le> y \<and> 0 \<le> d \<and> d < DAYS_IN_YEAR y \<and> days_before y + d = days_before i + day"
  using assms
proof (induction i day rule: year_loop.induct)
  case (1 i day)
  show ?case
  proof (cases "day \<ge> DAYS_IN_YEAR i")
    case True
    then have "year_loop (i + 1) (day - DAYS_IN_YEAR i) = (y, d)"
      using "1.prems"(3) by (subst (asm) year_loop.simps) simp
    with "1.IH" [OF True] "1.prems"(1) True show ?thesis by (simp add: days_before_Suc)
  next
    case False
    then show ?thesis using "1.prems" year_loop.simps [of i day] by simp
  qed
qed

text \<open>Days before a month in a year, and that the loop over the months finds them.\<close>

definition days_upto :: "bool \<Rightarrow> int \<Rightarrow> int" where
  "days_upto leap mon = month_offset ! nat (mon - 1) + (if leap \<and> mon > 2 then 1 else 0)"

definition months :: "bool \<Rightarrow> int list" where
  "months leap = (if leap then month_days[1 := 29] else month_days)"

lemma month_loop_spec:
  assumes "1 \<le> i" "i \<le> int (length ds) + 1" "0 \<le> day" "month_loop ds i day = (j, d)"
  shows "i \<le> j \<and> j \<le> int (length ds) + 1 \<and> 0 \<le> d \<and> (j \<le> int (length ds) \<longrightarrow> d < ds ! nat (j - 1)) \<and>
    sum_list (take (nat (j - 1)) ds) + d = sum_list (take (nat (i - 1)) ds) + day"
  using assms
proof (induction ds i day rule: month_loop.induct)
  case (1 ds i day)
  show ?case
  proof (cases "i \<le> int (length ds) \<and> day \<ge> ds ! nat (i - 1)")
    case True
    have i: "nat (i + 1 - 1) = Suc (nat (i - 1))" "nat (i - 1) < length ds" using True "1.prems"(1) by linarith+
    have "month_loop ds (i + 1) (day - ds ! nat (i - 1)) = (j, d)"
      using "1.prems"(4) True month_loop.simps [of ds i day] by simp
    from "1.IH" [OF True _ _ _ this] True "1.prems"(1)
    show ?thesis unfolding i(1) take_Suc_conv_app_nth [OF i(2)] by simp
  next
    case False
    then show ?thesis using "1.prems" month_loop.simps [of ds i day] by (cases "i \<le> int (length ds)") auto
  qed
qed

lemma month_cases: "1 \<le> j \<Longrightarrow> j \<le> 13 \<Longrightarrow> j = 1 \<or> j = 2 \<or> j = 3 \<or> j = 4 \<or> j = 5 \<or> j = 6 \<or> j = 7 \<or> j = 8 \<or>
  j = 9 \<or> j = 10 \<or> j = 11 \<or> j = 12 \<or> j = 13" for j :: int
proof -
  assume "1 \<le> j" "j \<le> 13"
  then have "j \<in> set [1..13]" by simp
  moreover have "[1..13] = [1, 2, 3, 4, 5, 6, 7, 8, 9, 10, 11, 12, 13 :: int]" by code_simp
  ultimately show ?thesis by (simp del: set_upto)
qed

lemma months_sum:
  assumes "1 \<le> j" "j \<le> 12"
  shows "sum_list (take (nat (j - 1)) (months leap)) = days_upto leap j" "months leap ! nat (j - 1) \<le> 31"
  using month_cases [of j] assms
  by (auto simp: months_def days_upto_def month_days_def month_offset_def)

lemma month_loop_days:
  assumes "0 \<le> day" "day < (if leap then 366 else 365)" "month_loop (months leap) 1 day = (j, d)"
  shows "1 \<le> j \<and> j \<le> 12 \<and> 0 \<le> d \<and> d < 31 \<and> days_upto leap j + d = day"
proof -
  have len: "int (length (months leap)) = 12" by (simp add: months_def month_days_def)
  have s: "1 \<le> j" "j \<le> 13" "0 \<le> d" "j \<le> 12 \<Longrightarrow> d < months leap ! nat (j - 1)"
    "sum_list (take (nat (j - 1)) (months leap)) + d = day"
    using month_loop_spec [OF _ _ assms(1,3)] len by simp_all
  have "j \<noteq> 13"
  proof
    assume "j = 13"
    then have "sum_list (months leap) + d = day" using s(5) len by simp
    then show False using assms(2) s(3) by (simp add: months_def month_days_def split: if_splits)
  qed
  then have j: "j \<le> 12" using s(2) by simp
  show ?thesis using s j months_sum [OF s(1) j, of leap] by auto
qed

lemma mixed_radix: "h div 3600 * 3600 + h mod 3600 div 60 * 60 + h mod 3600 mod 60 = (h::int)"
proof -
  have "h div 3600 * 3600 + (h mod 3600 div 60 * 60 + h mod 3600 mod 60) = h"
    unfolding div_mult_mod_eq [of "h mod 3600" 60] by (rule div_mult_mod_eq)
  then show ?thesis by (simp only: add.assoc)
qed

definition weekday_sum :: "rtc_time \<Rightarrow> int" where
  "weekday_sum tm =
     (if tm_year tm smod 4 \<noteq> 0 \<and> (tm_year tm smod 100 \<noteq> 0 \<or> tm_year tm smod 400 = 0) \<and> tm_mon tm > 2 then 5 else 4) +
     ((tm_year tm - 1970) * 365 + (leaps_to_year (tm_year tm - 1) - leaps_to_year 1970) +
      month_offset ! nat (tm_mon tm - 1) + tm_mday tm)"

lemma weekday_result:
  assumes "rtc_calc_weekday a = (rc, tm)" "1971 \<le> tm_year a"
  shows "rc = 0 \<and> tm_wday tm = weekday_sum tm smod 7"
proof -
  have r: "rc = 0" "tm = a\<lparr>tm_wday := weekday_sum a smod 7\<rparr>"
    using assms by (simp_all add: rtc_calc_weekday_def weekday_sum_def Let_def)
  have "weekday_sum tm = weekday_sum a" unfolding r(2) weekday_sum_def by simp
  with r show ?thesis by simp
qed

lemma weekday_fields:
  "rtc_calc_weekday a = (rc, tm) \<Longrightarrow> tm_year tm = tm_year a \<and> tm_mon tm = tm_mon a \<and> tm_mday tm = tm_mday a \<and>
     tm_hour tm = tm_hour a \<and> tm_min tm = tm_min a \<and> tm_sec tm = tm_sec a \<and> (tm_year a < 1971 \<longrightarrow> rc = - 1)"
  by (auto simp: rtc_calc_weekday_def Let_def split: if_splits)

lemma days_before_1970: "days_before 1970 = 0"
  by (simp add: days_before_def)

text \<open>The date of a time, and the formula that inverts it.\<close>

lemma rtc_to_tm_date:
  assumes "0 \<le> t" "rtc_to_tm t tm0 = (rc, tm)"
  shows "1970 \<le> tm_year tm" "1 \<le> tm_mon tm" "tm_mon tm \<le> 12" "1 \<le> tm_mday tm" "tm_mday tm \<le> 31"
    "days_before (tm_year tm) + days_upto (LEAP_YEAR (tm_year tm)) (tm_mon tm) + tm_mday tm - 1 = t div 86400"
    "tm_hour tm * 3600 + tm_min tm * 60 + tm_sec tm = t mod 86400"
    "tm_year tm < 1971 \<longrightarrow> rc = - 1" "1971 \<le> tm_year tm \<longrightarrow> rc = 0 \<and> tm_wday tm = weekday_sum tm smod 7"
proof -
  obtain y d where y: "year_loop 1970 (t div 86400) = (y, d)" by fastforce
  have d0: "0 \<le> t div 86400" using assms(1) by simp
  note ys = year_loop_spec [OF _ d0 y]
  let ?leap = "LEAP_YEAR y"
  obtain j e where j: "month_loop (months ?leap) 1 d = (j, e)" by fastforce
  have js: "1 \<le> j \<and> j \<le> 12 \<and> 0 \<le> e \<and> e < 31 \<and> days_upto ?leap j + e = d"
    using ys by (intro month_loop_days [OF _ _ j]) (auto simp: DAYS_IN_YEAR_def)
  let ?h = "t mod 86400"
  have ds: "(if LEAP_YEAR y then month_days[nat (FEBRUARY - 1) := 29] else month_days) = months ?leap"
    by (simp add: months_def FEBRUARY_def)
  have h: "0 \<le> ?h" by simp
  let ?tm = "tm0\<lparr>tm_hour := ?h div 3600, tm_min := ?h mod 3600 div 60, tm_sec := ?h mod 3600 mod 60,
    tm_year := y, tm_mon := j, tm_mday := e + 1\<rparr>"
  have res: "rtc_to_tm t tm0 = rtc_calc_weekday ?tm"
    using assms(1) y j ds h by (simp add: rtc_to_tm_def SECDAY_def STARTOFTIME_def sdiv_nonneg smod_nonneg Let_def)
  then have fields: "rtc_calc_weekday ?tm = (rc, tm)" using assms(2) by simp
  have tm: "tm_year tm = y" "tm_mon tm = j" "tm_mday tm = e + 1" "tm_hour tm = ?h div 3600"
    "tm_min tm = ?h mod 3600 div 60" "tm_sec tm = ?h mod 3600 mod 60" "y < 1971 \<longrightarrow> rc = - 1"
    using weekday_fields [OF fields] by simp_all
  show "1970 \<le> tm_year tm" "1 \<le> tm_mon tm" "tm_mon tm \<le> 12" "1 \<le> tm_mday tm" "tm_mday tm \<le> 31"
    "days_before (tm_year tm) + days_upto (LEAP_YEAR (tm_year tm)) (tm_mon tm) + tm_mday tm - 1 = t div 86400"
    "tm_year tm < 1971 \<longrightarrow> rc = - 1"
    unfolding tm using ys js tm(7) days_before_1970 by simp_all
  show "tm_hour tm * 3600 + tm_min tm * 60 + tm_sec tm = t mod 86400"
    unfolding tm(4-6) by (rule mixed_radix)
  show "1971 \<le> tm_year tm \<longrightarrow> rc = 0 \<and> tm_wday tm = weekday_sum tm smod 7"
    using weekday_result [OF fields] unfolding tm(1) by simp
qed

lemma year_small: "days_before y \<le> 24855 \<Longrightarrow> y \<le> 2038"
proof (rule ccontr)
  assume d: "days_before y \<le> 24855" and "\<not> y \<le> 2038"
  then have "69 * 365 \<le> 365 * (y - 1970)" "0 \<le> (y - 1969) div 4" by simp_all
  with d show False unfolding days_before_def by linarith
qed

text \<open>Between 1969 and 2038 the corrections for centuries cancel but for a constant.\<close>

lemma century_terms: "1969 \<le> y \<Longrightarrow> y \<le> 2038 \<Longrightarrow> y div 400 - y div 100 = (- 15 :: int)"
proof -
  assume y: "1969 \<le> y" "y \<le> 2038"
  show ?thesis
  proof (cases "y < 2000")
    case True
    then have "y div 100 = 19" "y div 400 = 4"
      using y int_div_pos_eq [of y 100 19 "y - 1900"] int_div_pos_eq [of y 400 4 "y - 1600"] by simp_all
    then show ?thesis by simp
  next
    case False
    then have "y div 100 = 20" "y div 400 = 5"
      using y int_div_pos_eq [of y 100 20 "y - 2000"] int_div_pos_eq [of y 400 5 "y - 2000"] by simp_all
    then show ?thesis by simp
  qed
qed

lemma mktime_days:
  assumes "1970 \<le> y" "y \<le> 2038" "1 \<le> mon" "mon \<le> 12"
  defines "m \<equiv> if mon - 2 \<le> 0 then mon + 10 else mon - 2" and "v \<equiv> if mon - 2 \<le> 0 then y - 1 else y"
  shows "v sdiv 4 - v sdiv 100 + v sdiv 400 + 367 * m sdiv 12 + d + v * 365 - 719499 =
    days_before y + days_upto (LEAP_YEAR y) mon + d - 1"
proof -
  have m: "1 \<le> m" "1969 \<le> v" "v \<le> 2038" using assms by (auto simp: m_def v_def)
  have l: "LEAP_YEAR y \<longleftrightarrow> y mod 4 = 0" using assms(1) by (simp add: LEAP_YEAR_iff)
  have c: "v sdiv 4 - v sdiv 100 + v sdiv 400 = v div 4 - 15"
    using m century_terms [OF m(2,3)] by (simp add: sdiv_nonneg)
  have s: "367 * m sdiv 12 = 367 * m div 12" using m(1) by (simp add: sdiv_nonneg)
  have q: "(y - 1969) div 4 = (y - 1) div 4 - 492" "y div 4 = (y - 1) div 4 + (if y mod 4 = 0 then 1 else 0)"
    by presburger+
  have mon: "mon \<in> {1, 2, 3, 4, 5, 6, 7, 8, 9, 10, 11, 12}" using month_cases [of mon] assms(3,4) by auto
  then have t: "mon - 2 \<le> 0 \<Longrightarrow> 367 * (mon + 10) div 12 = month_offset ! nat (mon - 1) + 336"
    "\<not> mon - 2 \<le> 0 \<Longrightarrow> 367 * (mon - 2) div 12 = month_offset ! nat (mon - 1) - 29"
    by (auto simp: month_offset_def)
  show ?thesis
    unfolding c s unfolding m_def v_def days_before_def days_upto_def l
    using t q by (cases "mon - 2 \<le> 0") (simp_all split del: if_split add: algebra_simps)
qed

lemma date_range:
  assumes "0 \<le> t" "t < 2 ^ 31" "rtc_to_tm t tm0 = (rc, tm)"
  shows "tm_year tm \<le> 2038"
proof -
  note d = rtc_to_tm_date [OF assms(1,3)]
  have "t div 86400 \<le> 2147483647 div 86400" using assms(2) by (intro zdiv_mono1) simp_all
  moreover have "0 \<le> days_upto (LEAP_YEAR (tm_year tm)) (tm_mon tm)"
    using month_cases [of "tm_mon tm"] d(2,3) by (auto simp: days_upto_def month_offset_def)
  ultimately show ?thesis using d(4,6) by (intro year_small) simp
qed

section \<open>Properties\<close>

text \<open>
  C38. Every time from 1970 to the end of the signed 32-bit range is converted to a date that
  converts back to the same time.
\<close>

theorem rtc_mktime_rtc_to_tm:
  assumes "0 \<le> t" "t < 2 ^ 31"
  shows "rtc_mktime (snd (rtc_to_tm t tm0)) = word_of_int t"
proof -
  obtain rc tm where tm: "rtc_to_tm t tm0 = (rc, tm)" by fastforce
  note d = rtc_to_tm_date [OF assms(1) tm]
  let ?mon = "tm_mon tm" and ?y = "tm_year tm"
  let ?m = "if ?mon - 2 \<le> 0 then ?mon + 10 else ?mon - 2" and ?v = "if ?mon - 2 \<le> 0 then ?y - 1 else ?y"
  let ?d = "?v sdiv 4 - ?v sdiv 100 + ?v sdiv 400 + 367 * ?m sdiv 12 + tm_mday tm + ?v * 365 - 719499"
  have days: "?d = t div 86400"
    using mktime_days [OF d(1) date_range [OF assms tm] d(2,3), of "tm_mday tm"] d(6) by simp
  have "rtc_mktime tm = word_of_int (((?d * 24 + tm_hour tm) * 60 + tm_min tm) * 60 + tm_sec tm)"
    by (cases "?mon - 2 \<le> 0") (simp_all add: rtc_mktime_def Let_def add.commute [of 3670])
  also have "\<dots> = word_of_int (((t div 86400 * 24 + tm_hour tm) * 60 + tm_min tm) * 60 + tm_sec tm)"
    unfolding days ..
  also have "((t div 86400 * 24 + tm_hour tm) * 60 + tm_min tm) * 60 + tm_sec tm = t div 86400 * 86400 + t mod 86400"
    unfolding d(7) [symmetric] by (simp add: algebra_simps)
  also have "\<dots> = t" by (rule div_mult_mod_eq)
  finally show ?thesis using tm by simp
qed

definition tm_zero :: rtc_time where
  "tm_zero = \<lparr>tm_sec = 0, tm_min = 0, tm_hour = 0, tm_mday = 0, tm_mon = 0, tm_year = 0, tm_wday = 0\<rparr>"

theorem rtc_mktime_rtc_to_tm_witness:
  "snd (rtc_to_tm 951827696 tm_zero) = \<lparr>tm_sec = 56, tm_min = 34, tm_hour = 12, tm_mday = 29, tm_mon = 2,
     tm_year = 2000, tm_wday = 3\<rparr> \<and> rtc_mktime (snd (rtc_to_tm 951827696 tm_zero)) = 951827696"
proof -
  have "snd (rtc_to_tm 951827696 tm_zero) = \<lparr>tm_sec = 56, tm_min = 34, tm_hour = 12, tm_mday = 29, tm_mon = 2,
     tm_year = 2000, tm_wday = 3\<rparr>" by code_simp
  then show ?thesis using rtc_mktime_rtc_to_tm [of 951827696 tm_zero] by simp
qed

text \<open>
  C39. The day of the week is wrong: 1 January 1970 was a Thursday, number 4, and the code does
  not give the number of days since then plus 4, modulo 7, but one more in January and
  February, two more from March on, and the right value only from March on in leap years.
\<close>

theorem rtc_weekday_wrong:
  assumes "0 \<le> t" "t < 2 ^ 31" "rtc_to_tm t tm0 = (0, tm)"
  shows "tm_wday tm = (t div 86400 + 4 + (if tm_mon tm \<le> 2 then 1 else if LEAP_YEAR (tm_year tm) then 0 else 2)) mod 7"
proof -
  note d = rtc_to_tm_date [OF assms(1,3)] and r = date_range [OF assms]
  let ?mon = "tm_mon tm" and ?y = "tm_year tm"
  have y: "1971 \<le> ?y" using d(8) by (cases "?y < 1971") auto
  have l: "LEAP_YEAR ?y \<longleftrightarrow> ?y mod 4 = 0" using d(1) by (simp add: LEAP_YEAR_iff)
  have c: "?y mod 4 \<noteq> 0 \<Longrightarrow> ?y mod 100 \<noteq> 0" by presburger
  have lp: "leaps_to_year (?y - 1) = (?y - 1) div 4 - 15" "leaps_to_year 1970 = 477"
    using y r century_terms [of "?y - 1"] by (simp_all add: leaps_to_year_def sdiv_nonneg)
  have q: "(?y - 1969) div 4 = (?y - 1) div 4 - 492" by presburger
  have days: "365 * (?y - 1970) + ((?y - 1) div 4 - 492) + days_upto (?y mod 4 = 0) ?mon + tm_mday tm - 1 = t div 86400"
    using d(6) unfolding days_before_def q l by simp
  have "weekday_sum tm = t div 86400 + 4 + (if ?mon \<le> 2 then 1 else if LEAP_YEAR ?y then 0 else 2)"
    unfolding weekday_sum_def lp l days [symmetric] days_upto_def using y c by (simp add: smod_nonneg)
  moreover have "0 \<le> t div 86400" using assms(1) by simp
  ultimately show ?thesis using d(9) y by (simp add: smod_nonneg)
qed

theorem rtc_weekday_wrong_witness:
  "fst (rtc_to_tm 31536000 tm_zero) = 0 \<and> tm_wday (snd (rtc_to_tm 31536000 tm_zero)) = (365 + 4 + 1) mod 7"
proof -
  have e: "fst (rtc_to_tm 31536000 tm_zero) = 0" "tm_mon (snd (rtc_to_tm 31536000 tm_zero)) = 1" by code_simp+
  then have "rtc_to_tm 31536000 tm_zero = (0, snd (rtc_to_tm 31536000 tm_zero))" by (metis prod.collapse)
  from rtc_weekday_wrong [OF _ _ this] e show ?thesis by simp
qed

end
