(* ===== verification/Ip_Checksum.thy ===== *)
theory Ip_Checksum
  imports Prelude
begin

text \<open>
  The checksum of the coreboot tables, \<^verbatim>\<open>src/coreboot/src/lib/compute_ip_checksum.c\<close>, and the
  combination of the checksums of two blocks. The sums are 32-bit words; the union that puts
  the two bytes of the sum in order is read on a little-endian machine. The specification is
  a sum in one's complement: a sum modulo 65535 in which only zero is represented by 0.
\<close>

fun checksum_loop :: "nat \<Rightarrow> u8 list \<Rightarrow> u32 \<Rightarrow> u32" where
  "checksum_loop i [] sm = sm"
| "checksum_loop i (b # bs) sm =
     (let v = ucast b;
          v = if odd i then push_bit 8 v else v;
          sm = sm + v;
          sm = if sm > 0xFFFF then (sm + drop_bit 16 sm) AND 0xFFFF else sm
      in checksum_loop (Suc i) bs sm)"

definition compute_ip_checksum :: "u8 list \<Rightarrow> u32" where
  "compute_ip_checksum bs =
     (let sm = checksum_loop 0 bs 0;
          w = (sm AND 0xff) OR push_bit 8 (drop_bit 8 sm AND 0xff)
      in NOT w AND 0xFFFF)"

definition add_ip_checksums :: "u32 \<Rightarrow> u32 \<Rightarrow> u32 \<Rightarrow> u32" where
  "add_ip_checksums offset sm nw =
     (let sm = NOT sm AND 0xFFFF;
          nw = NOT nw AND 0xFFFF;
          nw = if offset AND 1 \<noteq> 0 then (drop_bit 8 nw AND 0xff) OR (push_bit 8 nw AND 0xff00) else nw;
          checksum = sm + nw;
          checksum = if checksum > 0xFFFF then checksum - 0xFFFF else checksum
      in NOT checksum AND 0xFFFF)"

section \<open>One's complement\<close>

definition ones :: "nat \<Rightarrow> nat" where
  "ones n = (if n = 0 then 0 else (n - 1) mod 65535 + 1)"

lemma ones_le: "ones n \<le> 65535"
  using mod_less_divisor [of 65535 "n - 1"] by (auto simp: ones_def)

lemma ones_id: "n \<le> 65535 \<Longrightarrow> ones n = n"
  by (auto simp: ones_def)

lemma ones_cong: "ones a = ones b \<longleftrightarrow> a mod 65535 = b mod 65535 \<and> (a = 0 \<longleftrightarrow> b = 0)"
proof (cases "a = 0 \<or> b = 0")
  case False
  then obtain x y where xy: "a = Suc x" "b = Suc y" by (metis not0_implies_Suc)
  have "x mod 65535 = y mod 65535 \<longleftrightarrow> Suc x mod 65535 = Suc y mod 65535"
    using mod_less_divisor [of 65535 x] mod_less_divisor [of 65535 y] by (auto simp: mod_Suc)
  then show ?thesis using xy by (simp add: ones_def)
qed (auto simp: ones_def)

lemma ones_mod: "ones a mod 65535 = a mod 65535" "ones a = 0 \<longleftrightarrow> a = 0"
  using ones_cong [of "ones a" a] ones_id [OF ones_le, of a] by simp_all

lemma ones_add: "ones (ones a + b) = ones (a + b)"
  unfolding ones_cong by (simp add: ones_mod mod_add_left_eq [of "ones a", symmetric] mod_add_left_eq [of a, symmetric])

lemma ones_step: "n \<le> 131070 \<Longrightarrow> ones n = (if 65535 < n then n - 65535 else n)"
  unfolding ones_def by (auto simp: le_mod_geq)

section \<open>The loops\<close>

text \<open>The bytes at odd places count 256 times.\<close>

fun weight :: "nat \<Rightarrow> u8 list \<Rightarrow> nat" where
  "weight i [] = 0"
| "weight i (b # bs) = unat b * (if odd i then 256 else 1) + weight (Suc i) bs"

lemma weight_append: "weight i (a @ b) = weight i a + weight (i + length a) b"
  by (induction a arbitrary: i) simp_all

lemma weight_parity: "even i = even j \<Longrightarrow> weight i bs = weight j bs"
proof (induction bs arbitrary: i j)
  case (Cons b bs)
  then have "weight (Suc i) bs = weight (Suc j) bs" by simp
  then show ?case using Cons.prems by simp
qed simp

lemma weight_swap: "ones (256 * weight i bs) = ones (weight (Suc i) bs)"
proof -
  have "(256 * weight i bs) mod 65535 = weight (Suc i) bs mod 65535 \<and> (weight i bs = 0 \<longleftrightarrow> weight (Suc i) bs = 0)"
  proof (induction bs arbitrary: i)
    case (Cons b bs)
    have one: "256 * (unat b * (if odd i then 256 else 1)) mod 65535 = unat b * (if odd i then 1 else 256) mod 65535"
    proof (cases "odd i")
      case True
      have "256 * (unat b * 256) = unat b + 65535 * unat b" by simp
      then have "256 * (unat b * 256) mod 65535 = unat b mod 65535" by (simp only: mod_mult_self2)
      then show ?thesis using True by simp
    qed (simp add: mult.commute)
    have "256 * weight i (b # bs) = 256 * (unat b * (if odd i then 256 else 1)) + 256 * weight (Suc i) bs"
      by (simp add: algebra_simps)
    moreover have "\<dots> mod 65535 = (unat b * (if odd i then 1 else 256) + weight (Suc (Suc i)) bs) mod 65535"
      using one Cons.IH [of "Suc i"] by (intro mod_add_cong) auto
    ultimately have "256 * weight i (b # bs) mod 65535 = weight (Suc i) (b # bs) mod 65535" by simp
    then show ?case using Cons.IH [of "Suc i"] by simp
  qed simp
  then show ?thesis by (simp add: ones_cong)
qed

lemma unat_ucast_byte: "unat (ucast (b :: u8) :: u32) = unat b"
proof (rule unat_ucast_small)
  have "unat b < 256" using unsigned_less [of b] by simp
  then show "unat b < 2 ^ LENGTH(32)" by (rule less_le_trans) simp
qed

lemma unat_ff: "unat (x AND 0xFFFF :: u32) = unat x mod 65536"
  using unat_take_bit_word [of 16 x] by (simp add: take_bit_eq_mask mask_eq_exp_minus_1)

lemma fold_carry:
  fixes x :: u32
  assumes "unat x \<le> 131070"
  shows "unat (if x > 0xFFFF then (x + drop_bit 16 x) AND 0xFFFF else x) = ones (unat x)"
proof (cases "x > 0xFFFF")
  case True
  then have g: "65535 < unat x" by (simp add: word_less_nat_alt)
  have "unat (drop_bit 16 x) = unat x div 65536"
    unfolding unat_drop_bit_eq by (simp add: drop_bit_eq_div)
  also have "\<dots> = 1" using g assms by (intro div_nat_eqI) simp_all
  finally have "unat (x + drop_bit 16 x) = unat x + 1" using assms by (subst unat_plus_no_wrap) simp_all
  then have "unat ((x + drop_bit 16 x) AND 0xFFFF) = (unat x + 1) mod 65536" by (simp add: unat_ff)
  also have "\<dots> = unat x - 65535" using g assms by (simp add: le_mod_geq)
  finally show ?thesis using True g assms by (simp add: ones_step)
next
  case False
  then have "unat x \<le> 65535" by (simp add: word_less_nat_alt)
  then show ?thesis using False by (simp add: ones_id)
qed

lemma checksum_loop_spec:
  "unat sm \<le> 65535 \<Longrightarrow> unat (checksum_loop i bs sm) = ones (unat sm + weight i bs)"
proof (induction bs arbitrary: i sm)
  case Nil
  then show ?case by (simp add: ones_id)
next
  case (Cons b bs)
  define v :: u32 where "v = (if odd i then push_bit 8 (ucast b) else ucast b)"
  have b: "unat b < 256" using unsigned_less [of b] by simp
  have v: "unat v = unat b * (if odd i then 256 else 1)"
  proof (cases "odd i")
    case True
    have "unat b * 256 < 4294967296" using b by linarith
    then have "unat (push_bit 8 (ucast b :: u32)) = unat b * 256"
      unfolding push_bit_eq_mult unat_word_ariths unat_ucast_byte by simp
    then show ?thesis using True by (simp add: v_def)
  qed (simp add: v_def unat_ucast_byte)
  have vb: "unat v \<le> 65280" 
  proof -
    have "unat b * 256 \<le> 65280" "unat b \<le> 65280" using b by linarith+
    then show ?thesis unfolding v by simp
  qed
  then have s: "unat (sm + v) = unat sm + unat v" using Cons.prems by (subst unat_plus_no_wrap) simp_all
  define n where "n = (if sm + v > 0xFFFF then (sm + v + drop_bit 16 (sm + v)) AND 0xFFFF else sm + v)"
  have n: "unat n = ones (unat sm + unat v)" unfolding n_def
    using fold_carry [of "sm + v"] s Cons.prems vb by simp
  have "checksum_loop i (b # bs) sm = checksum_loop (Suc i) bs n"
    by (simp add: Let_def n_def v_def)
  then have "unat (checksum_loop i (b # bs) sm) = ones (ones (unat sm + unat v) + weight (Suc i) bs)"
    using Cons.IH [of n "Suc i"] n ones_le by simp
  then show ?case by (simp add: ones_add v add.assoc)
qed

section \<open>The results\<close>

lemma mask_minus: "c - (x AND c) = NOT x AND c" for c x :: u32
proof -
  have "c - (x AND c) = c AND NOT (x AND c)" by (rule disjunctive_diff) (simp add: bit_and_iff)
  also have "\<dots> = NOT x AND c" by (rule bit_word_eqI) (auto simp: bit_and_iff bit_not_iff bit_or_iff)
  finally show ?thesis .
qed

lemma complement_16: "unat (NOT x AND 0xFFFF :: u32) = 65535 - unat x mod 65536"
proof -
  have "x AND 0xFFFF \<le> 0xFFFF" using unat_ff [of x] by (simp add: word_le_nat_alt)
  then show ?thesis unfolding mask_minus [symmetric] by (simp add: unat_minus_no_wrap unat_ff)
qed

lemma byte_pair: "(a AND 0xff) OR push_bit 8 (b AND 0xff) = (a AND 0xff) + push_bit 8 (b AND 0xff)" for a b :: u32
proof -
  have "\<not> bit (a AND mask 8) n \<or> \<not> bit (push_bit 8 (b AND mask 8)) n" for n
    by (auto simp: bit_simps)
  from disjunctive_add [OF this] show ?thesis by (simp add: mask_eq_exp_minus_1)
qed

lemma unat_byte_pair:
  "unat ((a AND 0xff) OR push_bit 8 (b AND 0xff) :: u32) = unat a mod 256 + 256 * (unat b mod 256)"
proof -
  have m: "unat (x AND 0xff :: u32) = unat x mod 256" for x
    using unat_take_bit_word [of 8 x] by (simp add: take_bit_eq_mask mask_eq_exp_minus_1)
  have l: "unat b mod 256 < 256" "unat a mod 256 < 256" by simp_all
  then have "unat b mod 256 * 256 < 4294967296" by linarith
  then have p: "unat (push_bit 8 (b AND 0xff)) = unat b mod 256 * 256"
    unfolding push_bit_eq_mult unat_word_ariths m by simp
  have "unat a mod 256 + unat b mod 256 * 256 < 4294967296" using l by linarith
  then show ?thesis unfolding byte_pair using m p by (subst unat_plus_no_wrap) simp_all
qed

lemma swap_bytes:
  fixes x :: u32
  assumes "unat x \<le> 65535"
  shows "unat ((drop_bit 8 x AND 0xff) OR (push_bit 8 x AND 0xff00)) = ones (256 * unat x)"
proof -
  have p: "push_bit 8 x AND 0xff00 = push_bit 8 (x AND 0xff)" by (simp add: push_bit_and)
  have q: "unat (drop_bit 8 x) = unat x div 256" unfolding unat_drop_bit_eq by (simp add: drop_bit_eq_div)
  have u: "unat ((drop_bit 8 x AND 0xff) OR (push_bit 8 x AND 0xff00)) = unat x div 256 mod 256 + 256 * (unat x mod 256)"
    unfolding p unat_byte_pair q ..
  define h where "h = unat x div 256"
  define l where "l = unat x mod 256"
  have x: "unat x = 256 * h + l" by (simp add: h_def l_def)
  have hl: "h < 256" "l < 256" using assms by (simp_all add: h_def l_def)
  then have small: "h + 256 * l \<le> 65535" by linarith
  have "256 * unat x = (h + 256 * l) + 65535 * h" unfolding x by simp
  then have "256 * unat x mod 65535 = (h + 256 * l) mod 65535" by (simp only: mod_mult_self2)
  moreover have "256 * unat x = 0 \<longleftrightarrow> h + 256 * l = 0" unfolding x by simp
  ultimately have "ones (256 * unat x) = ones (h + 256 * l)" by (simp only: ones_cong simp_thms)
  then show ?thesis unfolding u using small hl by (simp add: ones_id flip: h_def l_def)
qed

lemma compute_spec: "unat (compute_ip_checksum bs) = 65535 - ones (weight 0 bs)"
proof -
  define sm where "sm = checksum_loop 0 bs 0"
  have s: "unat sm = ones (weight 0 bs)" unfolding sm_def using checksum_loop_spec [of 0 0 bs] by simp
  have "unat ((sm AND 0xff) OR push_bit 8 (drop_bit 8 sm AND 0xff)) = unat sm mod 256 + 256 * (unat (drop_bit 8 sm) mod 256)"
    by (rule unat_byte_pair)
  also have "unat (drop_bit 8 sm) = unat sm div 256" unfolding unat_drop_bit_eq by (simp add: drop_bit_eq_div)
  also have "unat sm div 256 mod 256 = unat sm div 256" using s ones_le [of "weight 0 bs"] by (intro mod_less) simp
  finally have w: "unat ((sm AND 0xff) OR push_bit 8 (drop_bit 8 sm AND 0xff)) = unat sm" by simp
  have "unat sm mod 65536 = unat sm" using s ones_le [of "weight 0 bs"] by simp
  then show ?thesis unfolding compute_ip_checksum_def Let_def sm_def [symmetric] complement_16 w by (simp add: s)
qed

section \<open>Properties\<close>

lemma complement_sum: "unat (NOT (compute_ip_checksum a) AND 0xFFFF) = ones (weight 0 a)"
  using ones_le [of "weight 0 a"] unfolding complement_16 compute_spec by simp

lemma word_odd: "(word_of_nat n :: u32) AND 1 \<noteq> 0 \<longleftrightarrow> odd n"
  by (simp only: and_one_eq even_iff_mod_2_eq_zero [symmetric] even_of_nat_iff)

text \<open>The sum of a block moved to an offset: its bytes are swapped when the offset is odd.\<close>

lemma moved_sum:
  fixes n :: u32
  assumes "unat n = ones (weight 0 b)"
  shows "unat (if (word_of_nat off :: u32) AND 1 \<noteq> 0
    then (drop_bit 8 n AND 0xff) OR (push_bit 8 n AND 0xff00) else n) = ones (weight off b)"
proof (cases "odd off")
  case True
  have "unat ((drop_bit 8 n AND 0xff) OR (push_bit 8 n AND 0xff00)) = ones (256 * unat n)"
    using swap_bytes [of n] assms ones_le by simp
  also have "256 * ones (weight 0 b) mod 65535 = 256 * weight 0 b mod 65535"
    by (metis mod_mult_right_eq ones_mod(1))
  then have "ones (256 * unat n) = ones (256 * weight 0 b)"
    unfolding assms by (simp add: ones_cong ones_mod(2))
  also have "\<dots> = ones (weight 1 b)" using weight_swap [of 0 b] by simp
  also have "weight 1 b = weight off b" using True by (intro weight_parity) simp
  finally show ?thesis using True by (simp only: word_odd if_True simp_thms)
next
  case False
  then have "weight 0 b = weight off b" by (intro weight_parity) simp
  then show ?thesis using False assms by (simp only: word_odd if_False simp_thms)
qed

lemma carried_sum:
  fixes s n :: u32
  assumes "unat s \<le> 65535" "unat n \<le> 65535"
  shows "unat (if s + n > 0xFFFF then s + n - 0xFFFF else s + n) = ones (unat s + unat n)"
proof -
  have sn: "unat (s + n) = unat s + unat n" using assms by (subst unat_plus_no_wrap) simp_all
  show ?thesis
  proof (cases "s + n > 0xFFFF")
    case True
    then have "65535 < unat s + unat n" using sn by (simp add: word_less_nat_alt)
    moreover have "unat (s + n - 0xFFFF) = unat (s + n) - 65535" using True by (simp add: unat_minus_no_wrap)
    ultimately show ?thesis using True sn assms by (simp add: ones_step)
  next
    case False
    then show ?thesis using sn by (simp add: word_less_nat_alt ones_id)
  qed
qed

text \<open>
  C40. The checksum of two blocks one after the other is the combination of their checksums at
  the offset of the second, whether that offset is even or odd.
\<close>

theorem add_ip_checksums_append:
  "compute_ip_checksum (a @ b) =
     add_ip_checksums (word_of_nat (length a)) (compute_ip_checksum a) (compute_ip_checksum b)"
proof -
  define s where "s = NOT (compute_ip_checksum a) AND 0xFFFF"
  define n where "n = NOT (compute_ip_checksum b) AND 0xFFFF"
  define n' where "n' = (if (word_of_nat (length a) :: u32) AND 1 \<noteq> 0
    then (drop_bit 8 n AND 0xff) OR (push_bit 8 n AND 0xff00) else n)"
  define c where "c = (if s + n' > 0xFFFF then s + n' - 0xFFFF else s + n')"
  have s: "unat s = ones (weight 0 a)" unfolding s_def by (rule complement_sum)
  have n: "unat n' = ones (weight (length a) b)"
    unfolding n'_def by (rule moved_sum) (simp add: n_def complement_sum)
  have "unat c = ones (unat s + unat n')"
    unfolding c_def by (rule carried_sum) (simp_all add: s n ones_le)
  then have "unat c = ones (weight 0 (a @ b))"
    unfolding s n weight_append using ones_add by (metis add.commute add_0)
  then have "unat (NOT c AND 0xFFFF) = unat (compute_ip_checksum (a @ b))"
    unfolding complement_16 compute_spec using ones_le [of "weight 0 (a @ b)"] by simp
  moreover have "add_ip_checksums (word_of_nat (length a)) (compute_ip_checksum a) (compute_ip_checksum b) = NOT c AND 0xFFFF"
    by (simp only: add_ip_checksums_def Let_def s_def [symmetric] n_def [symmetric] n'_def [symmetric] c_def [symmetric])
  ultimately show ?thesis by (metis word_unat_eq_iff)
qed

end
