(* ===== verification/Region_File.thy ===== *)
theory Region_File
  imports Region "HOL-Library.Monad_Syntax"
begin

text \<open>
  Region files, \<^verbatim>\<open>src/coreboot/src/lib/region_file.c\<close>: successive versions of a blob are
  appended to a region device; metadata blocks at its start hold, for every version, the
  number of the 16-byte block behind it. The devices are those of \<open>Region\<close>; the blocks and
  slots keep the widths of the code (\<open>uint16_t\<close> and \<open>int\<close>).
\<close>

section \<open>Data\<close>

definition REGF_BLOCK_SHIFT :: nat where "REGF_BLOCK_SHIFT = 4"
definition REGF_BLOCK_GRANULARITY :: size_t where "REGF_BLOCK_GRANULARITY = push_bit REGF_BLOCK_SHIFT 1"
definition REGF_METADATA_BLOCK_SIZE :: size_t where "REGF_METADATA_BLOCK_SIZE = REGF_BLOCK_GRANULARITY"
definition REGF_UNALLOCATED_BLOCK :: u16 where "REGF_UNALLOCATED_BLOCK = 0xffff"
definition REGF_UPDATES_PER_METADATA_BLOCK :: size_t where
  "REGF_UPDATES_PER_METADATA_BLOCK = REGF_METADATA_BLOCK_SIZE div 2"

definition RF_ONLY_METADATA :: int where "RF_ONLY_METADATA = 0"
definition RF_EMPTY :: int where "RF_EMPTY = - 1"
definition RF_NEED_TO_EMPTY :: int where "RF_NEED_TO_EMPTY = - 2"
definition RF_FATAL :: int where "RF_FATAL = - 3"

text \<open>
  A metadata block is the list of its eight offsets. A device that \<open>memset\<close> has cleared and
  nothing has set yet is \<open>None\<close>: its size is 0, so it refuses every access of some bytes.
\<close>

type_synonym metadata_block = "u16 list"

record region_file =
  rf_rdev :: "region_device option"
  rf_metadata :: "region_device option"
  data_begin :: u16
  data_end :: u16
  slot :: int

text \<open>The bytes of \<open>uint16_t\<close> values in memory, low byte first.\<close>

fun le16s :: "u8 list \<Rightarrow> u16 list" where
  "le16s (a # b # bs) = (ucast a OR push_bit 8 (ucast b)) # le16s bs"
| "le16s _ = []"

definition le16_bytes :: "u16 \<Rightarrow> u8 list" where
  "le16_bytes v = [ucast v, ucast (drop_bit 8 v)]"

definition dev_sz :: "region_device option \<Rightarrow> size_t" where
  "dev_sz rd = (case rd of None \<Rightarrow> 0 | Some rd \<Rightarrow> region_device_sz rd)"

definition dev_chain :: "region_device option \<Rightarrow> size_t \<Rightarrow> size_t \<Rightarrow> region_device option" where
  "dev_chain rd off s = Option.bind rd (\<lambda>rd. rdev_chain rd off s)"

definition dev_readat ::
    "'h driver \<Rightarrow> 'h world \<Rightarrow> region_device option \<Rightarrow> size_t \<Rightarrow> size_t \<Rightarrow> ssize_t \<times> u8 list" where
  "dev_readat D w rd off s = (case rd of None \<Rightarrow> (-1, []) | Some rd \<Rightarrow> rdev_readat D w rd off s)"

definition dev_writeat ::
    "'h driver \<Rightarrow> region_device option \<Rightarrow> u8 list \<Rightarrow> size_t \<Rightarrow> size_t \<Rightarrow> 'h world \<Rightarrow> ssize_t \<times> 'h world" where
  "dev_writeat D rd b off s w = (case rd of None \<Rightarrow> (-1, w) | Some rd \<Rightarrow> rdev_writeat D rd b off s w)"

definition dev_eraseat ::
    "'h driver \<Rightarrow> region_device option \<Rightarrow> size_t \<Rightarrow> size_t \<Rightarrow> 'h world \<Rightarrow> ssize_t \<times> 'h world" where
  "dev_eraseat D rd off s w = (case rd of None \<Rightarrow> (-1, w) | Some rd \<Rightarrow> rdev_eraseat D rd off s w)"

section \<open>Blocks\<close>

definition block_to_bytes :: "u16 \<Rightarrow> size_t" where
  "block_to_bytes off = push_bit REGF_BLOCK_SHIFT (ucast off)"

definition bytes_to_block :: "size_t \<Rightarrow> size_t" where
  "bytes_to_block bytes = drop_bit REGF_BLOCK_SHIFT bytes"

definition block_offset_unallocated :: "u16 \<Rightarrow> bool" where
  "block_offset_unallocated off \<longleftrightarrow> off = REGF_UNALLOCATED_BLOCK"

definition region_file_data_begin :: "region_file \<Rightarrow> size_t" where
  "region_file_data_begin f = ucast (data_begin f)"

definition region_file_data_end :: "region_file \<Rightarrow> size_t" where
  "region_file_data_end f = ucast (data_end f)"

fun all_block_offsets_unallocated :: "metadata_block \<Rightarrow> bool" where
  "all_block_offsets_unallocated [] = True"
| "all_block_offsets_unallocated (b # bs) =
     (if \<not> block_offset_unallocated b then False else all_block_offsets_unallocated bs)"

section \<open>Finding the latest update\<close>

text \<open>\<open>None\<close> is the failing read.\<close>

definition read_mb :: "'h driver \<Rightarrow> 'h world \<Rightarrow> nat \<Rightarrow> region_file \<Rightarrow> metadata_block option" where
  "read_mb D w i f =
     (let off = block_to_bytes (word_of_nat i)
      in case dev_readat D w (rf_metadata f) off 16 of (r, bs) \<Rightarrow>
           if negative r then None else Some (le16s bs))"

text \<open>The two bounds start at 0 and at a 16-bit number, so their sum never wraps.\<close>

function find_latest_mb_loop :: "'h driver \<Rightarrow> 'h world \<Rightarrow> region_file \<Rightarrow> nat \<Rightarrow> nat \<Rightarrow> nat option" where
  "find_latest_mb_loop D w f l r =
     (if l + 1 < r then
        let mid = (l + r) div 2
        in case read_mb D w mid f of
             None \<Rightarrow> None
           | Some mb \<Rightarrow>
               if all_block_offsets_unallocated mb then find_latest_mb_loop D w f l mid
               else find_latest_mb_loop D w f mid r
      else Some l)"
  by pat_completeness auto

termination
  by (relation "measure (\<lambda>(D, w, f, l, r). r - l)") auto

declare find_latest_mb_loop.simps [simp del]

definition find_latest_mb ::
    "'h driver \<Rightarrow> 'h world \<Rightarrow> u16 \<Rightarrow> region_file \<Rightarrow> (metadata_block \<times> region_file) option" where
  "find_latest_mb D w num_mb_blocks f = do {
     l \<leftarrow> find_latest_mb_loop D w f 0 (unat num_mb_blocks);
     let f = f\<lparr>slot := int l * sint REGF_UPDATES_PER_METADATA_BLOCK\<rparr>;
     mb \<leftarrow> read_mb D w l f;
     Some (mb, f)
   }"

fun latest_slot_loop :: "metadata_block \<Rightarrow> nat \<Rightarrow> nat" where
  "latest_slot_loop mb 0 = 0"
| "latest_slot_loop mb (Suc i) =
     (if \<not> block_offset_unallocated (mb ! Suc i) then Suc i else latest_slot_loop mb i)"

definition find_latest_slot :: "metadata_block \<Rightarrow> region_file \<Rightarrow> region_file" where
  "find_latest_slot mb f =
     f\<lparr>slot := slot f + int (latest_slot_loop mb (unat REGF_UPDATES_PER_METADATA_BLOCK - 1))\<rparr>"

text \<open>Again \<open>None\<close> is the error; otherwise the file is returned with its boundaries.\<close>

definition fill_data_boundaries :: "'h driver \<Rightarrow> 'h world \<Rightarrow> region_file \<Rightarrow> region_file option" where
  "fill_data_boundaries D w f =
     (if slot f = RF_ONLY_METADATA then
        let start = bytes_to_block (dev_sz (rf_metadata f))
        in Some (f\<lparr>data_begin := ucast start, data_end := ucast start\<rparr>)
      else
        let off = word_of_int (slot f - 1) * 2
        in case dev_chain (rf_metadata f) off 4 of
             None \<Rightarrow> Some (f\<lparr>slot := RF_NEED_TO_EMPTY\<rparr>)
           | Some slots \<Rightarrow>
               (case rdev_readat D w slots 0 4 of (r, bs) \<Rightarrow>
                  if negative r then None
                  else let f = f\<lparr>data_begin := le16s bs ! 0, data_end := le16s bs ! 1\<rparr>
                    in if region_file_data_begin f \<ge> region_file_data_end f
                       then Some (f\<lparr>slot := RF_NEED_TO_EMPTY\<rparr>)
                       else if region_file_data_end f > bytes_to_block (dev_sz (rf_rdev f))
                       then Some (f\<lparr>slot := RF_NEED_TO_EMPTY\<rparr>)
                       else Some f))"

text \<open>The result code and the file, which is filled in also when the code fails.\<close>

definition region_file_init :: "'h driver \<Rightarrow> 'h world \<Rightarrow> region_device \<Rightarrow> int \<times> region_file" where
  "region_file_init D w p =
     (let f = \<lparr>rf_rdev = None, rf_metadata = None, data_begin = 0, data_end = 0, slot = RF_FATAL\<rparr>
      in case rdev_chain p 0 (region_device_sz p) of
           None \<Rightarrow> (- 1, f)
         | Some rd \<Rightarrow>
             let f = f\<lparr>rf_rdev := Some rd\<rparr>
             in case rdev_readat D w p 0 16 of (r, bs) \<Rightarrow>
                  if negative r then (- 1, f)
                  else let mb = le16s bs
                    in if block_offset_unallocated (mb ! 0) then (0, f\<lparr>slot := RF_EMPTY\<rparr>)
                       else if mb ! 0 = 0 then (0, f\<lparr>slot := RF_NEED_TO_EMPTY\<rparr>)
                       else case rdev_chain p 0 (block_to_bytes (mb ! 0)) of
                           None \<Rightarrow> (0, f\<lparr>slot := RF_NEED_TO_EMPTY\<rparr>)
                         | Some md \<Rightarrow>
                             let f = f\<lparr>rf_metadata := Some md\<rparr>
                             in case find_latest_mb D w (mb ! 0) f of
                                  None \<Rightarrow> (- 1, f\<lparr>slot := RF_FATAL\<rparr>)
                                | Some (mb, f) \<Rightarrow>
                                    let f = find_latest_slot mb f
                                    in case fill_data_boundaries D w f of
                                         None \<Rightarrow> (- 1, f\<lparr>slot := RF_FATAL\<rparr>)
                                       | Some f \<Rightarrow> (0, f))"

text \<open>\<open>None\<close> stands for the result - 1.\<close>

definition region_file_data :: "region_file \<Rightarrow> region_device option" where
  "region_file_data f =
     (if slot f \<le> RF_ONLY_METADATA then None
      else let off = block_to_bytes (data_begin f);
               len = block_to_bytes (data_end f) - off
           in dev_chain (rf_rdev f) off len)"

section \<open>Updating\<close>

definition allocate_metadata ::
    "'h driver \<Rightarrow> size_t \<Rightarrow> region_file \<Rightarrow> 'h world \<Rightarrow> int \<times> region_file \<times> 'h world" where
  "allocate_metadata D data_blks f w =
     (let a = REGF_UPDATES_PER_METADATA_BLOCK;
          d = data_blks;
          t = bytes_to_block (ALIGN_DOWN (dev_sz (rf_rdev f)) REGF_BLOCK_GRANULARITY);
          m = bytes_to_block (ALIGN_UP REGF_METADATA_BLOCK_SIZE REGF_BLOCK_GRANULARITY)
      in if d > t - m then (- 1, f, w)
         else
           let x = ALIGN_UP (t * a div (d * a + m)) a;
               x = (if x = 0 then 1 else x);
               y = ALIGN_UP x a div a;
               tot_metadata = (ucast (m * y) :: u16)
           in case dev_writeat D (rf_rdev f) (le16_bytes tot_metadata) 0 2 w of (r, w) \<Rightarrow>
                if negative r then (- 1, f, w)
                else case dev_chain (rf_rdev f) 0 (block_to_bytes tot_metadata) of
                    None \<Rightarrow> (- 1, f, w)
                  | Some md \<Rightarrow>
                      (0, f\<lparr>rf_metadata := Some md, data_begin := tot_metadata, data_end := tot_metadata\<rparr>, w))"

definition update_can_fit :: "region_file \<Rightarrow> size_t \<Rightarrow> bool" where
  "update_can_fit f data_blks =
     (let metadata_slots = dev_sz (rf_metadata f) div 2
      in if word_of_int (slot f) + 1 \<ge> metadata_slots then False
         else
           let end_blk = data_blks + region_file_data_end f
           in if end_blk \<ge> ucast REGF_UNALLOCATED_BLOCK then False
              else if end_blk > bytes_to_block (dev_sz (rf_rdev f)) then False
              else True)"

definition commit_data_allocation ::
    "'h driver \<Rightarrow> size_t \<Rightarrow> region_file \<Rightarrow> 'h world \<Rightarrow> int \<times> region_file \<times> 'h world" where
  "commit_data_allocation D data_blks f w =
     (let f = f\<lparr>slot := slot f + 1\<rparr>;
          off = word_of_int (slot f) * 2;
          f = f\<lparr>data_begin := ucast (region_file_data_end f)\<rparr>;
          f = f\<lparr>data_end := ucast (region_file_data_begin f + data_blks)\<rparr>
      in case dev_writeat D (rf_metadata f) (le16_bytes (data_end f)) off 2 w of (r, w) \<Rightarrow>
           if negative r then (- 1, f, w) else (0, f, w))"

definition commit_data ::
    "'h driver \<Rightarrow> region_file \<Rightarrow> u8 list \<Rightarrow> size_t \<Rightarrow> 'h world \<Rightarrow> int \<times> 'h world" where
  "commit_data D f buf sz w =
     (let off = block_to_bytes (ucast (region_file_data_begin f))
      in case dev_writeat D (rf_rdev f) buf off sz w of (r, w) \<Rightarrow>
           if negative r then (- 1, w) else (0, w))"

definition handle_empty ::
    "'h driver \<Rightarrow> size_t \<Rightarrow> region_file \<Rightarrow> 'h world \<Rightarrow> int \<times> region_file \<times> 'h world" where
  "handle_empty D data_blks f w =
     (case allocate_metadata D data_blks f w of (ret, f, w) \<Rightarrow>
        if ret \<noteq> 0 then (- 1, f, w) else (0, f\<lparr>slot := RF_ONLY_METADATA\<rparr>, w))"

definition handle_need_to_empty ::
    "'h driver \<Rightarrow> region_file \<Rightarrow> 'h world \<Rightarrow> int \<times> region_file \<times> 'h world" where
  "handle_need_to_empty D f w =
     (case dev_eraseat D (rf_rdev f) 0 (dev_sz (rf_rdev f)) w of (r, w) \<Rightarrow>
        if negative r then (- 1, f, w) else (0, f\<lparr>slot := RF_EMPTY\<rparr>, w))"

definition handle_update ::
    "'h driver \<Rightarrow> size_t \<Rightarrow> u8 list \<Rightarrow> size_t \<Rightarrow> region_file \<Rightarrow> 'h world \<Rightarrow> int \<times> region_file \<times> 'h world" where
  "handle_update D blocks buf sz f w =
     (if \<not> update_can_fit f blocks then (0, f\<lparr>slot := RF_NEED_TO_EMPTY\<rparr>, w)
      else case commit_data_allocation D blocks f w of (ret, f, w) \<Rightarrow>
        if ret \<noteq> 0 then (- 1, f, w)
        else case commit_data D f buf sz w of (ret, w) \<Rightarrow>
          if ret \<noteq> 0 then (- 1, f, w) else (0, f, w))"

text \<open>One turn of the loop: the result, the file and the state.\<close>

definition update_turn ::
    "'h driver \<Rightarrow> size_t \<Rightarrow> u8 list \<Rightarrow> size_t \<Rightarrow> region_file \<Rightarrow> 'h world \<Rightarrow> int \<times> region_file \<times> 'h world" where
  "update_turn D blocks buf sz f w =
     (if slot f = RF_EMPTY then handle_empty D blocks f w
      else if slot f = RF_NEED_TO_EMPTY then handle_need_to_empty D f w
      else if slot f = RF_FATAL then (- 1, f, w)
      else handle_update D blocks buf sz f w)"

partial_function (option) update_loop ::
    "'h driver \<Rightarrow> size_t \<Rightarrow> u8 list \<Rightarrow> size_t \<Rightarrow> region_file \<Rightarrow> 'h world \<Rightarrow> (int \<times> region_file \<times> 'h world) option" where
  "update_loop D blocks buf sz f w =
     (case update_turn D blocks buf sz f w of (ret, f', w') \<Rightarrow>
        if ret \<noteq> 0 then Some (ret, f'\<lparr>slot := RF_FATAL\<rparr>, w')
        else if slot f' > RF_ONLY_METADATA \<and> slot f \<noteq> slot f' then Some (ret, f', w')
        else update_loop D blocks buf sz f' w')"

declare update_loop.simps [code]

definition region_file_update_data ::
    "'h driver \<Rightarrow> u8 list \<Rightarrow> size_t \<Rightarrow> region_file \<Rightarrow> 'h world \<Rightarrow> (int \<times> region_file \<times> 'h world) option" where
  "region_file_update_data D buf sz f w =
     (let blocks = bytes_to_block (ALIGN_UP sz REGF_BLOCK_GRANULARITY)
      in update_loop D blocks buf sz f w)"

end
