(* ===== verification/Region_File_Spec.thy ===== *)
theory Region_File_Spec
  imports Region_File
begin

text \<open>
  A region file on flash memory: what a region holds after any history of updates and
  restarts, and that the file always leads to the latest version.
\<close>

section \<open>Bytes and blocks\<close>

lemma regf_consts [simp]:
  "REGF_BLOCK_SHIFT = 4" "REGF_BLOCK_GRANULARITY = 16" "REGF_METADATA_BLOCK_SIZE = 16"
  "REGF_UPDATES_PER_METADATA_BLOCK = 8" "REGF_UNALLOCATED_BLOCK = 0xffff"
  "RF_ONLY_METADATA = 0" "RF_EMPTY = - 1" "RF_NEED_TO_EMPTY = - 2" "RF_FATAL = - 3"
  by (simp_all add: REGF_BLOCK_SHIFT_def REGF_BLOCK_GRANULARITY_def REGF_METADATA_BLOCK_SIZE_def
    REGF_UPDATES_PER_METADATA_BLOCK_def REGF_UNALLOCATED_BLOCK_def
    RF_ONLY_METADATA_def RF_EMPTY_def RF_NEED_TO_EMPTY_def RF_FATAL_def)

definition le16 :: "u8 \<Rightarrow> u8 \<Rightarrow> u16" where
  "le16 a b = ucast a OR push_bit 8 (ucast b)"

lemma le16s_pair [simp]: "le16s (a # b # bs) = le16 a b # le16s bs"
  by (simp add: le16_def)

declare le16s.simps(1) [simp del]

lemma le16_bytes: "le16_bytes v = [a, b] \<Longrightarrow> le16 a b = v"
proof -
  assume "le16_bytes v = [a, b]"
  then have ab: "a = ucast v" "b = ucast (drop_bit 8 v)" by (simp_all add: le16_bytes_def)
  show ?thesis
    unfolding le16_def ab by (rule bit_eqI) (auto simp: bit_simps)
qed

lemma le16_ff [simp]: "le16 0xff 0xff = 0xffff"
  by (simp add: le16_def push_bit_eq_mult)

lemma le16s_map:
  "le16s (map g [2 * a..<2 * a + 2 * n]) = map (\<lambda>j. le16 (g (2 * j)) (g (2 * j + 1))) [a..<a + n]"
proof (induction n arbitrary: a)
  case (Suc n)
  have "[2 * a..<2 * a + 2 * Suc n] = 2 * a # (2 * a + 1) # [2 * Suc a..<2 * Suc a + 2 * n]"
    by (simp add: upt_conv_Cons)
  moreover have "[a..<a + Suc n] = a # [Suc a..<Suc a + n]" by (simp add: upt_conv_Cons del: upt_Suc)
  ultimately show ?case using Suc [of "Suc a"] by (simp del: upt_Suc)
qed simp

lemma unat_block_to_bytes: "unat (block_to_bytes b) = unat b * 16"
proof -
  have b: "unat b < 65536" by (rule unat_lt_2p16)
  have "unat b < 4294967296" using b by linarith
  then have "unat (ucast b :: u32) = unat b" by (intro unat_ucast_small) simp
  moreover have "unat b * 16 mod 4294967296 = unat b * 16" by (rule mod_less) (use b in linarith)
  ultimately show ?thesis by (simp add: block_to_bytes_def push_bit_eq_mult unat_word_ariths)
qed

lemma unat_bytes_to_block: "unat (bytes_to_block s) = unat s div 16"
  by (simp add: bytes_to_block_def drop_bit_eq_div unat_div_distrib)

lemma block_of: "n < 65536 \<Longrightarrow> unat (word_of_nat n :: u16) = n"
  by (simp add: unat_of_nat)

lemma all_unallocated: "all_block_offsets_unallocated mb \<longleftrightarrow> (\<forall>b \<in> set mb. b = 0xffff)"
  by (induction mb) (auto simp: block_offset_unallocated_def)

section \<open>Flash memory\<close>

text \<open>
  A driver for flash memory as its data sheet describes it: reading delivers the cells,
  programming can only clear bits, erasing sets them.
\<close>

definition flash_driver :: "'h driver \<Rightarrow> nat \<Rightarrow> ('h \<Rightarrow> nat \<Rightarrow> u8) \<Rightarrow> nat \<Rightarrow> bool" where
  "flash_driver D d cells cap \<longleftrightarrow>
     (\<forall>h off s. unat off + unat s \<le> cap \<longrightarrow>
        drv_readat D d off s h = (s, map (\<lambda>i. cells h (unat off + i)) [0..<unat s])) \<and>
     (\<forall>h b off s. unat off + unat s \<le> cap \<longrightarrow> unat s \<le> length b \<longrightarrow>
        (\<exists>h'. drv_writeat D d b off s h = (s, h') \<and>
          (\<forall>i. cells h' i = (if unat off \<le> i \<and> i < unat off + unat s then cells h i AND b ! (i - unat off) else cells h i)))) \<and>
     (\<forall>h off s. unat off + unat s \<le> cap \<longrightarrow>
        (\<exists>h'. drv_eraseat D d off s h = (s, h') \<and>
          (\<forall>i. cells h' i = (if unat off \<le> i \<and> i < unat off + unat s then 0xff else cells h i))))"

text \<open>A region of at most 1 MiB on such a driver.\<close>

definition flash_region :: "'h driver \<Rightarrow> nat \<Rightarrow> ('h \<Rightarrow> nat \<Rightarrow> u8) \<Rightarrow> region_device \<Rightarrow> bool" where
  "flash_region D d cells p \<longleftrightarrow>
     (\<exists>pid. root_ops (rdev_root p) = DriverOps d pid True True) \<and>
     unat (region_device_offset p) + unat (region_device_sz p) < 2147483648 \<and>
     unat (region_device_sz p) \<le> 1048576 \<and>
     flash_driver D d cells (unat (region_device_offset p) + unat (region_device_sz p))"

definition flash_byte :: "('h \<Rightarrow> nat \<Rightarrow> u8) \<Rightarrow> region_device \<Rightarrow> 'h world \<Rightarrow> nat \<Rightarrow> u8" where
  "flash_byte cells p w i = cells (hw w) (unat (region_device_offset p) + i)"

definition window :: "region_device \<Rightarrow> nat \<Rightarrow> nat \<Rightarrow> region_device" where
  "window p off n = ChainedDev (rdev_root p) (mk_region (region_device_offset p + word_of_nat off) (word_of_nat n))"

lemma window_region [simp]:
  "rdev_root (window p off n) = rdev_root p"
  "region_device_region (window p off n) = mk_region (region_device_offset p + word_of_nat off) (word_of_nat n)"
  "region_device_sz (window p off n) = word_of_nat n"
  "region_device_offset (window p off n) = region_device_offset p + word_of_nat off"
  by (simp_all add: window_def region_device_sz_def region_device_offset_def)

lemma unat_offset:
  "n < 2147483648 \<Longrightarrow> unat (word_of_nat n :: u32) = n"
  "unat x + n < 4294967296 \<Longrightarrow> unat (x + word_of_nat n :: u32) = unat x + n"
  by (simp_all add: unat_of_nat unat_word_ariths)

text \<open>The checks of an access to a window inside the region.\<close>

lemma window_check:
  assumes "unat (region_device_offset p) + unat (region_device_sz p) < 2147483648"
    "off + n \<le> unat (region_device_sz p)" "unat o1 < 16777216" "unat s < 16777216"
  shows "normalize_and_ok (mk_region (region_device_offset p + word_of_nat off) (word_of_nat n)) (mk_region o1 s) =
    (unat o1 + unat s \<le> n, mk_region (o1 + (region_device_offset p + word_of_nat off)) s)"
proof -
  have n: "unat (word_of_nat n :: u32) = n" using assms by (intro unat_offset) linarith
  have o: "unat (region_device_offset p + word_of_nat off) = unat (region_device_offset p) + off"
    using assms by (intro unat_offset) linarith
  have "region_ok (mk_region (region_device_offset p + word_of_nat off) (word_of_nat n))"
    using n o assms by (simp add: region_ok_def)
  from normalize_and_ok_eq [OF this, of o1 s] show ?thesis using n o assms by simp
qed

lemma whole_window:
  "region_device_region p = mk_region (region_device_offset p + word_of_nat 0) (word_of_nat (unat (region_device_sz p)))"
  by (simp add: region_device_offset_def region_device_sz_def)

lemma whole_access:
  "rdev_readat D w p o1 s = rdev_readat D w (window p 0 (unat (region_device_sz p))) o1 s"
  "rdev_chain p o1 s = rdev_chain (window p 0 (unat (region_device_sz p))) o1 s"
  using whole_window [of p] by (simp_all add: rdev_chain_def rdev_readat.simps split: prod.split)

lemma flash_regionD:
  assumes "flash_region D d cells p"
  shows "\<exists>pid. root_ops (rdev_root p) = DriverOps d pid True True"
    "unat (region_device_offset p) + unat (region_device_sz p) < 2147483648" "unat (region_device_sz p) \<le> 1048576"
    "flash_driver D d cells (unat (region_device_offset p) + unat (region_device_sz p))"
  using assms by (simp_all add: flash_region_def)

lemma window_chain:
  assumes "flash_region D d cells p" "off + n \<le> unat (region_device_sz p)" "unat o1 < 16777216" "unat s < 16777216"
  shows "rdev_chain (window p off n) o1 s = (if unat o1 + unat s \<le> n then Some (window p (off + unat o1) (unat s)) else None)"
  using window_check [OF flash_regionD(2) [OF assms(1)] assms(2-4)]
  by (simp add: rdev_chain_def) (simp add: window_def)

lemma window_position:
  assumes "flash_region D d cells p" "off + n \<le> unat (region_device_sz p)" "unat o1 + unat s \<le> n"
  shows "unat (o1 + (region_device_offset p + word_of_nat off)) = unat (region_device_offset p) + (off + unat o1)"
    "unat o1 < 16777216" "unat s < 16777216"
proof -
  note fr = flash_regionD [OF assms(1)]
  have e: "o1 + (region_device_offset p + word_of_nat off) = region_device_offset p + word_of_nat (off + unat o1)"
    by simp
  show "unat (o1 + (region_device_offset p + word_of_nat off)) = unat (region_device_offset p) + (off + unat o1)"
    unfolding e by (rule unat_offset(2)) (use assms(2,3) fr in linarith)
  show "unat o1 < 16777216" "unat s < 16777216" using assms(2,3) fr(3) by linarith+
qed

lemma window_read:
  assumes "flash_region D d cells p" "off + n \<le> unat (region_device_sz p)" "unat o1 + unat s \<le> n"
  shows "rdev_readat D w (window p off n) o1 s = (s, map (\<lambda>i. flash_byte cells p w (off + unat o1 + i)) [0..<unat s])"
proof -
  note fr = flash_regionD [OF assms(1)]
  note pos = window_position [OF assms]
  obtain pid where ops: "root_ops (rdev_root p) = DriverOps d pid True True" using fr(1) by blast
  have "unat (o1 + (region_device_offset p + word_of_nat off)) + unat s \<le> unat (region_device_offset p) + unat (region_device_sz p)"
    unfolding pos(1) using assms(2,3) by linarith
  then have "drv_readat D d (o1 + (region_device_offset p + word_of_nat off)) s (hw w) =
      (s, map (\<lambda>i. cells (hw w) (unat (region_device_offset p) + (off + unat o1) + i)) [0..<unat s])"
    using fr(4) unfolding flash_driver_def pos(1) [symmetric] by blast
  then show ?thesis
    using window_check [OF fr(2) assms(2) pos(2,3)] assms(3) ops by (simp add: flash_byte_def add.assoc rdev_readat.simps)
qed

lemma window_write:
  assumes "flash_region D d cells p" "off + n \<le> unat (region_device_sz p)" "unat o1 + unat s \<le> n" "unat s \<le> length b"
  shows "\<exists>w'. rdev_writeat D (window p off n) b o1 s w = (s, w') \<and>
    (\<forall>i. flash_byte cells p w' i = (if off + unat o1 \<le> i \<and> i < off + unat o1 + unat s
       then flash_byte cells p w i AND b ! (i - (off + unat o1)) else flash_byte cells p w i))"
proof -
  note fr = flash_regionD [OF assms(1)]
  note pos = window_position [OF assms(1-3)]
  obtain pid where ops: "root_ops (rdev_root p) = DriverOps d pid True True" using fr(1) by blast
  let ?o = "o1 + (region_device_offset p + word_of_nat off)"
  have "unat ?o + unat s \<le> unat (region_device_offset p) + unat (region_device_sz p)"
    unfolding pos(1) using assms(2,3) by linarith
  then obtain h' where h: "drv_writeat D d b ?o s (hw w) = (s, h')"
    "\<forall>i. cells h' i = (if unat ?o \<le> i \<and> i < unat ?o + unat s then cells (hw w) i AND b ! (i - unat ?o) else cells (hw w) i)"
    using fr(4) assms(4) unfolding flash_driver_def by blast
  have "rdev_writeat D (window p off n) b o1 s w = (s, w\<lparr>hw := h'\<rparr>)"
    using window_check [OF fr(2) assms(2) pos(2,3)] assms(3) ops h(1) by (simp add: rdev_writeat.simps)
  moreover have "\<forall>i. flash_byte cells p (w\<lparr>hw := h'\<rparr>) i = (if off + unat o1 \<le> i \<and> i < off + unat o1 + unat s
       then flash_byte cells p w i AND b ! (i - (off + unat o1)) else flash_byte cells p w i)"
    using h(2) unfolding flash_byte_def pos(1) by (auto simp: algebra_simps)
  ultimately show ?thesis by blast
qed

lemma window_erase:
  assumes "flash_region D d cells p" "off + n \<le> unat (region_device_sz p)" "unat o1 + unat s \<le> n"
  shows "\<exists>w'. rdev_eraseat D (window p off n) o1 s w = (s, w') \<and>
    (\<forall>i. flash_byte cells p w' i = (if off + unat o1 \<le> i \<and> i < off + unat o1 + unat s then 0xff else flash_byte cells p w i))"
proof -
  note fr = flash_regionD [OF assms(1)]
  note pos = window_position [OF assms(1-3)]
  obtain pid where ops: "root_ops (rdev_root p) = DriverOps d pid True True" using fr(1) by blast
  let ?o = "o1 + (region_device_offset p + word_of_nat off)"
  have "unat ?o + unat s \<le> unat (region_device_offset p) + unat (region_device_sz p)"
    unfolding pos(1) using assms(2,3) by linarith
  then obtain h' where h: "drv_eraseat D d ?o s (hw w) = (s, h')"
    "\<forall>i. cells h' i = (if unat ?o \<le> i \<and> i < unat ?o + unat s then 0xff else cells (hw w) i)"
    using fr(4) unfolding flash_driver_def by blast
  have "rdev_eraseat D (window p off n) o1 s w = (s, w\<lparr>hw := h'\<rparr>)"
    using window_check [OF fr(2) assms(2) pos(2,3)] assms(3) ops h(1) by (simp add: rdev_eraseat.simps)
  moreover have "\<forall>i. flash_byte cells p (w\<lparr>hw := h'\<rparr>) i =
      (if off + unat o1 \<le> i \<and> i < off + unat o1 + unat s then 0xff else flash_byte cells p w i)"
    using h(2) unfolding flash_byte_def pos(1) by (auto simp: algebra_simps)
  ultimately show ?thesis by blast
qed

lemma small_not_negative: "unat s \<le> 1048576 \<Longrightarrow> \<not> negative (s :: u32)"
  by (simp add: negative_iff)

section \<open>Half-words\<close>

definition flash_half :: "('h \<Rightarrow> nat \<Rightarrow> u8) \<Rightarrow> region_device \<Rightarrow> 'h world \<Rightarrow> nat \<Rightarrow> u16" where
  "flash_half cells p w j = le16 (flash_byte cells p w (2 * j)) (flash_byte cells p w (2 * j + 1))"

lemma read_halves:
  assumes "flash_region D d cells p" "off + n \<le> unat (region_device_sz p)" "unat o1 + unat s \<le> n"
    "off + unat o1 = 2 * a" "unat s = 2 * k"
  shows "\<exists>bs. rdev_readat D w (window p off n) o1 s = (s, bs) \<and> le16s bs = map (flash_half cells p w) [a..<a + k]"
proof -
  have "map (\<lambda>i. flash_byte cells p w (off + unat o1 + i)) [0..<unat s] = map (flash_byte cells p w) [2 * a..<2 * a + 2 * k]"
    unfolding assms(4,5) by (rule nth_equalityI) simp_all
  then show ?thesis
    using window_read [OF assms(1-3), of w] le16s_map [of "flash_byte cells p w" a k]
    by (simp add: flash_half_def [abs_def])
qed

lemma and_ff [simp]: "(0xff :: u8) AND x = x"
proof -
  have "(0xff :: u8) = - 1" by simp
  then show ?thesis by (simp only: and.left_neutral)
qed

text \<open>Programming a half-word of erased cells.\<close>

lemma write_half:
  assumes "flash_region D d cells p" "off + n \<le> unat (region_device_sz p)" "unat o1 + 2 \<le> n" "off + unat o1 = 2 * a"
    "flash_byte cells p w (2 * a) = 0xff" "flash_byte cells p w (2 * a + 1) = 0xff"
  shows "\<exists>w'. rdev_writeat D (window p off n) (le16_bytes v) o1 2 w = (2, w') \<and> flash_half cells p w' a = v \<and>
    (\<forall>i. i \<noteq> 2 * a \<longrightarrow> i \<noteq> 2 * a + 1 \<longrightarrow> flash_byte cells p w' i = flash_byte cells p w i)"
proof -
  have b: "le16_bytes v = [ucast v, ucast (drop_bit 8 v)]" by (simp add: le16_bytes_def)
  have fits: "unat o1 + unat (2 :: u32) \<le> n" "unat (2 :: u32) \<le> length (le16_bytes v)" using assms(3) by (simp_all add: b)
  obtain w' where w': "rdev_writeat D (window p off n) (le16_bytes v) o1 2 w = (2, w')"
    "\<forall>i. flash_byte cells p w' i = (if 2 * a \<le> i \<and> i < 2 * a + 2
       then flash_byte cells p w i AND le16_bytes v ! (i - 2 * a) else flash_byte cells p w i)"
    using window_write [OF assms(1,2) fits(1,2), of w] unfolding assms(4) by auto
  have at: "flash_byte cells p w' (2 * a) = ucast v" "flash_byte cells p w' (2 * a + 1) = ucast (drop_bit 8 v)"
    using w'(2) assms(5,6) by (simp_all add: b)
  have "flash_half cells p w' a = v" unfolding flash_half_def at by (rule le16_bytes [OF b])
  moreover have "flash_byte cells p w' i = flash_byte cells p w i" if "i \<noteq> 2 * a" "i \<noteq> 2 * a + 1" for i
    using w'(2) that by auto
  ultimately show ?thesis using w'(1) by blast
qed

section \<open>What a region holds\<close>

text \<open>
  The versions so far, by the numbers of the blocks behind them: the first number is that of
  the metadata blocks. All that is not allocated is erased.
\<close>

definition holds :: "('h \<Rightarrow> nat \<Rightarrow> u8) \<Rightarrow> region_device \<Rightarrow> 'h world \<Rightarrow> nat list \<Rightarrow> bool" where
  "holds cells p w es \<longleftrightarrow> es \<noteq> [] \<and> 0 < hd es \<and> sorted_wrt (<) es \<and> last es < 65535 \<and>
     16 * last es \<le> unat (region_device_sz p) \<and> length es \<le> 8 * hd es \<and>
     (\<forall>j < length es. flash_half cells p w j = word_of_nat (es ! j)) \<and>
     (\<forall>i. 2 * length es \<le> i \<longrightarrow> i < 16 * hd es \<longrightarrow> flash_byte cells p w i = 0xff) \<and>
     (\<forall>i. 16 * last es \<le> i \<longrightarrow> i < unat (region_device_sz p) \<longrightarrow> flash_byte cells p w i = 0xff)"

definition version_begin :: "nat list \<Rightarrow> nat" where
  "version_begin es = (if length es = 1 then hd es else es ! (length es - 2))"

definition regf :: "region_device \<Rightarrow> nat list \<Rightarrow> region_file" where
  "regf p es = \<lparr>rf_rdev = Some (window p 0 (unat (region_device_sz p))), rf_metadata = Some (window p 0 (16 * hd es)),
     data_begin = word_of_nat (version_begin es), data_end = word_of_nat (last es), slot = int (length es) - 1\<rparr>"

lemma holdsD:
  assumes "holds cells p w es"
  shows "es \<noteq> []" "0 < hd es" "last es < 65535" "16 * last es \<le> unat (region_device_sz p)" "length es \<le> 8 * hd es"
    "j < length es \<Longrightarrow> flash_half cells p w j = word_of_nat (es ! j)"
    "2 * length es \<le> i \<Longrightarrow> i < 16 * hd es \<Longrightarrow> flash_byte cells p w i = 0xff"
    "16 * last es \<le> i \<Longrightarrow> i < unat (region_device_sz p) \<Longrightarrow> flash_byte cells p w i = 0xff"
  using assms by (simp_all add: holds_def)

lemma holds_members:
  assumes "holds cells p w es" "j < length es"
  shows "hd es \<le> es ! j" "es ! j \<le> last es" "es ! j < 65535" "i < j \<Longrightarrow> es ! i < es ! j"
proof -
  have s: "sorted_wrt (<) es" "es \<noteq> []" "last es < 65535" using assms(1) by (simp_all add: holds_def)
  have lt: "es ! a < es ! b" if "a < b" "b < length es" for a b using sorted_wrt_nth_less [OF s(1)] that by blast
  then show "i < j \<Longrightarrow> es ! i < es ! j" using assms(2) by blast
  show "hd es \<le> es ! j" using lt [of 0 j] assms(2) s(2) by (cases j) (simp_all add: hd_conv_nth)
  show "es ! j \<le> last es"
  proof (cases "j = length es - 1")
    case False
    then have "es ! j < es ! (length es - 1)" using assms(2) by (intro lt) linarith+
    then show ?thesis using s(2) by (simp add: last_conv_nth)
  qed (use s(2) in \<open>simp add: last_conv_nth\<close>)
  then show "es ! j < 65535" using s(3) by linarith
qed

lemma holds_half:
  assumes "holds cells p w es" "j < 8 * hd es"
  shows "flash_half cells p w j = (if j < length es then word_of_nat (es ! j) else 0xffff)"
proof (cases "j < length es")
  case False
  then have "flash_byte cells p w (2 * j) = 0xff" "flash_byte cells p w (2 * j + 1) = 0xff"
    using holdsD(7) [OF assms(1)] assms(2) by simp_all
  then show ?thesis using False by (simp add: flash_half_def)
qed (use holdsD(6) [OF assms(1)] in simp)

lemma allocated_block: "n < 65535 \<Longrightarrow> word_of_nat n \<noteq> (0xffff :: u16)"
proof
  assume "n < 65535" "word_of_nat n = (0xffff :: u16)"
  then have "unat (word_of_nat n :: u16) = 65535" by simp
  then show False using \<open>n < 65535\<close> by (simp add: unat_of_nat)
qed

lemma holds_unallocated:
  assumes "holds cells p w es" "j < 8 * hd es"
  shows "flash_half cells p w j = 0xffff \<longleftrightarrow> length es \<le> j"
  using holds_half [OF assms] holds_members(3) [OF assms(1), of j] allocated_block [of "es ! j"] by auto

lemma holds_size:
  assumes "holds cells p w es"
  shows "hd es < 65535" "16 * hd es \<le> unat (region_device_sz p)" "16 \<le> 16 * hd es"
proof -
  have "hd es \<le> last es" using holds_members(2) [OF assms, of 0] holdsD(1) [OF assms] by (simp add: hd_conv_nth)
  then show "hd es < 65535" "16 * hd es \<le> unat (region_device_sz p)" "16 \<le> 16 * hd es"
    using holdsD(2-4) [OF assms] by linarith+
qed

section \<open>A restart finds the latest version\<close>

lemma read_mb_holds:
  assumes "flash_region D d cells p" "holds cells p w es" "rf_metadata f = Some (window p 0 (16 * hd es))" "i < hd es"
  shows "read_mb D w i f = Some (map (flash_half cells p w) [8 * i..<8 * i + 8])"
proof -
  note hs = holds_size [OF assms(2)]
  have i: "i < 65536" using hs(1) assms(4) by linarith
  have o: "unat (block_to_bytes (word_of_nat i)) = 16 * i" using i by (simp add: unat_block_to_bytes unat_of_nat)
  obtain bs where "rdev_readat D w (window p 0 (16 * hd es)) (block_to_bytes (word_of_nat i)) 16 = (16, bs)"
    "le16s bs = map (flash_half cells p w) [8 * i..<8 * i + 8]"
    using read_halves [OF assms(1), of 0 "16 * hd es" "block_to_bytes (word_of_nat i)" 16 "8 * i" 8 w] hs o assms(4) by auto
  then show ?thesis by (simp add: read_mb_def dev_readat_def assms(3) small_not_negative)
qed

lemma mb_unallocated:
  assumes "holds cells p w es" "i < hd es"
  shows "all_block_offsets_unallocated (map (flash_half cells p w) [8 * i..<8 * i + 8]) \<longleftrightarrow> length es \<le> 8 * i"
proof -
  have "flash_half cells p w j = 0xffff \<longleftrightarrow> length es \<le> j" if "j \<in> {8 * i..<8 * i + 8}" for j
    using that assms(2) by (intro holds_unallocated [OF assms(1)]) simp
  then have "(\<forall>j \<in> {8 * i..<8 * i + 8}. flash_half cells p w j = 0xffff) \<longleftrightarrow> (\<forall>j \<in> {8 * i..<8 * i + 8}. length es \<le> j)"
    by blast
  also have "\<dots> \<longleftrightarrow> length es \<le> 8 * i" by auto
  finally show ?thesis by (simp add: all_unallocated)
qed

lemma find_latest_mb_loop_holds:
  assumes "flash_region D d cells p" "holds cells p w es" "rf_metadata f = Some (window p 0 (16 * hd es))"
  shows "8 * l < length es \<Longrightarrow> length es \<le> 8 * r \<Longrightarrow> r \<le> hd es \<Longrightarrow>
    find_latest_mb_loop D w f l r = Some ((length es - 1) div 8)"
  using assms
proof (induction D w f l r rule: find_latest_mb_loop.induct)
  case (1 D w f l r)
  note step = find_latest_mb_loop.simps [of D w f l r]
  show ?case
  proof (cases "l + 1 < r")
    case False
    then have "r = l + 1" using 1 by linarith
    then have "(length es - 1) div 8 = l" using 1 by linarith
    then show ?thesis using False step by simp
  next
    case True
    let ?m = "(l + r) div 2"
    have m: "?m < hd es" using True "1.prems"(3) by linarith
    note rd = read_mb_holds [OF "1.prems"(4-6) m]
    show ?thesis
    proof (cases "length es \<le> 8 * ?m")
      case le: True
      then have "find_latest_mb_loop D w f l ?m = Some ((length es - 1) div 8)"
        using "1.IH"(1) [OF True refl rd] mb_unallocated [OF "1.prems"(5) m] "1.prems" m by simp
      then show ?thesis using step True rd le mb_unallocated [OF "1.prems"(5) m] by simp
    next
      case gt: False
      then have "find_latest_mb_loop D w f ?m r = Some ((length es - 1) div 8)"
        using "1.IH"(2) [OF True refl rd] mb_unallocated [OF "1.prems"(5) m] "1.prems" by simp
      then show ?thesis using step True rd gt mb_unallocated [OF "1.prems"(5) m] by simp
    qed
  qed
qed

lemma latest_slot_loop_at:
  assumes "k \<le> n" "\<forall>i. k < i \<longrightarrow> i \<le> n \<longrightarrow> mb ! i = 0xffff" "k = 0 \<or> mb ! k \<noteq> 0xffff"
  shows "latest_slot_loop mb n = k"
  using assms
proof (induction n)
  case (Suc n)
  then show ?case by (cases "k = Suc n") (auto simp: block_offset_unallocated_def)
qed simp

lemma find_latest_holds:
  assumes "flash_region D d cells p" "holds cells p w es" "rf_metadata f = Some (window p 0 (16 * hd es))"
  shows "\<exists>mb f'. find_latest_mb D w (word_of_nat (hd es)) f = Some (mb, f') \<and>
    find_latest_slot mb f' = f\<lparr>slot := int (length es) - 1\<rparr>"
proof -
  let ?l = "(length es - 1) div 8" and ?k = "(length es - 1) mod 8"
  have len: "0 < length es" "length es \<le> 8 * hd es" using holdsD(1,5) [OF assms(2)] by simp_all
  have hd: "unat (word_of_nat (hd es) :: u16) = hd es" using holds_size(1) [OF assms(2)] by (intro block_of) simp
  have loop: "find_latest_mb_loop D w f 0 (hd es) = Some ?l"
    using find_latest_mb_loop_holds [OF assms, of 0 "hd es"] len by simp
  have l: "?l < hd es" using len by linarith
  let ?mb = "map (flash_half cells p w) [8 * ?l..<8 * ?l + 8]"
  have rd: "read_mb D w ?l (f\<lparr>slot := int ?l * sint (8 :: u32)\<rparr>) = Some ?mb"
    by (rule read_mb_holds [OF assms(1,2) _ l]) (simp add: assms(3))
  have un: "?mb ! i = 0xffff \<longleftrightarrow> length es \<le> 8 * ?l + i" if "i < 8" for i
    using holds_unallocated [OF assms(2), of "8 * ?l + i"] that l by simp
  have pos: "8 * ?l + ?k = length es - 1" by simp
  have "latest_slot_loop ?mb 7 = ?k"
  proof (rule latest_slot_loop_at)
    show "?k \<le> 7" by simp
    show "\<forall>i. ?k < i \<longrightarrow> i \<le> 7 \<longrightarrow> ?mb ! i = 0xffff"
    proof (intro allI impI)
      fix i assume "?k < i" "i \<le> 7"
      moreover from this have "length es \<le> 8 * ?l + i" using pos by linarith
      ultimately show "?mb ! i = 0xffff" using un [of i] by linarith
    qed
    show "?k = 0 \<or> ?mb ! ?k \<noteq> 0xffff" using un [of ?k] pos len by auto
  qed
  moreover have "int ?l * 8 + int ?k = int (length es) - 1" using pos len by linarith
  ultimately show ?thesis
    using loop rd by (simp add: find_latest_mb_def hd find_latest_slot_def Let_def)
qed

lemma last_two:
  assumes "holds cells p w es" "1 < length es"
  shows "version_begin es = es ! (length es - 2)" "last es = es ! (length es - 1)" "version_begin es < last es" "version_begin es < 65535"
proof -
  show b: "version_begin es = es ! (length es - 2)" and e: "last es = es ! (length es - 1)"
    using assms(2) holdsD(1) [OF assms(1)] by (simp_all add: version_begin_def last_conv_nth)
  have "es ! (length es - 2) < es ! (length es - 1)" using assms(2) by (intro holds_members(4) [OF assms(1)]) linarith+
  then show "version_begin es < last es" "version_begin es < 65535" using b e holdsD(3) [OF assms(1)] by simp_all
qed

lemma fill_data_boundaries_holds:
  assumes fr: "flash_region D d cells p" and h: "holds cells p w es"
    and f: "rf_metadata f = Some (window p 0 (16 * hd es))" "rf_rdev f = Some (window p 0 (unat (region_device_sz p)))"
      "slot f = int (length es) - 1"
  shows "fill_data_boundaries D w f =
    Some (f\<lparr>data_begin := word_of_nat (version_begin es), data_end := word_of_nat (last es)\<rparr>)"
proof (cases "length es = 1")
  case True
  have hd: "16 * hd es < 2147483648" "hd es < 65536" using holds_size [OF h] flash_regionD(3) [OF fr] by linarith+
  have "last es = hd es" using True holdsD(1) [OF h] by (cases es) simp_all
  moreover have "ucast (bytes_to_block (word_of_nat (16 * hd es))) = (word_of_nat (hd es) :: u16)"
  proof -
    have "unat (bytes_to_block (word_of_nat (16 * hd es))) = hd es"
      by (simp only: unat_bytes_to_block unat_offset(1) [OF hd(1)])
    then have "bytes_to_block (word_of_nat (16 * hd es)) = word_of_nat (hd es)" using unat_offset(1) [of "hd es"] hd by (simp only: word_unat_eq_iff)
    then show ?thesis using hd by (simp add: unsigned_of_nat take_bit_nat_eq_self)
  qed
  ultimately show ?thesis
    using True f by (simp add: fill_data_boundaries_def dev_sz_def version_begin_def)
next
  case False
  then have len: "1 < length es" using holdsD(1) [OF h] by (cases "length es") auto
  note hs = holds_size [OF h] and mem = flash_regionD(3) [OF fr]
  note two = last_two [OF h len]
  have small: "length es \<le> 524280" using holdsD(5) [OF h] hs(1) by linarith
  let ?o = "word_of_int (slot f - 1) * 2 :: u32"
  have "slot f - 1 = int (length es - 2)" using f(3) len by simp
  then have "?o = word_of_nat (2 * (length es - 2))" by simp
  then have o: "unat ?o = 2 * (length es - 2)" using small by (simp only: unat_offset(1))
  have le4: "2 * (length es - 2) + 4 \<le> 16 * hd es" using holdsD(5) [OF h] len by linarith
  have ch: "dev_chain (Some (window p 0 (16 * hd es))) ?o 4 = Some (window p (2 * (length es - 2)) 4)"
    using window_chain [OF fr, of 0 "16 * hd es" ?o 4] hs(2) o le4 small by (simp add: dev_chain_def)
  obtain bs where bs: "rdev_readat D w (window p (2 * (length es - 2)) 4) 0 4 = (4, bs)"
    "le16s bs = map (flash_half cells p w) [length es - 2..<length es - 2 + 2]"
    using read_halves [OF fr, of "2 * (length es - 2)" 4 0 4 "length es - 2" 2 w] hs(2) le4 by auto
  have at: "le16s bs ! 0 = word_of_nat (version_begin es)" "le16s bs ! 1 = word_of_nat (last es)"
  proof -
    have "[k..<k + 2] = [k, Suc k]" for k by (simp add: upt_rec)
    moreover have "Suc (length es - 2) = length es - 1" using len by linarith
    ultimately have "[length es - 2..<length es - 2 + 2] = [length es - 2, length es - 1]" by metis
    then have "le16s bs = [flash_half cells p w (length es - 2), flash_half cells p w (length es - 1)]"
      using bs(2) by (simp only: list.map)
    then show "le16s bs ! 0 = word_of_nat (version_begin es)" "le16s bs ! 1 = word_of_nat (last es)"
      using two(1,2) len holdsD(6) [OF h] by simp_all
  qed
  have u: "unat (word_of_nat (version_begin es) :: u16) = version_begin es" "unat (word_of_nat (last es) :: u16) = last es"
    using two(4) holdsD(3) [OF h] by (simp_all add: block_of)
  have uu: "unat (ucast (word_of_nat (version_begin es) :: u16) :: u32) = version_begin es"
    "unat (ucast (word_of_nat (last es) :: u16) :: u32) = last es"
    using u two(4) holdsD(3) [OF h] by (simp_all add: unat_ucast_small)
  have le: "last es \<le> unat (region_device_sz p) div 16" using holdsD(4) [OF h] by linarith
  show ?thesis
    using f ch bs(1) at len two(3) le
    by (simp add: fill_data_boundaries_def region_file_data_begin_def region_file_data_end_def dev_sz_def
        word_le_nat_alt word_less_nat_alt uu unat_bytes_to_block small_not_negative)
qed

theorem region_file_init_holds:
  assumes "flash_region D d cells p" "holds cells p w es"
  shows "region_file_init D w p = (0, regf p es)"
proof -
  let ?n = "unat (region_device_sz p)" and ?f0 = "\<lparr>rf_rdev = Some (window p 0 (unat (region_device_sz p))), rf_metadata = Some (window p 0 (16 * hd es)),
     data_begin = 0, data_end = 0, slot = RF_FATAL\<rparr>"
  note hs = holds_size [OF assms(2)] and mem = flash_regionD(3) [OF assms(1)]
  have ch: "rdev_chain p 0 (region_device_sz p) = Some (window p 0 ?n)"
    by (subst whole_access(2)) (use window_chain [OF assms(1), of 0 ?n 0 "region_device_sz p"] mem in simp)
  obtain bs where bs: "rdev_readat D w p 0 16 = (16, bs)" "le16s bs = map (flash_half cells p w) [0..<8]"
    using read_halves [OF assms(1), of 0 ?n 0 16 0 8 w] hs whole_access(1) [where p = p and D = D and w = w and s = 16] by auto
  have first: "le16s bs ! 0 = word_of_nat (hd es)"
    using bs(2) holdsD(1) [OF assms(2)] holdsD(6) [OF assms(2), of 0] by (simp add: upt_rec hd_conv_nth)
  have hd: "unat (word_of_nat (hd es) :: u16) = hd es" using hs(1) by (intro block_of) simp
  have nz: "word_of_nat (hd es) \<noteq> (0 :: u16)" using hd hs(3) by auto
  have bytes: "unat (block_to_bytes (word_of_nat (hd es))) = 16 * hd es" using hd by (simp add: unat_block_to_bytes)
  have md: "rdev_chain p 0 (block_to_bytes (word_of_nat (hd es))) = Some (window p 0 (16 * hd es))"
    by (subst whole_access(2))
      (use window_chain [OF assms(1), of 0 ?n 0 "block_to_bytes (word_of_nat (hd es))"] bytes hs mem in simp)
  obtain mb f' where l: "find_latest_mb D w (word_of_nat (hd es)) ?f0 = Some (mb, f')"
    "find_latest_slot mb f' = ?f0\<lparr>slot := int (length es) - 1\<rparr>"
    using find_latest_holds [OF assms, of ?f0] by auto
  have "fill_data_boundaries D w (?f0\<lparr>slot := int (length es) - 1\<rparr>) = Some (regf p es)"
    by (subst fill_data_boundaries_holds [OF assms]) (simp_all add: regf_def)
  then show ?thesis
    using ch bs(1) first allocated_block [OF hs(1)] nz md l
    by (simp add: region_file_init_def Let_def block_offset_unallocated_def small_not_negative)
qed

end
