(* ===== verification/Region_File_Update.thy ===== *)
theory Region_File_Update
  imports Region_File_Spec
begin

text \<open>
  The updates of a region file, from any state that its history can lead to.
\<close>

section \<open>The number of metadata blocks\<close>

definition fresh_blocks :: "nat \<Rightarrow> nat \<Rightarrow> nat" where
  "fresh_blocks t d = (8 * t div (8 * d + 1) + 7) div 8"

lemma fresh_blocks_bounds:
  assumes "0 < d" "d < t"
  shows "0 < fresh_blocks t d" "fresh_blocks t d + d \<le> t" "t \<le> 65536 \<Longrightarrow> fresh_blocks t d < 65535"
    "0 < 8 * t div (8 * d + 1)"
proof -
  let ?q = "8 * t div (8 * d + 1)"
  have "8 * d + 1 \<le> 8 * t" using assms by linarith
  then show q: "0 < ?q" using div_greater_zero_iff [of "8 * t" "8 * d + 1"] by linarith
  then show "0 < fresh_blocks t d" using div_greater_zero_iff [of "?q + 7" 8] by (simp add: fresh_blocks_def)
  obtain e where e: "t = d + e" "0 < e" using assms(2) less_imp_add_positive by blast
  have "8 * e \<le> 8 * d * (8 * e)" using assms(1) by simp
  then have "8 * t < (8 * d + 1) * (8 * e + 1)" using e by (simp add: algebra_simps)
  then have "?q < 8 * e + 1" by (simp add: div_less_iff_less_mult mult.commute)
  then have "fresh_blocks t d \<le> e" by (simp add: fresh_blocks_def)
  then show "fresh_blocks t d + d \<le> t" using e by linarith
  show "t \<le> 65536 \<Longrightarrow> fresh_blocks t d < 65535"
  proof -
    assume "t \<le> 65536"
    have "?q \<le> 8 * t div 9" using assms(1) by (intro div_le_mono2) auto
    also have "\<dots> \<le> 58254" using \<open>t \<le> 65536\<close> by linarith
    finally show "fresh_blocks t d < 65535" unfolding fresh_blocks_def by linarith
  qed
qed

lemma unat_align8:
  fixes x :: u32
  assumes "unat x \<le> 4294967000"
  shows "unat (ALIGN_UP x 8) = (unat x + 7) div 8 * 8"
  using unat_ALIGN_UP [of 3 x] assms by simp

lemma metadata_number:
  assumes "0 < d" "d < t" "t \<le> 65536"
  shows "(let x = ALIGN_UP (word_of_nat t * 8 div (word_of_nat d * 8 + 1)) 8 :: u32;
      x = (if x = 0 then 1 else x) in ucast (1 * (ALIGN_UP x 8 div 8))) = (word_of_nat (fresh_blocks t d) :: u16)"
proof -
  let ?q = "8 * t div (8 * d + 1)" and ?m = "fresh_blocks t d"
  have q: "0 < ?q" "?q \<le> 524288"
  proof -
    show "0 < ?q" by (rule fresh_blocks_bounds(4) [OF assms(1,2)])
    have "?q \<le> 8 * t" by (rule div_le_dividend)
    then show "?q \<le> 524288" using assms(3) by linarith
  qed
  have d8: "unat (word_of_nat t * 8 :: u32) = 8 * t" "unat (word_of_nat d * 8 + 1 :: u32) = 8 * d + 1"
    using assms by (simp_all add: unat_word_ariths unat_of_nat)
  let ?w = "word_of_nat t * 8 div (word_of_nat d * 8 + 1) :: u32"
  have w: "unat ?w = ?q" by (simp only: unat_div_distrib d8)
  have a: "unat (ALIGN_UP ?w 8) = 8 * ?m"
    using unat_align8 [of ?w] q w by (simp add: fresh_blocks_def)
  have "0 < ?m" by (rule fresh_blocks_bounds(1) [OF assms(1,2)])
  then have nz: "ALIGN_UP ?w 8 \<noteq> 0" using a by (metis mult_is_0 not_gr_zero unat_0 zero_neq_numeral)
  have m: "?m < 65535" by (rule fresh_blocks_bounds(3) [OF assms])
  have "unat (ALIGN_UP (ALIGN_UP ?w 8) 8) = 8 * ?m"
    using unat_align8 [of "ALIGN_UP ?w 8"] a m by simp
  then have "unat (ALIGN_UP (ALIGN_UP ?w 8) 8 div 8) = ?m" by (simp add: unat_div_distrib)
  then have "ALIGN_UP (ALIGN_UP ?w 8) 8 div 8 = word_of_nat ?m"
    using unat_offset(1) [of ?m] m by (simp only: word_unat_eq_iff)
  then show ?thesis using nz m by (simp add: Let_def unsigned_of_nat take_bit_nat_eq_self)
qed

section \<open>Emptying the region\<close>

definition erased :: "('h \<Rightarrow> nat \<Rightarrow> u8) \<Rightarrow> region_device \<Rightarrow> 'h world \<Rightarrow> bool" where
  "erased cells p w \<longleftrightarrow> (\<forall>i < unat (region_device_sz p). flash_byte cells p w i = 0xff)"

lemma handle_need_to_empty_erases:
  assumes "flash_region D d cells p" "rf_rdev f = Some (window p 0 (unat (region_device_sz p)))"
  shows "\<exists>w'. handle_need_to_empty D f w = (0, f\<lparr>slot := RF_EMPTY\<rparr>, w') \<and> erased cells p w'"
proof -
  let ?n = "unat (region_device_sz p)"
  have n: "\<not> negative (region_device_sz p)" using flash_regionD(3) [OF assms(1)] by (rule small_not_negative)
  obtain w' where w': "rdev_eraseat D (window p 0 ?n) 0 (region_device_sz p) w = (region_device_sz p, w')"
    "\<forall>i. flash_byte cells p w' i = (if i < ?n then 0xff else flash_byte cells p w i)"
    using window_erase [OF assms(1), of 0 ?n 0 "region_device_sz p" w] by auto
  then have "erased cells p w'" by (simp add: erased_def)
  then show ?thesis using w'(1) n assms(2) by (simp add: handle_need_to_empty_def dev_eraseat_def dev_sz_def)
qed

lemma allocate_too_big:
  assumes "rf_rdev f = Some (window p 0 (unat (region_device_sz p)))" "16 \<le> unat (region_device_sz p)"
    "unat (region_device_sz p) div 16 \<le> unat blks"
  shows "handle_empty D blks f w = (- 1, f, w)"
proof -
  have al: "unat (ALIGN_DOWN (region_device_sz p) 16) div 16 = unat (region_device_sz p) div 16"
  proof -
    have "unat (ALIGN_DOWN (region_device_sz p) (2 ^ 4)) = unat (region_device_sz p) - unat (region_device_sz p) mod 16"
      by (simp only: unat_ALIGN_DOWN) simp
    then show ?thesis by (simp add: minus_mod_eq_div_mult)
  qed
  have m: "bytes_to_block (ALIGN_UP 16 16) = 1" by (simp add: ALIGN_UP_def ALIGN_MASK_def bytes_to_block_def)
  have t: "unat (bytes_to_block (ALIGN_DOWN (region_device_sz p) 16)) = unat (region_device_sz p) div 16"
    by (simp add: unat_bytes_to_block al)
  have "1 \<le> bytes_to_block (ALIGN_DOWN (region_device_sz p) 16)" using t assms(2) by (simp add: word_le_nat_alt)
  then have "unat (bytes_to_block (ALIGN_DOWN (region_device_sz p) 16) - 1) = unat (region_device_sz p) div 16 - 1"
    using t by (simp add: unat_sub)
  then have "bytes_to_block (ALIGN_DOWN (region_device_sz p) 16) - 1 < blks"
    using assms(2,3) by (simp add: word_less_nat_alt)
  then show ?thesis using assms(1) m by (simp add: handle_empty_def allocate_metadata_def dev_sz_def Let_def)
qed

lemma handle_empty_holds:
  assumes fr: "flash_region D d cells p" and f: "rf_rdev f = Some (window p 0 (unat (region_device_sz p)))"
    and er: "erased cells p w" and blks: "0 < unat blks" "unat blks < unat (region_device_sz p) div 16"
  defines "m \<equiv> fresh_blocks (unat (region_device_sz p) div 16) (unat blks)"
  shows "\<exists>w'. handle_empty D blks f w = (0, regf p [m], w') \<and> holds cells p w' [m]"
proof -
  let ?n = "unat (region_device_sz p)" and ?t = "unat (region_device_sz p) div 16"
  note mem = flash_regionD(3) [OF fr]
  have t: "?t \<le> 65536" using mem by linarith
  note fb = fresh_blocks_bounds [OF blks, folded m_def]
  have al: "bytes_to_block (ALIGN_DOWN (region_device_sz p) 16) = word_of_nat ?t"
  proof -
    have "unat (ALIGN_DOWN (region_device_sz p) (2 ^ 4)) = ?n - ?n mod 16" by (simp only: unat_ALIGN_DOWN) simp
    then have "unat (bytes_to_block (ALIGN_DOWN (region_device_sz p) 16)) = ?t"
      by (simp add: unat_bytes_to_block minus_mod_eq_div_mult)
    then show ?thesis using unat_offset(1) [of ?t] t by (simp only: word_unat_eq_iff)
  qed
  have one: "bytes_to_block (ALIGN_UP 16 16) = 1" by (simp add: ALIGN_UP_def ALIGN_MASK_def bytes_to_block_def)
  have fits: "\<not> blks > word_of_nat ?t - 1"
  proof -
    have "unat (word_of_nat ?t :: u32) = ?t" using t by (intro unat_offset(1)) linarith
    moreover from this have "(1 :: u32) \<le> word_of_nat ?t" using blks by (simp add: word_le_nat_alt)
    ultimately have "unat (word_of_nat ?t - 1 :: u32) = ?t - 1" by (simp add: unat_sub)
    then show ?thesis using blks by (simp add: word_less_nat_alt)
  qed
  have num: "(let x = ALIGN_UP (word_of_nat ?t * 8 div (blks * 8 + 1)) 8 :: u32;
      x = (if x = 0 then 1 else x) in ucast (1 * (ALIGN_UP x 8 div 8))) = (word_of_nat m :: u16)"
    using metadata_number [OF blks t] unfolding m_def by simp
  have m: "m < 65535" using fb(3) t by simp
  have mb: "unat (word_of_nat m :: u16) = m" using m by (intro block_of) simp
  have mt: "16 * m \<le> ?n" using fb(2) by linarith
  have ff: "flash_byte cells p w i = 0xff" if "i < ?n" for i using er that by (simp add: erased_def)
  have two: "2 \<le> ?n" using blks by linarith
  obtain w' where w': "rdev_writeat D (window p 0 ?n) (le16_bytes (word_of_nat m)) 0 2 w = (2, w')"
    "flash_half cells p w' 0 = word_of_nat m"
    "\<forall>i. i \<noteq> 0 \<longrightarrow> i \<noteq> 1 \<longrightarrow> flash_byte cells p w' i = flash_byte cells p w i"
    using write_half [OF fr, of 0 ?n 0 0 w "word_of_nat m"] ff two by auto
  have bytes: "unat (block_to_bytes (word_of_nat m)) = 16 * m" using mb by (simp add: unat_block_to_bytes)
  have ch: "rdev_chain (window p 0 ?n) 0 (block_to_bytes (word_of_nat m)) = Some (window p 0 (16 * m))"
    using window_chain [OF fr, of 0 ?n 0 "block_to_bytes (word_of_nat m)"] bytes mt mem by simp
  have "holds cells p w' [m]"
    unfolding holds_def using fb(1) m mt w' ff by auto
  moreover have "handle_empty D blks f w = (0, regf p [m], w')"
    using f al one fits num w'(1) ch
    by (simp add: handle_empty_def allocate_metadata_def dev_sz_def dev_writeat_def dev_chain_def Let_def
        small_not_negative regf_def version_begin_def)
  ultimately show ?thesis by blast
qed

section \<open>Appending a version\<close>

lemma block_u32:
  assumes "n < 65536"
  shows "unat (ucast (word_of_nat n :: u16) :: u32) = n"
proof -
  have n: "unat (word_of_nat n :: u16) = n" by (rule block_of [OF assms])
  then have "unat (word_of_nat n :: u16) < 4294967296" using assms by linarith
  then have "unat (ucast (word_of_nat n :: u16) :: u32) = unat (word_of_nat n :: u16)" by (intro unat_ucast_small) simp
  then show ?thesis by (simp only: n)
qed

definition version_fits :: "region_device \<Rightarrow> nat list \<Rightarrow> nat \<Rightarrow> bool" where
  "version_fits p es d \<longleftrightarrow> length es < 8 * hd es \<and> last es + d < 65535 \<and> 16 * (last es + d) \<le> unat (region_device_sz p)"

lemma update_can_fit_iff:
  assumes "flash_region D d' cells p" "holds cells p w es" "unat blks < 1073741824"
  shows "update_can_fit (regf p es) blks \<longleftrightarrow> version_fits p es (unat blks)"
proof -
  note hs = holds_size [OF assms(2)] and mem = flash_regionD(3) [OF assms(1)]
  have len: "0 < length es" "length es \<le> 524280" using holdsD(1,5) [OF assms(2)] hs(1) by (simp, linarith)
  have "unat (word_of_nat (16 * hd es) :: u32) = 16 * hd es" using hs mem by (intro unat_offset(1)) linarith
  then have ms: "unat (word_of_nat (16 * hd es) div 2 :: u32) = 8 * hd es" by (simp add: unat_div_distrib)
  have "word_of_int (int (length es) - 1) + 1 = (word_of_nat (length es) :: u32)" by simp
  moreover have "unat (word_of_nat (length es) :: u32) = length es" using len by (intro unat_offset(1)) linarith
  ultimately have sl: "unat (word_of_int (int (length es) - 1) + 1 :: u32) = length es" by simp
  let ?e = "blks + ucast (word_of_nat (last es) :: u16)"
  have lu: "unat (ucast (word_of_nat (last es) :: u16) :: u32) = last es"
    using holdsD(3) [OF assms(2)] by (intro block_u32) linarith
  have "(unat blks + last es) mod 4294967296 = unat blks + last es"
    by (rule mod_less) (use assms(3) holdsD(3) [OF assms(2)] in linarith)
  then have eb: "unat ?e = unat blks + last es" by (simp only: unat_word_ariths lu) simp
  have a: "word_of_int (int (length es) - 1) + 1 \<ge> (word_of_nat (16 * hd es) div 2 :: u32) \<longleftrightarrow> \<not> length es < 8 * hd es"
    by (simp only: word_le_nat_alt ms sl not_less)
  have "unat (ucast (0xffff :: u16) :: u32) = 65535" by simp
  then have b: "?e \<ge> ucast (0xffff :: u16) \<longleftrightarrow> \<not> last es + unat blks < 65535"
    by (simp only: word_le_nat_alt eb not_less add.commute)
  have c: "?e > bytes_to_block (region_device_sz p) \<longleftrightarrow> \<not> 16 * (last es + unat blks) \<le> unat (region_device_sz p)"
    unfolding word_less_nat_alt eb unat_bytes_to_block by (subst div_less_iff_less_mult) (simp_all add: mult.commute add.commute not_le)
  have "update_can_fit (regf p es) blks \<longleftrightarrow> \<not> word_of_int (int (length es) - 1) + 1 \<ge> (word_of_nat (16 * hd es) div 2 :: u32) \<and>
      \<not> ?e \<ge> ucast (0xffff :: u16) \<and> \<not> ?e > bytes_to_block (region_device_sz p)"
    by (simp only: update_can_fit_def regf_def dev_sz_def region_file_data_end_def Let_def regf_consts
        region_file.simps option.case window_region) simp
  then show ?thesis unfolding a b c version_fits_def by simp
qed

lemma commit_allocation:
  assumes fr: "flash_region D d' cells p" and h: "holds cells p w es" and fit: "version_fits p es (unat blks)" "0 < unat blks"
  defines "e \<equiv> last es + unat blks"
  shows "\<exists>w'. commit_data_allocation D blks (regf p es) w = (0, regf p (es @ [e]), w') \<and>
    (\<forall>i. i < 2 * length es \<or> 2 * length es + 2 \<le> i \<longrightarrow> flash_byte cells p w' i = flash_byte cells p w i) \<and>
    flash_half cells p w' (length es) = word_of_nat e"
proof -
  note hs = holds_size [OF h] and mem = flash_regionD(3) [OF fr]
  have len: "0 < length es" "length es \<le> 524280" using holdsD(1,5) [OF h] hs(1) by (simp, linarith)
  have vf: "length es < 8 * hd es" "e < 65535" "16 * e \<le> unat (region_device_sz p)"
    using fit unfolding version_fits_def e_def by simp_all
  have o: "unat (word_of_int (int (length es)) * 2 :: u32) = 2 * length es"
  proof -
    have "word_of_int (int (length es)) * 2 = (word_of_nat (2 * length es) :: u32)" by simp
    then show ?thesis using len by (simp only: unat_offset(1))
  qed
  have ff: "flash_byte cells p w (2 * length es) = 0xff" "flash_byte cells p w (2 * length es + 1) = 0xff"
    using holdsD(7) [OF h] vf(1) by simp_all
  have l16: "unat (word_of_nat (last es) :: u16) = last es" using holdsD(3) [OF h] by (intro block_of) simp
  have lu: "unat (ucast (word_of_nat (last es) :: u16) :: u32) = last es" using holdsD(3) [OF h] by (intro block_u32) simp
  have narrow: "ucast (ucast (word_of_nat (last es) :: u16) :: u32) = (word_of_nat (last es) :: u16)"
    using holdsD(3) [OF h] by (simp add: unsigned_of_nat take_bit_nat_eq_self)
  have e16: "ucast (ucast (word_of_nat (last es) :: u16) + blks) = (word_of_nat e :: u16)"
  proof -
    have "(last es + unat blks) mod 4294967296 = last es + unat blks" by (rule mod_less) (use vf(2) e_def in linarith)
    then have "unat (ucast (word_of_nat (last es) :: u16) + blks) = e"
      by (simp only: unat_word_ariths lu e_def) simp
    then have "ucast (word_of_nat (last es) :: u16) + blks = word_of_nat e"
      using unat_offset(1) [of e] vf(2) by (simp only: word_unat_eq_iff)
    then show ?thesis using vf(2) by (simp add: unsigned_of_nat take_bit_nat_eq_self)
  qed
  obtain w' where w': "rdev_writeat D (window p 0 (16 * hd es)) (le16_bytes (word_of_nat e)) (word_of_int (int (length es)) * 2) 2 w = (2, w')"
    "flash_half cells p w' (length es) = word_of_nat e"
    "\<forall>i. i \<noteq> 2 * length es \<longrightarrow> i \<noteq> 2 * length es + 1 \<longrightarrow> flash_byte cells p w' i = flash_byte cells p w i"
    using write_half [OF fr, of 0 "16 * hd es" "word_of_int (int (length es)) * 2" "length es" w "word_of_nat e"]
      hs(2) o vf(1) ff by auto
  have vb: "version_begin (es @ [e]) = last es" "hd (es @ [e]) = hd es"
    using len by (simp_all add: version_begin_def nth_append last_conv_nth)
  have "commit_data_allocation D blks (regf p es) w = (0, regf p (es @ [e]), w')"
    using w'(1) narrow e16 vb
    by (simp add: commit_data_allocation_def regf_def region_file_data_begin_def region_file_data_end_def
        dev_writeat_def Let_def small_not_negative)
  then show ?thesis using w'(2,3) by auto
qed

definition stored :: "('h \<Rightarrow> nat \<Rightarrow> u8) \<Rightarrow> region_device \<Rightarrow> 'h world \<Rightarrow> nat list \<Rightarrow> u8 list \<Rightarrow> bool" where
  "stored cells p w es buf \<longleftrightarrow> 1 < length es \<and> length buf \<le> 16 * (last es - version_begin es) \<and>
     16 * (last es - version_begin es) < length buf + 16 \<and>
     (\<forall>i < length buf. flash_byte cells p w (16 * version_begin es + i) = buf ! i)"

lemma handle_update_holds:
  assumes fr: "flash_region D d' cells p" and h: "holds cells p w es"
    and buf: "length buf = unat n" "0 < unat n" "unat n \<le> 16 * unat blks" "16 * unat blks < unat n + 16"
    and fit: "version_fits p es (unat blks)"
  defines "e \<equiv> last es + unat blks"
  shows "\<exists>w'. handle_update D blks buf n (regf p es) w = (0, regf p (es @ [e]), w') \<and>
    holds cells p w' (es @ [e]) \<and> stored cells p w' (es @ [e]) buf"
proof -
  note hs = holds_size [OF h] and mem = flash_regionD(3) [OF fr]
  have vf: "length es < 8 * hd es" "e < 65535" "16 * e \<le> unat (region_device_sz p)"
    using fit unfolding version_fits_def e_def by simp_all
  have b0: "0 < unat blks" using buf by linarith
  have small: "unat blks < 1073741824" using vf(2) e_def by linarith
  have le: "hd es \<le> last es" using holds_members(2) [OF h, of 0] holdsD(1) [OF h] by (simp add: hd_conv_nth)
  have es: "es \<noteq> []" "0 < length es" using holdsD(1) [OF h] by simp_all
  obtain w1 where w1: "commit_data_allocation D blks (regf p es) w = (0, regf p (es @ [e]), w1)"
    "\<And>i. i < 2 * length es \<or> 2 * length es + 2 \<le> i \<Longrightarrow> flash_byte cells p w1 i = flash_byte cells p w i"
    "flash_half cells p w1 (length es) = word_of_nat e"
    using commit_allocation [OF fr h fit b0] unfolding e_def by blast
  have vb: "version_begin (es @ [e]) = last es" using es by (simp add: version_begin_def nth_append last_conv_nth)
  have l16: "unat (word_of_nat (last es) :: u16) = last es" using holdsD(3) [OF h] by (intro block_of) simp
  have narrow: "ucast (ucast (word_of_nat (last es) :: u16) :: u32) = (word_of_nat (last es) :: u16)"
    using holdsD(3) [OF h] by (simp add: unsigned_of_nat take_bit_nat_eq_self)
  have o: "unat (block_to_bytes (word_of_nat (last es))) = 16 * last es" using l16 by (simp add: unat_block_to_bytes)
  have inside: "16 * last es + unat n \<le> unat (region_device_sz p)" 
    using vf(3) buf(3) unfolding e_def distrib_left by (meson add_left_mono order.trans)
  then have "unat (block_to_bytes (word_of_nat (last es))) + unat n \<le> unat (region_device_sz p)" using o by simp
  from window_write [OF fr _ this, of 0 buf w1] obtain w2 where
    w2: "rdev_writeat D (window p 0 (unat (region_device_sz p))) buf (block_to_bytes (word_of_nat (last es))) n w1 = (n, w2)"
      "\<And>i. flash_byte cells p w2 i = (if 16 * last es \<le> i \<and> i < 16 * last es + unat n
         then flash_byte cells p w1 i AND buf ! (i - 16 * last es) else flash_byte cells p w1 i)"
    using o buf(1) by auto
  have run: "handle_update D blks buf n (regf p es) w = (0, regf p (es @ [e]), w2)"
    using update_can_fit_iff [OF fr h small] fit w1(1) w2(1) narrow vb small_not_negative [of n] inside mem
    by (simp add: handle_update_def commit_data_def regf_def [of p "es @ [e]"] region_file_data_begin_def dev_writeat_def)
  have bytes: "flash_byte cells p w2 (16 * last es + i) = buf ! i" if "i < length buf" for i
  proof -
    have "2 * length es + 2 \<le> 16 * last es + i" using vf(1) le by linarith
    then have "flash_byte cells p w1 (16 * last es + i) = 0xff"
      using w1(2) holdsD(8) [OF h, of "16 * last es + i"] that inside buf(1) by simp
    then show ?thesis using w2(2) that buf(1) by simp
  qed
  have low: "flash_byte cells p w2 i = flash_byte cells p w1 i" if "i < 16 * last es \<or> 16 * e \<le> i" for i
    using w2(2) that buf(3) unfolding e_def by auto
  have half: "flash_half cells p w2 j = (if j < length es then flash_half cells p w j else flash_half cells p w1 j)"
    if "j \<le> length es" for j
  proof -
    have "2 * j + 1 < 16 * last es" using that vf(1) le by linarith
    then show ?thesis using low w1(2) that by (simp add: flash_half_def)
  qed
  have s: "sorted_wrt (<) (es @ [e])"
    unfolding sorted_wrt_append
  proof (intro conjI ballI)
    show "sorted_wrt (<) es" using h by (simp add: holds_def)
    fix x y assume "x \<in> set es" "y \<in> set [e]"
    then obtain j where "j < length es" "x = es ! j" "y = e" by (auto simp: in_set_conv_nth)
    then show "x < y" using holds_members(2) [OF h, of j] b0 e_def by simp
  qed simp
  have "holds cells p w2 (es @ [e])"
    unfolding holds_def
  proof (intro conjI allI impI)
    fix j assume "j < length (es @ [e])"
    then show "flash_half cells p w2 j = word_of_nat ((es @ [e]) ! j)"
      using half [of j] holdsD(6) [OF h, of j] w1(3) by (cases "j = length es") (simp_all add: nth_append)
  next
    fix i assume i: "2 * length (es @ [e]) \<le> i" "i < 16 * hd (es @ [e])"
    then have "i < 16 * hd es" using es(1) by simp
    then show "flash_byte cells p w2 i = 0xff"
      using low [of i] w1(2) [of i] holdsD(7) [OF h, of i] i(1) le by simp
  next
    fix i assume i: "16 * last (es @ [e]) \<le> i" "i < unat (region_device_sz p)"
    then have "16 * e \<le> i" by simp
    moreover have "2 * length es + 2 \<le> i" using vf(1) le i(1) e_def by simp
    ultimately show "flash_byte cells p w2 i = 0xff"
      using low [of i] w1(2) [of i] holdsD(8) [OF h, of i] i(2) e_def by simp
  qed (use s es hs vf holdsD(2,5) [OF h] in simp_all)
  moreover have "stored cells p w2 (es @ [e]) buf"
    unfolding stored_def vb using es bytes buf e_def by simp
  ultimately show ?thesis using run by blast
qed

end
