(* ===== verification/Region_File_History.thy ===== *)
theory Region_File_History
  imports Region_File_Update
begin

text \<open>
  The loop of an update, and the histories of a region file: any sequence of updates and
  restarts leaves a file that leads to the buffer of the last update that succeeded.
\<close>

section \<open>The loop\<close>

lemma update_loop_turn:
  assumes "update_turn D blks buf n f w = (0, f', w')"
  shows "update_loop D blks buf n f w =
    (if slot f' > 0 \<and> slot f \<noteq> slot f' then Some (0, f', w') else update_loop D blks buf n f' w')"
  by (subst update_loop.simps) (simp add: assms)

lemma update_loop_fails:
  assumes "update_turn D blks buf n f w = (r, f', w')" "r \<noteq> 0"
  shows "update_loop D blks buf n f w = Some (r, f'\<lparr>slot := - 3\<rparr>, w')"
  by (subst update_loop.simps) (simp add: assms)

lemma regf_fields [simp]:
  "rf_rdev (regf p es) = Some (window p 0 (unat (region_device_sz p)))" "slot (regf p es) = int (length es) - 1"
  by (simp_all add: regf_def)

text \<open>The states that an update can start from.\<close>

definition regf_ready :: "('h \<Rightarrow> nat \<Rightarrow> u8) \<Rightarrow> region_device \<Rightarrow> region_file \<Rightarrow> 'h world \<Rightarrow> bool" where
  "regf_ready cells p f w \<longleftrightarrow> rf_rdev f = Some (window p 0 (unat (region_device_sz p))) \<and>
     (slot f = RF_NEED_TO_EMPTY \<or> slot f = RF_EMPTY \<and> erased cells p w \<or> (\<exists>es. f = regf p es \<and> holds cells p w es))"

definition whole_blocks :: "region_device \<Rightarrow> nat" where
  "whole_blocks p = unat (region_device_sz p) div 16"

text \<open>A buffer of some bytes and the number of blocks that it takes.\<close>

definition takes_blocks :: "u8 list \<Rightarrow> size_t \<Rightarrow> size_t \<Rightarrow> bool" where
  "takes_blocks buf n blks \<longleftrightarrow> length buf = unat n \<and> 0 < unat n \<and> unat n \<le> 16 * unat blks \<and> 16 * unat blks < unat n + 16"

lemma takes_blocksD:
  assumes "takes_blocks buf n blks"
  shows "length buf = unat n" "0 < unat n" "unat n \<le> 16 * unat blks" "16 * unat blks < unat n + 16" "0 < unat blks"
    "unat blks < 1073741824"
proof -
  show t: "length buf = unat n" "0 < unat n" "unat n \<le> 16 * unat blks" "16 * unat blks < unat n + 16"
    using assms by (simp_all add: takes_blocks_def)
  show "0 < unat blks" using t by linarith
  have "unat n < 4294967296" by (rule unat_lt_2p32)
  then show "unat blks < 1073741824" using t(4) by linarith
qed

lemma turn_appends:
  assumes "flash_region D d cells p" "holds cells p w es" "takes_blocks buf n blks" "version_fits p es (unat blks)"
  shows "\<exists>es' w'. update_loop D blks buf n (regf p es) w = Some (0, regf p es', w') \<and> holds cells p w' es' \<and> stored cells p w' es' buf"
proof -
  let ?es = "es @ [last es + unat blks]"
  have es: "0 < length es" using holdsD(1) [OF assms(2)] by simp
  obtain w' where w': "handle_update D blks buf n (regf p es) w = (0, regf p ?es, w')"
    "holds cells p w' ?es" "stored cells p w' ?es buf"
    using handle_update_holds [OF assms(1,2) takes_blocksD(1-4) [OF assms(3)] assms(4)] by blast
  have "update_turn D blks buf n (regf p es) w = (0, regf p ?es, w')"
    using w'(1) es by (simp add: update_turn_def)
  then show ?thesis using update_loop_turn w'(2,3) es by fastforce
qed

lemma turn_gives_up:
  assumes "flash_region D d cells p" "holds cells p w es" "takes_blocks buf n blks" "\<not> version_fits p es (unat blks)"
  shows "update_turn D blks buf n (regf p es) w = (0, regf p es\<lparr>slot := - 2\<rparr>, w)"
  using update_can_fit_iff [OF assms(1,2) takes_blocksD(6) [OF assms(3)]] assms(4) holdsD(1) [OF assms(2)]
  by (simp add: update_turn_def handle_update_def)

lemma turn_erases:
  assumes "flash_region D d cells p" "rf_rdev f = Some (window p 0 (unat (region_device_sz p)))" "slot f = - 2"
  shows "\<exists>w'. update_turn D blks buf n f w = (0, f\<lparr>slot := - 1\<rparr>, w') \<and> erased cells p w'"
  using handle_need_to_empty_erases [OF assms(1,2), of w] assms(3) by (simp add: update_turn_def)

lemma turn_allocates:
  assumes "flash_region D d cells p" "rf_rdev f = Some (window p 0 (unat (region_device_sz p)))" "slot f = - 1"
    "erased cells p w" "0 < unat blks" "unat blks < whole_blocks p"
  shows "\<exists>w'. update_turn D blks buf n f w = (0, regf p [fresh_blocks (whole_blocks p) (unat blks)], w') \<and>
    holds cells p w' [fresh_blocks (whole_blocks p) (unat blks)]"
  using handle_empty_holds [OF assms(1,2,4,5)] assms(3,6) by (simp add: update_turn_def whole_blocks_def)

lemma turn_too_big:
  assumes "rf_rdev f = Some (window p 0 (unat (region_device_sz p)))" "slot f = - 1" "16 \<le> unat (region_device_sz p)"
    "whole_blocks p \<le> unat blks"
  shows "update_turn D blks buf n f w = (- 1, f, w)"
  using allocate_too_big [OF assms(1,3)] assms(2,4) by (simp add: update_turn_def whole_blocks_def)

section \<open>An update stores the buffer, fails, or never returns\<close>

definition room_for :: "region_device \<Rightarrow> nat \<Rightarrow> bool" where
  "room_for p b \<longleftrightarrow> b < whole_blocks p \<and> fresh_blocks (whole_blocks p) b + b < 65535"

lemma room_fits:
  assumes "0 < b" "room_for p b"
  shows "version_fits p [fresh_blocks (whole_blocks p) b] b"
proof -
  have b: "b < whole_blocks p" "fresh_blocks (whole_blocks p) b + b < 65535" using assms(2) by (simp_all add: room_for_def)
  have "16 * (fresh_blocks (whole_blocks p) b + b) \<le> 16 * whole_blocks p"
    using fresh_blocks_bounds(2) [OF assms(1) b(1)] by (rule mult_le_mono2)
  also have "\<dots> \<le> unat (region_device_sz p)" unfolding whole_blocks_def by simp
  finally have "16 * (fresh_blocks (whole_blocks p) b + b) \<le> unat (region_device_sz p)" .
  then show ?thesis using fresh_blocks_bounds(1) [OF assms(1) b(1)] b(2) by (simp add: version_fits_def)
qed

lemma empty_stores:
  assumes "flash_region D d cells p" "rf_rdev f = Some (window p 0 (unat (region_device_sz p)))" "slot f = - 1"
    "erased cells p w" "takes_blocks buf n blks" "room_for p (unat blks)"
  shows "\<exists>es' w'. update_loop D blks buf n f w = Some (0, regf p es', w') \<and> holds cells p w' es' \<and> stored cells p w' es' buf"
proof -
  let ?m = "fresh_blocks (whole_blocks p) (unat blks)"
  have b: "0 < unat blks" "unat blks < whole_blocks p" using takes_blocksD(5) [OF assms(5)] assms(6) by (simp_all add: room_for_def)
  obtain w1 where w1: "update_turn D blks buf n f w = (0, regf p [?m], w1)" "holds cells p w1 [?m]"
    using turn_allocates [OF assms(1-4) b] by blast
  have "update_loop D blks buf n f w = update_loop D blks buf n (regf p [?m]) w1"
    using update_loop_turn [OF w1(1)] by simp
  then show ?thesis using turn_appends [OF assms(1) w1(2) assms(5) room_fits [OF b(1) assms(6)]] by simp
qed

lemma full_stores:
  assumes "flash_region D d cells p" "rf_rdev f = Some (window p 0 (unat (region_device_sz p)))" "slot f = - 2"
    "takes_blocks buf n blks" "room_for p (unat blks)"
  shows "\<exists>es' w'. update_loop D blks buf n f w = Some (0, regf p es', w') \<and> holds cells p w' es' \<and> stored cells p w' es' buf"
proof -
  obtain w1 where w1: "update_turn D blks buf n f w = (0, f\<lparr>slot := - 1\<rparr>, w1)" "erased cells p w1"
    using turn_erases [OF assms(1-3)] by blast
  have "update_loop D blks buf n f w = update_loop D blks buf n (f\<lparr>slot := - 1\<rparr>) w1"
    using update_loop_turn [OF w1(1)] by simp
  then show ?thesis using empty_stores [OF assms(1) _ _ w1(2) assms(4,5), of "f\<lparr>slot := - 1\<rparr>"] assms(2) by simp
qed

lemma ready_stores:
  assumes "flash_region D d cells p" "regf_ready cells p f w" "takes_blocks buf n blks" "room_for p (unat blks)"
  shows "\<exists>es' w'. update_loop D blks buf n f w = Some (0, regf p es', w') \<and> holds cells p w' es' \<and> stored cells p w' es' buf"
proof -
  have rd: "rf_rdev f = Some (window p 0 (unat (region_device_sz p)))" using assms(2) by (simp add: regf_ready_def)
  consider "slot f = - 2" | "slot f = - 1" "erased cells p w" | es where "f = regf p es" "holds cells p w es"
    using assms(2) by (auto simp: regf_ready_def)
  then show ?thesis
  proof cases
    case 1
    then show ?thesis by (rule full_stores [OF assms(1) rd _ assms(3,4)])
  next
    case 2
    then show ?thesis by (rule empty_stores [OF assms(1) rd _ _ assms(3,4)])
  next
    case (3 es)
    show ?thesis
    proof (cases "version_fits p es (unat blks)")
      case True
      then show ?thesis unfolding 3(1) by (rule turn_appends [OF assms(1) 3(2) assms(3)])
    next
      case False
      have "update_loop D blks buf n f w = update_loop D blks buf n (regf p es\<lparr>slot := - 2\<rparr>) w"
        unfolding 3(1) using update_loop_turn [OF turn_gives_up [OF assms(1) 3(2) assms(3) False]] by simp
      then show ?thesis using full_stores [OF assms(1) _ _ assms(3,4), of "regf p es\<lparr>slot := - 2\<rparr>" w] by simp
    qed
  qed
qed

text \<open>A buffer that no layout of the region can take: the region is erased first, then the update fails.\<close>

lemma empty_fails:
  assumes "rf_rdev f = Some (window p 0 (unat (region_device_sz p)))" "slot f = - 1" "16 \<le> unat (region_device_sz p)"
    "whole_blocks p \<le> unat blks"
  shows "update_loop D blks buf n f w = Some (- 1, f\<lparr>slot := - 3\<rparr>, w)"
  using update_loop_fails [OF turn_too_big [OF assms]] by simp

lemma full_fails:
  assumes "flash_region D d cells p" "rf_rdev f = Some (window p 0 (unat (region_device_sz p)))" "slot f = - 2"
    "16 \<le> unat (region_device_sz p)" "whole_blocks p \<le> unat blks"
  shows "\<exists>w'. update_loop D blks buf n f w = Some (- 1, f\<lparr>slot := - 3\<rparr>, w') \<and> erased cells p w'"
proof -
  obtain w1 where w1: "update_turn D blks buf n f w = (0, f\<lparr>slot := - 1\<rparr>, w1)" "erased cells p w1"
    using turn_erases [OF assms(1-3)] by blast
  have "update_loop D blks buf n f w = update_loop D blks buf n (f\<lparr>slot := - 1\<rparr>) w1"
    using update_loop_turn [OF w1(1)] by simp
  then show ?thesis using empty_fails [of "f\<lparr>slot := - 1\<rparr>", OF _ _ assms(4,5)] assms(2) w1(2)
    by (intro exI [of _ w1]) simp
qed

lemma too_big_fits_not:
  assumes "whole_blocks p \<le> b" "holds cells p w es"
  shows "\<not> version_fits p es b"
proof
  assume "version_fits p es b"
  then have f: "16 * (last es + b) \<le> unat (region_device_sz p)" by (simp add: version_fits_def)
  have "last es + b \<le> whole_blocks p" using div_le_mono [OF f, of 16] by (simp add: whole_blocks_def)
  moreover have "0 < last es" using holdsD(1,2) [OF assms(2)] holds_members(2) [OF assms(2), of 0] by (simp add: hd_conv_nth)
  ultimately show False using assms(1) by linarith
qed

lemma ready_fails:
  assumes "flash_region D d cells p" "regf_ready cells p f w" "takes_blocks buf n blks" "whole_blocks p \<le> unat blks"
    "16 \<le> unat (region_device_sz p)"
  shows "\<exists>w'. update_loop D blks buf n f w = Some (- 1, f\<lparr>slot := - 3\<rparr>, w') \<and> erased cells p w'"
proof -
  have rd: "rf_rdev f = Some (window p 0 (unat (region_device_sz p)))" using assms(2) by (simp add: regf_ready_def)
  consider "slot f = - 2" | "slot f = - 1" "erased cells p w" | es where "f = regf p es" "holds cells p w es"
    using assms(2) by (auto simp: regf_ready_def)
  then show ?thesis
  proof cases
    case 1
    then show ?thesis by (rule full_fails [OF assms(1) rd _ assms(5,4)])
  next
    case 2
    then show ?thesis using empty_fails [OF rd _ assms(5,4)] by blast
  next
    case (3 es)
    have "update_loop D blks buf n f w = update_loop D blks buf n (regf p es\<lparr>slot := - 2\<rparr>) w"
      unfolding 3(1)
      using update_loop_turn [OF turn_gives_up [OF assms(1) 3(2) assms(3) too_big_fits_not [OF assms(4) 3(2)]]] by simp
    then show ?thesis using full_fails [OF assms(1) _ _ assms(5,4), of "regf p es\<lparr>slot := - 2\<rparr>"] 3(1) by simp
  qed
qed

text \<open>
  Between the two: the fresh metadata and the buffer end at or behind the last block number,
  so that the new layout is given up again, for ever.
\<close>

definition no_room_for :: "region_device \<Rightarrow> nat \<Rightarrow> bool" where
  "no_room_for p b \<longleftrightarrow> b < whole_blocks p \<and> 65535 \<le> fresh_blocks (whole_blocks p) b + b"

definition cycling :: "('h \<Rightarrow> nat \<Rightarrow> u8) \<Rightarrow> region_device \<Rightarrow> nat \<Rightarrow> region_file \<Rightarrow> 'h world \<Rightarrow> bool" where
  "cycling cells p b f w \<longleftrightarrow> rf_rdev f = Some (window p 0 (unat (region_device_sz p))) \<and>
     (slot f = - 2 \<or> slot f = - 1 \<and> erased cells p w \<or> (\<exists>es. f = regf p es \<and> holds cells p w es \<and> \<not> version_fits p es b))"

lemma cycling_turn:
  assumes "flash_region D d cells p" "takes_blocks buf n blks" "no_room_for p (unat blks)" "cycling cells p (unat blks) f w"
  shows "\<exists>f' w'. update_turn D blks buf n f w = (0, f', w') \<and> cycling cells p (unat blks) f' w' \<and> \<not> (slot f' > 0 \<and> slot f \<noteq> slot f')"
proof -
  have rd: "rf_rdev f = Some (window p 0 (unat (region_device_sz p)))" using assms(4) by (simp add: cycling_def)
  have b: "0 < unat blks" "unat blks < whole_blocks p" "65535 \<le> fresh_blocks (whole_blocks p) (unat blks) + unat blks"
    using takes_blocksD(5) [OF assms(2)] assms(3) by (simp_all add: no_room_for_def)
  consider "slot f = - 2" | "slot f = - 1" "erased cells p w"
    | es where "f = regf p es" "holds cells p w es" "\<not> version_fits p es (unat blks)"
    using assms(4) by (auto simp: cycling_def)
  then show ?thesis
  proof cases
    case 1
    from turn_erases [OF assms(1) rd 1] show ?thesis using rd by (fastforce simp: cycling_def)
  next
    case 2
    have "\<not> version_fits p [fresh_blocks (whole_blocks p) (unat blks)] (unat blks)" using b(3) by (simp add: version_fits_def)
    with turn_allocates [OF assms(1) rd 2 b(1,2)] show ?thesis by (fastforce simp: cycling_def)
  next
    case (3 es)
    from turn_gives_up [OF assms(1) 3(2) assms(2) 3(3)] show ?thesis unfolding 3(1) by (fastforce simp: cycling_def)
  qed
qed

lemma cycling_never_returns:
  assumes "flash_region D d cells p" "takes_blocks buf n blks" "no_room_for p (unat blks)" "cycling cells p (unat blks) f w"
  shows "update_loop D blks buf n f w = None"
proof (rule ccontr)
  assume "update_loop D blks buf n f w \<noteq> None"
  then obtain y where "update_loop D blks buf n f w = Some y" by blast
  have "flash_region D d cells p \<longrightarrow> takes_blocks buf n blks \<longrightarrow> no_room_for p (unat blks) \<longrightarrow> \<not> cycling cells p (unat blks) f w"
  proof (rule update_loop.raw_induct [where P = "\<lambda>D blks buf n f w y. flash_region D d cells p \<longrightarrow> takes_blocks buf n blks \<longrightarrow>
      no_room_for p (unat blks) \<longrightarrow> \<not> cycling cells p (unat blks) f w", OF _ \<open>update_loop D blks buf n f w = Some y\<close>], intro impI notI)
    fix upd D blks buf n f w and y :: "int \<times> region_file \<times> 'a world"
    assume ih: "\<And>D blks buf n f w y. upd D blks buf n f w = Some y \<Longrightarrow> flash_region D d cells p \<longrightarrow> takes_blocks buf n blks \<longrightarrow>
        no_room_for p (unat blks) \<longrightarrow> \<not> cycling cells p (unat blks) f w"
      and run: "(case update_turn D blks buf n f w of (ret, f', w') \<Rightarrow>
        if ret \<noteq> 0 then Some (ret, f'\<lparr>slot := RF_FATAL\<rparr>, w')
        else if slot f' > RF_ONLY_METADATA \<and> slot f \<noteq> slot f' then Some (ret, f', w') else upd D blks buf n f' w') = Some y"
      and a: "flash_region D d cells p" "takes_blocks buf n blks" "no_room_for p (unat blks)" "cycling cells p (unat blks) f w"
    obtain f' w' where t: "update_turn D blks buf n f w = (0, f', w')" "cycling cells p (unat blks) f' w'"
      "\<not> (slot f' > 0 \<and> slot f \<noteq> slot f')"
      using cycling_turn [OF a] by blast
    have "upd D blks buf n f' w' = Some y" using run t(1,3) by simp
    then show False using ih a t(2) by blast
  qed
  then show False using assms by blast
qed

section \<open>The whole update\<close>

definition blocks_for :: "size_t \<Rightarrow> nat" where
  "blocks_for n = (unat n + 15) div 16"

lemma update_blocks:
  assumes "length buf = unat n" "0 < unat n" "unat n \<le> 4294967280"
  shows "takes_blocks buf n (bytes_to_block (ALIGN_UP n 16))" "unat (bytes_to_block (ALIGN_UP n 16)) = blocks_for n"
proof -
  have "unat (ALIGN_UP n 16) = blocks_for n * 16"
    using unat_ALIGN_UP [of 4 n] assms(3) by (simp add: blocks_for_def)
  then show b: "unat (bytes_to_block (ALIGN_UP n 16)) = blocks_for n" by (simp add: unat_bytes_to_block)
  have "unat n \<le> 16 * blocks_for n" "16 * blocks_for n < unat n + 16" unfolding blocks_for_def by linarith+
  then show "takes_blocks buf n (bytes_to_block (ALIGN_UP n 16))" using assms(1,2) b by (simp add: takes_blocks_def)
qed

lemma update_data_loop: "region_file_update_data D buf n f w = update_loop D (bytes_to_block (ALIGN_UP n 16)) buf n f w"
  by (simp add: region_file_update_data_def)

lemma init_ready:
  assumes "flash_region D d cells p" "erased cells p w" "16 \<le> unat (region_device_sz p)"
  shows "\<exists>f. region_file_init D w p = (0, f) \<and> rf_rdev f = Some (window p 0 (unat (region_device_sz p))) \<and> slot f = - 1"
proof -
  let ?n = "unat (region_device_sz p)"
  note mem = flash_regionD(3) [OF assms(1)]
  have ch: "rdev_chain p 0 (region_device_sz p) = Some (window p 0 ?n)"
    by (subst whole_access(2)) (use window_chain [OF assms(1), of 0 ?n 0 "region_device_sz p"] mem in simp)
  obtain bs where bs: "rdev_readat D w p 0 16 = (16, bs)" "le16s bs = map (flash_half cells p w) [0..<8]"
    using read_halves [OF assms(1), of 0 ?n 0 16 0 8 w] assms(3) whole_access(1) [where p = p and D = D and w = w and s = 16] by auto
  have "flash_half cells p w 0 = 0xffff" using assms(2,3) by (simp add: flash_half_def erased_def)
  then have "le16s bs ! 0 = 0xffff" using bs(2) by simp
  then show ?thesis using ch bs(1) by (simp add: region_file_init_def Let_def block_offset_unallocated_def small_not_negative)
qed

section \<open>Histories\<close>

text \<open>
  The file, the state and the buffer of the last update that succeeded: a region that starts
  erased, updates, restarts, and the restart after an update that failed.
\<close>

inductive regf_history ::
    "'h driver \<Rightarrow> ('h \<Rightarrow> nat \<Rightarrow> u8) \<Rightarrow> region_device \<Rightarrow> region_file \<Rightarrow> 'h world \<Rightarrow> u8 list option \<Rightarrow> bool"
    for D cells p where
  create: "erased cells p w \<Longrightarrow> region_file_init D w p = (0, f) \<Longrightarrow> regf_history D cells p f w None"
| update: "regf_history D cells p f w v \<Longrightarrow> length buf = unat n \<Longrightarrow> 0 < unat n \<Longrightarrow> unat n \<le> 4294967280 \<Longrightarrow>
    region_file_update_data D buf n f w = Some (0, f', w') \<Longrightarrow> regf_history D cells p f' w' (Some buf)"
| restart: "regf_history D cells p f w v \<Longrightarrow> region_file_init D w p = (0, f') \<Longrightarrow> regf_history D cells p f' w v"
| failed: "regf_history D cells p f w v \<Longrightarrow> length buf = unat n \<Longrightarrow> 0 < unat n \<Longrightarrow> unat n \<le> 4294967280 \<Longrightarrow>
    region_file_update_data D buf n f w = Some (r, f', w') \<Longrightarrow> r \<noteq> 0 \<Longrightarrow>
    region_file_init D w' p = (0, f'') \<Longrightarrow> regf_history D cells p f'' w' None"

definition regf_state :: "('h \<Rightarrow> nat \<Rightarrow> u8) \<Rightarrow> region_device \<Rightarrow> region_file \<Rightarrow> 'h world \<Rightarrow> u8 list option \<Rightarrow> bool" where
  "regf_state cells p f w v \<longleftrightarrow> (case v of
     None \<Rightarrow> rf_rdev f = Some (window p 0 (unat (region_device_sz p))) \<and> slot f = - 1 \<and> erased cells p w
   | Some buf \<Rightarrow> \<exists>es. f = regf p es \<and> holds cells p w es \<and> stored cells p w es buf)"

lemma regf_state_ready: "regf_state cells p f w v \<Longrightarrow> regf_ready cells p f w"
  by (auto simp: regf_state_def regf_ready_def split: option.splits)

text \<open>The three outcomes of an update.\<close>

lemma update_outcome:
  assumes fr: "flash_region D d cells p" and rdy: "regf_ready cells p f w" and sz: "16 \<le> unat (region_device_sz p)"
    and n: "length buf = unat n" "0 < unat n" "unat n \<le> 4294967280"
    and run: "region_file_update_data D buf n f w = Some (r, f', w')"
  shows "r = 0 \<and> regf_state cells p f' w' (Some buf) \<or> r \<noteq> 0 \<and> erased cells p w'"
proof -
  let ?b = "bytes_to_block (ALIGN_UP n 16)"
  note tb = update_blocks(1) [OF n]
  note run' = run [unfolded update_data_loop]
  consider (room) "room_for p (unat ?b)" | (big) "whole_blocks p \<le> unat ?b" | (none) "no_room_for p (unat ?b)"
    unfolding room_for_def no_room_for_def by linarith
  then show ?thesis
  proof cases
    case room
    from ready_stores [OF fr rdy tb room] show ?thesis using run' by (auto simp: regf_state_def)
  next
    case big
    from ready_fails [OF fr rdy tb big sz] show ?thesis using run' by auto
  next
    case none
    have nc: "\<not> cycling cells p (unat ?b) f w" using cycling_never_returns [OF fr tb none] run' by auto
    then obtain es where es: "f = regf p es" "holds cells p w es" "version_fits p es (unat ?b)"
      using rdy by (auto simp: cycling_def regf_ready_def)
    from turn_appends [OF fr es(2) tb es(3)] show ?thesis using run' es(1) by (auto simp: regf_state_def)
  qed
qed

lemma init_state:
  assumes "flash_region D d cells p" "16 \<le> unat (region_device_sz p)" "region_file_init D w p = (0, f)"
  shows "erased cells p w \<Longrightarrow> regf_state cells p f w None"
    "regf_state cells p f' w (Some buf) \<Longrightarrow> regf_state cells p f w (Some buf)"
proof -
  show "erased cells p w \<Longrightarrow> regf_state cells p f w None"
    using init_ready [OF assms(1) _ assms(2), of w] assms(3) by (auto simp: regf_state_def)
  show "regf_state cells p f' w (Some buf) \<Longrightarrow> regf_state cells p f w (Some buf)"
    using region_file_init_holds [OF assms(1)] assms(3) by (fastforce simp: regf_state_def)
qed

lemma history_state:
  assumes "regf_history D cells p f w v" "flash_region D d cells p" "16 \<le> unat (region_device_sz p)"
  shows "regf_state cells p f w v"
  using assms
proof (induction rule: regf_history.induct)
  case (create w f)
  then show ?case using init_state(1) by blast
next
  case (update f w v buf n f' w')
  then show ?case using update_outcome [OF _ regf_state_ready] by blast
next
  case (restart f w v f')
  then have st: "regf_state cells p f w v" by blast
  show ?case
  proof (cases v)
    case None
    then have "erased cells p w" using st by (simp add: regf_state_def)
    then show ?thesis using init_state(1) [OF restart.prems restart.hyps(2)] None by simp
  next
    case (Some buf)
    then show ?thesis using init_state(2) [OF restart.prems restart.hyps(2)] st by simp
  qed
next
  case (failed f w v buf n r f' w' f'')
  then have "erased cells p w'" using update_outcome [OF _ regf_state_ready] by blast
  then show ?case using init_state(1) failed.hyps failed.prems by blast
qed

text \<open>The window behind a stored buffer.\<close>

lemma stored_data:
  assumes fr: "flash_region D d cells p" and h: "holds cells p w es" and st: "stored cells p w es buf"
  shows "\<exists>rd. region_file_data (regf p es) = Some rd \<and> length buf \<le> unat (region_device_sz rd) \<and>
    unat (region_device_sz rd) < length buf + 16 \<and>
    rdev_readat D w rd 0 (word_of_nat (length buf)) = (word_of_nat (length buf), buf)"
proof -
  let ?b = "version_begin es" and ?e = "last es"
  note mem = flash_regionD(3) [OF fr]
  have st': "1 < length es" "length buf \<le> 16 * (?e - ?b)" "16 * (?e - ?b) < length buf + 16"
    "\<And>i. i < length buf \<Longrightarrow> flash_byte cells p w (16 * ?b + i) = buf ! i"
    using st by (simp_all add: stored_def)
  note two = last_two [OF h st'(1)]
  have e: "?e < 65535" "16 * ?e \<le> unat (region_device_sz p)" by (rule holdsD(3) [OF h], rule holdsD(4) [OF h])
  have u: "unat (block_to_bytes (word_of_nat ?b)) = 16 * ?b" "unat (block_to_bytes (word_of_nat ?e)) = 16 * ?e"
    using block_of [of ?b] block_of [of ?e] two(4) e(1) by (simp_all add: unat_block_to_bytes)
  then have "block_to_bytes (word_of_nat ?b) \<le> block_to_bytes (word_of_nat ?e)" using two(3) by (simp add: word_le_nat_alt)
  then have len: "unat (block_to_bytes (word_of_nat ?e) - block_to_bytes (word_of_nat ?b)) = 16 * (?e - ?b)"
    using u by (simp add: unat_sub)
  have sum: "16 * ?b + 16 * (?e - ?b) = 16 * ?e" using two(3) by simp
  let ?rd = "window p (16 * ?b) (16 * (?e - ?b))"
  have "rdev_chain (window p 0 (unat (region_device_sz p))) (block_to_bytes (word_of_nat ?b))
      (block_to_bytes (word_of_nat ?e) - block_to_bytes (word_of_nat ?b)) = Some ?rd"
    using window_chain [OF fr, of 0 "unat (region_device_sz p)" "block_to_bytes (word_of_nat ?b)"
      "block_to_bytes (word_of_nat ?e) - block_to_bytes (word_of_nat ?b)"] u len sum e two(4) by simp
  then have rd: "region_file_data (regf p es) = Some ?rd"
    using st'(1) by (simp add: region_file_data_def regf_def dev_chain_def Let_def)
  have small: "16 * (?e - ?b) < 2147483648" using e(1) by linarith
  have sz: "unat (region_device_sz ?rd) = 16 * (?e - ?b)" by (simp only: window_region unat_offset(1) [OF small])
  have n: "unat (word_of_nat (length buf) :: u32) = length buf" by (rule unat_offset(1)) (use st'(2) small in linarith)
  have "rdev_readat D w ?rd 0 (word_of_nat (length buf)) =
      (word_of_nat (length buf), map (\<lambda>i. flash_byte cells p w (16 * ?b + unat (0 :: u32) + i)) [0..<unat (word_of_nat (length buf) :: u32)])"
    by (rule window_read [OF fr]) (use sum e(2) n st'(2) in linarith, use n st'(2) in simp)
  also have "map (\<lambda>i. flash_byte cells p w (16 * ?b + unat (0 :: u32) + i)) [0..<unat (word_of_nat (length buf) :: u32)] = buf"
    unfolding n by (rule nth_equalityI) (simp_all add: st'(4))
  finally show ?thesis using rd sz st'(2,3) by simp
qed

lemma history_grows:
  assumes "flash_region D d cells p" "16 \<le> unat (region_device_sz p)" "regf_history D cells p f w v"
    and "length buf = unat n" "0 < unat n" "unat n \<le> 4294967280" "room_for p (blocks_for n)"
  shows "\<exists>es w'. region_file_update_data D buf n f w = Some (0, regf p es, w') \<and> regf_history D cells p (regf p es) w' (Some buf) \<and>
    holds cells p w' es \<and> stored cells p w' es buf"
proof -
  have rdy: "regf_ready cells p f w" by (rule regf_state_ready [OF history_state [OF assms(3,1,2)]])
  note ub = update_blocks [OF assms(4-6)]
  obtain es w' where run: "region_file_update_data D buf n f w = Some (0, regf p es, w')"
    "holds cells p w' es" "stored cells p w' es buf"
    using ready_stores [OF assms(1) rdy ub(1)] assms(7) unfolding ub(2) update_data_loop by blast
  then show ?thesis using regf_history.update [OF assms(3-6) run(1)] by blast
qed

section \<open>Properties\<close>

text \<open>
  C8. Whatever sequence of updates, failures and restarts a region on flash memory has seen,
  the file leads to a window of the region from which exactly the buffer of the last
  successful update is read, at most 15 bytes longer than the buffer; with no such update it
  has no data.
\<close>

theorem region_file_last_version:
  assumes "flash_region D d cells p" "16 \<le> unat (region_device_sz p)" "regf_history D cells p f w v"
  shows "case v of None \<Rightarrow> region_file_data f = None
    | Some buf \<Rightarrow> \<exists>rd. region_file_data f = Some rd \<and> length buf \<le> unat (region_device_sz rd) \<and>
        unat (region_device_sz rd) < length buf + 16 \<and>
        rdev_readat D w rd 0 (word_of_nat (length buf)) = (word_of_nat (length buf), buf)"
proof -
  have st: "regf_state cells p f w v" by (rule history_state [OF assms(3,1,2)])
  show ?thesis
  proof (cases v)
    case None
    then show ?thesis using st by (simp add: regf_state_def region_file_data_def)
  next
    case (Some buf)
    then obtain es where "f = regf p es" "holds cells p w es" "stored cells p w es buf" using st by (auto simp: regf_state_def)
    then show ?thesis using stored_data [OF assms(1)] Some by simp
  qed
qed

text \<open>
  C9. A buffer for which an empty region has room (its blocks and the metadata end below the
  last block number) is always stored: from every state of a history the update returns 0, and
  the new file reads back exactly the buffer.
\<close>

theorem region_file_update_stores:
  assumes "flash_region D d cells p" "16 \<le> unat (region_device_sz p)" "regf_history D cells p f w v"
    and "length buf = unat n" "0 < unat n" "unat n \<le> 4294967280" "room_for p (blocks_for n)"
  shows "\<exists>f' w' rd. region_file_update_data D buf n f w = Some (0, f', w') \<and> regf_history D cells p f' w' (Some buf) \<and>
    region_file_data f' = Some rd \<and> rdev_readat D w' rd 0 n = (n, buf)"
proof -
  obtain es w' where run: "region_file_update_data D buf n f w = Some (0, regf p es, w')"
    "regf_history D cells p (regf p es) w' (Some buf)" "holds cells p w' es" "stored cells p w' es buf"
    using history_grows [OF assms] by blast
  have "word_of_nat (length buf) = n" unfolding assms(4) by simp
  then show ?thesis using run(1,2) stored_data [OF assms(1) run(3,4)] by auto
qed

text \<open>
  C11. A buffer of as many blocks as the whole region makes the update fail, after it has
  erased the region: the versions stored before are lost.
\<close>

theorem region_file_update_loses:
  assumes "flash_region D d cells p" "16 \<le> unat (region_device_sz p)" "regf_history D cells p f w v"
    and "length buf = unat n" "0 < unat n" "unat n \<le> 4294967280" "whole_blocks p \<le> blocks_for n"
  shows "\<exists>f' w'. region_file_update_data D buf n f w = Some (- 1, f', w') \<and> erased cells p w' \<and> region_file_data f' = None"
proof -
  have rdy: "regf_ready cells p f w" by (rule regf_state_ready [OF history_state [OF assms(3,1,2)]])
  note ub = update_blocks [OF assms(4-6)]
  from ready_fails [OF assms(1) rdy ub(1) _ assms(2)] assms(7) obtain w' where
    "region_file_update_data D buf n f w = Some (- 1, f\<lparr>slot := - 3\<rparr>, w')" "erased cells p w'"
    unfolding ub(2) update_data_loop by blast
  then show ?thesis by (auto simp: region_file_data_def)
qed

text \<open>
  C10. An update of a region without data that has blocks enough, but whose buffer would end
  behind block 0xfffe, never returns: it allocates the metadata, finds that the update does
  not fit, erases the region and starts again.
\<close>

theorem region_file_update_endless:
  assumes "flash_region D d cells p" "16 \<le> unat (region_device_sz p)" "regf_history D cells p f w None"
    and "length buf = unat n" "0 < unat n" "unat n \<le> 4294967280" "no_room_for p (blocks_for n)"
  shows "region_file_update_data D buf n f w = None"
proof -
  have "regf_state cells p f w None" by (rule history_state [OF assms(3,1,2)])
  then have "cycling cells p (blocks_for n) f w" by (simp add: regf_state_def cycling_def)
  then show ?thesis
    using cycling_never_returns [OF assms(1) update_blocks(1) [OF assms(4-6)]] assms(7)
    unfolding update_blocks(2) [OF assms(4-6)] update_data_loop by blast
qed

section \<open>A flash chip\<close>

definition nor_driver :: "(nat \<Rightarrow> u8) driver" where
  "nor_driver = \<lparr>drv_readat = \<lambda>d off s h. (s, map (\<lambda>i. h (unat off + i)) [0..<unat s]),
     drv_writeat = \<lambda>d b off s h.
       (s, \<lambda>i. if unat off \<le> i \<and> i < unat off + unat s then h i AND b ! (i - unat off) else h i),
     drv_eraseat = \<lambda>d off s h. (s, \<lambda>i. if unat off \<le> i \<and> i < unat off + unat s then 0xff else h i)\<rparr>"

definition nor_region :: "nat \<Rightarrow> region_device" where
  "nor_region n = WholeDev (RootDev 0 (DriverOps 0 None True True) (mk_region 0 (word_of_nat n)))"

definition nor_blank :: "(nat \<Rightarrow> u8) world" where
  "nor_blank = \<lparr>ram = \<lambda>_. 0, pools = pools demo_world, hw = \<lambda>_. 0xff\<rparr>"

lemma nor_flash: "flash_driver nor_driver 0 (\<lambda>h. h) cap"
  by (simp add: flash_driver_def nor_driver_def)

lemma nor_flash_region:
  assumes "n \<le> 1048576"
  shows "unat (region_device_sz (nor_region n)) = n" "flash_region nor_driver 0 (\<lambda>h. h) (nor_region n)"
proof -
  show sz: "unat (region_device_sz (nor_region n)) = n"
    using assms by (simp add: nor_region_def region_device_sz_def unat_of_nat)
  show "flash_region nor_driver 0 (\<lambda>h. h) (nor_region n)"
    unfolding flash_region_def sz using assms nor_flash by (simp add: nor_region_def region_device_offset_def)
qed

lemma nor_history:
  assumes "16 \<le> n" "n \<le> 1048576"
  shows "\<exists>f. regf_history nor_driver (\<lambda>h. h) (nor_region n) f nor_blank None"
proof -
  note nr = nor_flash_region [OF assms(2)]
  have "erased (\<lambda>h. h) (nor_region n) nor_blank" by (simp add: erased_def flash_byte_def nor_blank_def)
  then show ?thesis using init_ready [OF nr(2)] assms(1) nr(1) regf_history.create by metis
qed

lemma nor_whole: "n \<le> 1048576 \<Longrightarrow> whole_blocks (nor_region n) = n div 16"
  by (simp add: whole_blocks_def nor_flash_region)

lemma nor_room: "room_for (nor_region 1024) (blocks_for 5)"
  by (simp add: room_for_def nor_whole blocks_for_def fresh_blocks_def)

theorem region_file_last_version_witness:
  "\<exists>f w rd. regf_history nor_driver (\<lambda>h. h) (nor_region 1024) f w (Some [1, 2, 3, 4, 5]) \<and>
     region_file_data f = Some rd \<and> rdev_readat nor_driver w rd 0 5 = (5, [1, 2, 3, 4, 5])"
proof -
  have nr: "flash_region nor_driver 0 (\<lambda>h. h) (nor_region 1024)" "16 \<le> unat (region_device_sz (nor_region 1024))"
    by (simp_all add: nor_flash_region)
  obtain f where f: "regf_history nor_driver (\<lambda>h. h) (nor_region 1024) f nor_blank None" using nor_history [of 1024] by auto
  obtain es w where "regf_history nor_driver (\<lambda>h. h) (nor_region 1024) (regf (nor_region 1024) es) w (Some [1, 2, 3, 4, 5])"
    using history_grows [OF nr f, of "[1, 2, 3, 4, 5]" 5] nor_room by auto
  from region_file_last_version [OF nr this] this show ?thesis by auto
qed

theorem region_file_update_stores_witness:
  "\<exists>f f' w' rd. regf_history nor_driver (\<lambda>h. h) (nor_region 1024) f nor_blank None \<and>
     region_file_update_data nor_driver [1, 2, 3, 4, 5] 5 f nor_blank = Some (0, f', w') \<and>
     region_file_data f' = Some rd \<and> rdev_readat nor_driver w' rd 0 5 = (5, [1, 2, 3, 4, 5])"
proof -
  have nr: "flash_region nor_driver 0 (\<lambda>h. h) (nor_region 1024)" "16 \<le> unat (region_device_sz (nor_region 1024))"
    by (simp_all add: nor_flash_region)
  obtain f where f: "regf_history nor_driver (\<lambda>h. h) (nor_region 1024) f nor_blank None" using nor_history [of 1024] by auto
  from region_file_update_stores [OF nr f, of "[1, 2, 3, 4, 5]" 5] nor_room f show ?thesis by auto
qed

theorem region_file_update_loses_witness:
  "\<exists>f f' w'. regf_history nor_driver (\<lambda>h. h) (nor_region 32) f nor_blank None \<and>
     region_file_update_data nor_driver (replicate 20 7) 20 f nor_blank = Some (- 1, f', w') \<and> region_file_data f' = None"
proof -
  have nr: "flash_region nor_driver 0 (\<lambda>h. h) (nor_region 32)" "16 \<le> unat (region_device_sz (nor_region 32))"
    by (simp_all add: nor_flash_region)
  have b: "whole_blocks (nor_region 32) \<le> blocks_for 20" by (simp add: nor_whole blocks_for_def)
  obtain f where f: "regf_history nor_driver (\<lambda>h. h) (nor_region 32) f nor_blank None" using nor_history [of 32] by auto
  have l: "length (replicate 20 (7 :: u8)) = unat (20 :: u32)" "0 < unat (20 :: u32)" "unat (20 :: u32) \<le> 4294967280" by simp_all
  from region_file_update_loses [OF nr f l b] f show ?thesis by blast
qed

theorem region_file_update_endless_witness:
  "\<exists>f. regf_history nor_driver (\<lambda>h. h) (nor_region 1048576) f nor_blank None \<and>
     region_file_update_data nor_driver (replicate 1048544 7) 1048544 f nor_blank = None"
proof -
  have nr: "flash_region nor_driver 0 (\<lambda>h. h) (nor_region 1048576)" "16 \<le> unat (region_device_sz (nor_region 1048576))"
    by (simp_all add: nor_flash_region)
  have b: "no_room_for (nor_region 1048576) (blocks_for 1048544)"
    by (simp add: no_room_for_def nor_whole blocks_for_def fresh_blocks_def)
  obtain f where f: "regf_history nor_driver (\<lambda>h. h) (nor_region 1048576) f nor_blank None" using nor_history [of 1048576] by auto
  have l: "length (replicate 1048544 (7 :: u8)) = unat (1048544 :: u32)" "0 < unat (1048544 :: u32)"
    "unat (1048544 :: u32) \<le> 4294967280" by (simp_all only: length_replicate) simp_all
  from region_file_update_endless [OF nr f l b] f show ?thesis by blast
qed

end
