(* ===== verification/Spec2Isabelle.thy ===== *)
theory Spec2Isabelle
  imports Mem_Pool Region Resource Allocator_Correct Memrange Acpigen_Spec Bootmem Timer_Queue Boot_State Imd Rtc Ip_Checksum
    Region_File_History
begin

text \<open>
  A verification development for the core of coreboot, the boot firmware under
  \<^verbatim>\<open>src/coreboot\<close>, as configured for the Supermicro X9SPU-F: the main stage is 32-bit
  x86 code, so \<open>size_t\<close>, \<open>uintptr_t\<close> and \<open>unsigned long\<close> are \<open>32 word\<close> and \<open>resource_t\<close> is
  \<open>64 word\<close>.

  \<^bold>\<open>The program.\<close> The main stage (\<^verbatim>\<open>lib/hardwaremain.c\<close>) walks through a sequence of
  states: it enumerates the devices, gives them resources, initializes them, writes the
  tables for the operating system and loads a payload. On the way it keeps a queue of
  timers (\<^verbatim>\<open>lib/timer_queue.c\<close>), a map of the memory (\<^verbatim>\<open>lib/memrange.c\<close>, \<^verbatim>\<open>lib/bootmem.c\<close>)
  built from the resources of the devices (\<^verbatim>\<open>device/device_util.c\<close>), a database in memory
  that survives the stages (\<^verbatim>\<open>lib/imd.c\<close>), access to storage through region devices
  (\<^verbatim>\<open>commonlib/region.c\<close>, buffers from \<^verbatim>\<open>commonlib/mem_pool.c\<close>), and a generator of ACPI
  machine language (\<^verbatim>\<open>arch/x86/acpigen.c\<close>).

  \<^bold>\<open>The theories.\<close>

  \<^item> \<open>Prelude\<close>: the integer types, byte-addressed memory (a function from addresses to
    bytes), the alignment macros, and the lemmas on words that the others use.
  \<^item> \<open>Mem_Pool\<close>: \<^verbatim>\<open>commonlib/mem_pool.c\<close>. The pool is a record; every history of
    allocations and frees is an inductive relation, and its blocks stay apart.
  \<^item> \<open>Region\<close>: \<^verbatim>\<open>commonlib/region.c\<close>. A device is a tree of windows (\<open>region_device\<close>,
    \<open>rdev_ops\<close>) over memory, translated windows, split read and write devices, mapping
    helpers, and drivers outside the directory (a parameter). Each access is one recursive
    function through the tree; the locale \<open>routed_access\<close> states what reads, writes and
    maps share (which location a request reaches) and is interpreted for each of them.
  \<^item> \<open>Region_File\<close>: \<^verbatim>\<open>lib/region_file.c\<close>, versions of a blob appended to a region device.
    \<open>Region_File_Spec\<close> states flash memory as its data sheet does (programming clears bits,
    erasing sets them; a driver is a parameter with this law), says what a region \<open>holds\<close> and
    that a restart finds the latest version; \<open>Region_File_Update\<close> follows one update, and
    \<open>Region_File_History\<close> the loop around it and all histories of updates and restarts. Regions
    are of at most 1 MiB, as the 16-bit block numbers of the code demand.
  \<^item> \<open>Resource\<close>: the resource records of \<^verbatim>\<open>device/device_util.c\<close>.
  \<^item> \<open>Allocator\<close>: the resource allocator of \<^verbatim>\<open>device/device.c\<close> with the search over a bus of
    \<^verbatim>\<open>device/device_util.c\<close>. Devices and buses are a datatype; the resource records live in a
    store from addresses to records, since both passes update bridges and devices through
    pointers; \<open>None\<close> is a null link. \<open>Allocator_Spec\<close> relates the repeated search for the
    largest resource to one sort; \<open>Allocator_Layout\<close> and \<open>Allocator_Passes\<close> say in natural
    numbers where both passes put the resources of one bus; \<open>Allocator_Tree\<close> has the locale
    \<open>bus_pass\<close>, the recursion over bridges that the passes share, interpreted for each;
    \<open>Allocator_Fit\<close> (sizes), \<open>Allocator_Place\<close> (positions), \<open>Allocator_Windows\<close> (fixed
    resources), \<open>Allocator_Domains\<close> and \<open>Allocator_Configure\<close> (all domains) lead to the theorem
    of \<open>Allocator_Correct\<close>. Its conditions: the sums of sizes and the ends of windows and fixed
    resources lie below \<open>2 ^ 62\<close>, so that no 64-bit sum wraps; bridges and domains with ports in
    use are aligned to the 1024 ports of the legacy decoding, as both passes skip to such
    addresses; a fixed resource at address 0 does not cover its window (the comparison that
    moves the limits would wrap); the windows that the fixed resources leave have room. The
    example, a domain with the fixed resources of the board's LPC bridge (the ports from 0, the
    flash, the I/O APIC, two serial ports), meets them all.
  \<^item> \<open>Memrange\<close>: \<^verbatim>\<open>lib/memrange.c\<close>, the sorted list of tagged ranges with its free list.
    The locale \<open>range_map\<close> is the abstract map from addresses to tags; its interpretation
    is the refinement by the list. Requests do not wrap, and holes are filled up to a limit that
    splits the entries; a theorem shows the disorder that another limit leaves.
  \<^item> \<open>Acpigen\<close>, \<open>Acpigen_Spec\<close>: \<^verbatim>\<open>arch/x86/acpigen.c\<close> and \<^verbatim>\<open>lib/hexstrtobin.c\<close>. The emitters
    act on memory, the current address and the stack of lengths; \<open>produces\<close> says which bytes
    an emitter appends, the locale \<open>aml_block\<close> covers the blocks with a patched length, and
    decoders written from the ACPI specification read the bytes back. An \<open>ASSERT\<close> that fails is
    \<open>None\<close>, although this configuration only prints a message and goes on (with an access
    outside the stack of lengths); the theorems are about runs in which none fails.
  \<^item> \<open>Bootmem\<close>: \<^verbatim>\<open>lib/bootmem.c\<close>, on the map of \<open>Memrange\<close> and the resources of \<open>Resource\<close>.
  \<^item> \<open>Timer_Queue\<close>: \<^verbatim>\<open>lib/timer_queue.c\<close> and \<^verbatim>\<open>include/timer.h\<close>; the locale \<open>timer_pq\<close> is a
    bounded priority queue, interpreted on the binary heap of the code.
  \<^item> \<open>Boot_State\<close>: \<^verbatim>\<open>lib/hardwaremain.c\<close>, with the timers of \<open>Timer_Queue\<close> inside its state.
    The calls into the rest of the program are parameters (\<open>boot_env\<close>).
  \<^item> \<open>Imd\<close>: \<^verbatim>\<open>lib/imd.c\<close> on the bytes of memory, with the database \<open>adb\<close> of entries as its
    abstraction and the histories of operations as the relation \<open>imd_reach\<close>: additions that
    have room, removals of added entries, the lockdown, and writes outside the roots. Two lemmas
    show what the code accepts beyond them: an entry below address 0, and the removal of the
    entry of the small region.
  \<^item> \<open>Rtc\<close>: \<^verbatim>\<open>lib/rtc.c\<close>, with dates as days counted from the calendar's rules.
  \<^item> \<open>Ip_Checksum\<close>: \<^verbatim>\<open>lib/compute_ip_checksum.c\<close>, with the one's complement sum of the bytes as
    its reference.

  \<^bold>\<open>Loops and bounds.\<close> No definition takes fuel. A loop whose end follows from its data is
  a \<open>fun\<close> or a \<open>function\<close> with a termination proof; the waiting loops of the boot state machine,
  which end only when the environment lets them, and the loop of a region file's update are
  \<open>partial_function (option)\<close>, and the theorems on them show when they return. Words keep their width, and wrap-around is
  excluded only by a stated premise; where the code can be driven past it, a theorem shows
  what happens.

  \<^bold>\<open>Parameters.\<close> The clock, the callbacks of timers and of boot states, the calls of the boot
  states into drivers, and the drivers of region devices outside \<^verbatim>\<open>commonlib\<close> are functions
  passed to the definitions; the witnesses use concrete ones.

  \<^bold>\<open>Not modelled.\<close> Console output, everywhere (it changes no state the program reads). The
  enumeration of devices, chipset, board, super I/O and embedded controller code: sequences
  of register accesses whose meaning is the hardware's. The decompressors, the JPEG decoder,
  the profiling code and the vendor directories: code of other projects carried in the tree.
  The assembly that starts processors and switches stacks. The host tools and payloads:
  separate programs. The flash file system and the computation of the variable
  MTRRs.
\<close>

end
